(* ===== verification/OSV_Base.thy ===== *)
theory OSV_Base
  imports Main "HOL-Library.Word" "HOL-Library.Monad_Syntax" "HOL-Library.Signed_Division"
begin

unbundle bit_operations_syntax

section \<open>Shared types, error codes and panics\<close>

text \<open>
  What every component of the kernel uses: the machine integer types of
  \<^verbatim>\<open>include/kernel/types.h\<close> and \<^verbatim>\<open>arch/types.h\<close>, the error codes of
  \<^verbatim>\<open>include/lib/errcode.h\<close>, \<^verbatim>\<open>kassert\<close>, C's truncating remainder, and the
  collections of simplification rules that the component theories extend.

  A function that can panic (a failing \<^verbatim>\<open>kassert\<close>, an explicit \<^verbatim>\<open>panic\<close> or an
  access outside an array) returns an option: \<open>None\<close> is the panic, after which the
  kernel executes nothing more. The state is passed explicitly.
\<close>

named_theorems invs \<open>unfolding rules of the component invariants\<close>
named_theorems frames \<open>what an operation leaves unchanged\<close>

type_synonym u8 = "8 word"
type_synonym u16 = "16 word"
type_synonym u32 = "32 word"
type_synonym u64 = "64 word"

type_synonym err_t = int
type_synonym addr = nat

abbreviation (input) ERR_OK :: err_t where "ERR_OK \<equiv> 0"
abbreviation (input) ERR_NOMEM :: err_t where "ERR_NOMEM \<equiv> -1"
abbreviation (input) ERR_NORES :: err_t where "ERR_NORES \<equiv> -2"
abbreviation (input) ERR_UNALLOC :: err_t where "ERR_UNALLOC \<equiv> -3"
abbreviation (input) ERR_EXIST :: err_t where "ERR_EXIST \<equiv> -4"
abbreviation (input) ERR_NOTEXIST :: err_t where "ERR_NOTEXIST \<equiv> -5"
abbreviation (input) ERR_INCOMP :: err_t where "ERR_INCOMP \<equiv> -6"
abbreviation (input) ERR_FTYPE :: err_t where "ERR_FTYPE \<equiv> -7"
abbreviation (input) ERR_REGISTER :: err_t where "ERR_REGISTER \<equiv> -8"
abbreviation (input) ERR_NOTEMPTY :: err_t where "ERR_NOTEMPTY \<equiv> -9"
abbreviation (input) ERR_END :: err_t where "ERR_END \<equiv> -10"
abbreviation (input) ERR_INIT :: err_t where "ERR_INIT \<equiv> -11"
abbreviation (input) ERR_FAULT :: err_t where "ERR_FAULT \<equiv> -12"
abbreviation (input) ERR_INVAL :: err_t where "ERR_INVAL \<equiv> -13"
abbreviation (input) ERR_CHILD :: err_t where "ERR_CHILD \<equiv> -14"
abbreviation (input) ERR_PGFAULT_ALLOC :: err_t where "ERR_PGFAULT_ALLOC \<equiv> -15"
abbreviation (input) ERR_LOCK_BUSY :: err_t where "ERR_LOCK_BUSY \<equiv> -16"

definition kassert :: "bool \<Rightarrow> unit option" where
  "kassert b = (if b then Some () else None)"

lemma kassert_bind [simp]: "(kassert b \<bind> f) = (if b then f () else None)"
  by (simp add: kassert_def)

lemma kassert_Some [simp]: "kassert b = Some u \<longleftrightarrow> b"
  by (simp add: kassert_def)

lemma bind_SomeE:
  assumes "(m \<bind> f) = Some y"
  obtains x where "m = Some x" and "f x = Some y"
  using assms by (cases m) auto

lemma sint_inj: "sint (a :: 'a :: len word) = sint b \<longleftrightarrow> a = b"
  by (metis uint_sint word_uint_eqI)

lemma sint_eq_unat:
  assumes "unat (w :: u32) < 2 ^ 31"
  shows "sint w = int (unat w)"
proof -
  from assms have "int (unat w) < int (2 ^ 31)" by (simp only: of_nat_less_iff)
  then have "uint w < 2 ^ 31" by simp
  moreover have "- (2 ^ 31) \<le> uint w" by (rule order.trans [OF _ uint_ge_0]) simp
  ultimately have "signed_take_bit 31 (uint w) = uint w" by (intro signed_take_bit_int_eq_self)
  then show ?thesis unfolding sint_uint by simp
qed

text \<open>C's \<^verbatim>\<open>%\<close> on signed operands rounds its quotient towards zero, so the remainder has the
  sign of the dividend.\<close>

lemma c_rem_nonneg: "0 \<le> a \<Longrightarrow> 0 < b \<Longrightarrow> a smod b = a mod (b::int)"
  by (simp add: signed_modulo_int_def signed_divide_int_def sgn_if minus_mult_div_eq_mod
      zdiv_zminus1_eq_if minus_div_mult_eq_mod)

end
