(* ===== verification/KList.thy ===== *)
theory KList
  imports OSV_Base
begin

section \<open>Intrusive circular lists (kernel/list.c)\<close>

text \<open>
  The kernel links its objects through embedded \<^verbatim>\<open>struct list_node\<close> pairs. A node is an
  address; \<open>links\<close> holds the \<^verbatim>\<open>prev\<close> and \<^verbatim>\<open>next\<close> fields of all nodes, and a list is the
  address of its header node, which is also what \<^verbatim>\<open>list_end\<close> returns. \<open>dlist h l xs\<close> says that the
  nodes from the header \<open>l\<close> onwards are \<open>xs\<close>, linked both ways and back to \<open>l\<close>. The lemmas show that
  each operation implements the operation on \<open>xs\<close> its comment in \<^verbatim>\<open>include/kernel/list.h\<close>
  promises and leaves every list with other nodes alone.
\<close>

record links =
  node_prev :: "addr \<Rightarrow> addr"
  node_next :: "addr \<Rightarrow> addr"

definition set_prev :: "addr \<Rightarrow> addr \<Rightarrow> links \<Rightarrow> links" where
  "set_prev n p h = h\<lparr>node_prev := (node_prev h)(n := p)\<rparr>"

definition set_next :: "addr \<Rightarrow> addr \<Rightarrow> links \<Rightarrow> links" where
  "set_next n p h = h\<lparr>node_next := (node_next h)(n := p)\<rparr>"

definition list_init :: "links \<Rightarrow> addr \<Rightarrow> links" where
  "list_init h l = set_next l l (set_prev l l h)"

definition list_empty :: "links \<Rightarrow> addr \<Rightarrow> bool" where
  "list_empty h l \<longleftrightarrow> node_prev h l = l \<and> node_next h l = l"

definition list_append :: "links \<Rightarrow> addr \<Rightarrow> addr \<Rightarrow> links" where
  "list_append h l n =
     (let h = (if list_empty h l then set_next l n h else set_next (node_prev h l) n h);
          h = set_prev n (node_prev h l) h;
          h = set_next n l h
      in set_prev l n h)"

definition list_begin :: "links \<Rightarrow> addr \<Rightarrow> addr" where
  "list_begin h l = node_next h l"

definition list_end :: "links \<Rightarrow> addr \<Rightarrow> addr" where
  "list_end h l = l"

definition list_next :: "links \<Rightarrow> addr \<Rightarrow> addr" where
  "list_next h n = node_next h n"

definition list_prev :: "links \<Rightarrow> addr \<Rightarrow> addr" where
  "list_prev h n = node_prev h n"

definition list_remove :: "links \<Rightarrow> addr \<Rightarrow> addr \<times> links" where
  "list_remove h n =
     (let h = set_next (node_prev h n) (node_next h n) h;
          h = set_prev (node_next h n) (node_prev h n) h
      in (node_next h n, h))"

text \<open>The traversals run until they are back at the header. On nodes that are not linked in a circle
  they may run forever, which is the result \<open>None\<close>.\<close>

partial_function (option) append_ordered_loop ::
  "(addr \<Rightarrow> addr \<Rightarrow> int) \<Rightarrow> links \<Rightarrow> addr \<Rightarrow> addr \<Rightarrow> addr \<Rightarrow> links option" where
  "append_ordered_loop compare h l node n =
     (if n = list_end h l then Some (list_append h l node)
      else if compare n node > 0 then
        (let h = set_prev node (node_prev h n) h;
             h = set_next node n h;
             h = set_next (node_prev h n) node h
         in Some (set_prev n node h))
      else append_ordered_loop compare h l node (list_next h n))"

definition list_append_ordered ::
  "links \<Rightarrow> addr \<Rightarrow> addr \<Rightarrow> (addr \<Rightarrow> addr \<Rightarrow> int) \<Rightarrow> links option" where
  "list_append_ordered h l node compare = append_ordered_loop compare h l node (list_begin h l)"

partial_function (option) foreach_loop ::
  "(addr \<Rightarrow> 'a \<Rightarrow> err_t \<times> 'a) \<Rightarrow> links \<Rightarrow> addr \<Rightarrow> addr \<Rightarrow> 'a \<Rightarrow> (err_t \<times> 'a) option" where
  "foreach_loop op h l n aux =
     (if n = list_end h l then Some (ERR_OK, aux)
      else (let (err, aux) = op n aux
            in if err \<noteq> ERR_OK then Some (err, aux)
               else foreach_loop op h l (list_next h n) aux))"

definition list_foreach_do ::
  "links \<Rightarrow> addr \<Rightarrow> (addr \<Rightarrow> 'a \<Rightarrow> err_t \<times> 'a) \<Rightarrow> 'a \<Rightarrow> (err_t \<times> 'a) option" where
  "list_foreach_do h l op aux = foreach_loop op h l (list_begin h l) aux"

subsection \<open>Representation\<close>

text \<open>\<open>chain h a xs b\<close>: following \<^verbatim>\<open>next\<close> from \<open>a\<close> visits \<open>xs\<close> and then \<open>b\<close>, and \<^verbatim>\<open>prev\<close> leads back.\<close>

fun chain :: "links \<Rightarrow> addr \<Rightarrow> addr list \<Rightarrow> addr \<Rightarrow> bool" where
  "chain h a [] b = (node_next h a = b \<and> node_prev h b = a)"
| "chain h a (x # xs) b = (node_next h a = x \<and> node_prev h x = a \<and> chain h x xs b)"

definition dlist :: "links \<Rightarrow> addr \<Rightarrow> addr list \<Rightarrow> bool" where
  "dlist h l xs \<longleftrightarrow> distinct (l # xs) \<and> chain h l xs l"

lemma links_sel [simp]:
  "node_prev (set_prev n p h) = (node_prev h)(n := p)"
  "node_next (set_prev n p h) = node_next h"
  "node_next (set_next n p h) = (node_next h)(n := p)"
  "node_prev (set_next n p h) = node_prev h"
  by (simp_all add: set_prev_def set_next_def)

lemma chain_append:
  "chain h a (xs @ y # ys) b \<longleftrightarrow> chain h a xs y \<and> chain h y ys b"
  by (induction xs arbitrary: a) auto

lemma chain_cong:
  assumes "\<And>n. n \<in> set (a # xs) \<Longrightarrow> node_next h' n = node_next h n"
    and "\<And>n. n \<in> set (xs @ [b]) \<Longrightarrow> node_prev h' n = node_prev h n"
  shows "chain h' a xs b = chain h a xs b"
  using assms by (induction xs arbitrary: a) auto

lemma chain_ends:
  assumes "chain h a xs b"
  shows "node_next h a = hd (xs @ [b])" and "node_prev h b = last (a # xs)"
  using assms by (induction xs arbitrary: a) auto

lemma dlist_frame:
  assumes "dlist h l xs"
    and "\<And>n. n \<in> set (l # xs) \<Longrightarrow> node_next h' n = node_next h n \<and> node_prev h' n = node_prev h n"
  shows "dlist h' l xs"
  using assms chain_cong[of l xs h' h l] by (auto simp: dlist_def)

lemma dlist_init: "dlist (list_init h l) l []"
  by (simp add: dlist_def list_init_def)

lemma dlist_empty: "dlist h l xs \<Longrightarrow> list_empty h l \<longleftrightarrow> xs = []"
  by (cases xs) (auto simp: dlist_def list_empty_def)

lemma dlist_begin: "dlist h l xs \<Longrightarrow> list_begin h l = hd (xs @ [l])"
  using chain_ends(1) by (auto simp: dlist_def list_begin_def)

text \<open>Splicing a node in between two neighbours, the step that the two insertions share.\<close>

lemma chain_splice:
  assumes "chain h a xs b" and "n \<notin> set (a # xs)" and "n \<noteq> b" and "a \<notin> set xs" and "b \<notin> set xs"
    and "distinct xs"
    and "\<And>m. m \<in> set (butlast (a # xs)) \<Longrightarrow> node_next h' m = node_next h m"
    and "\<And>m. m \<in> set xs \<Longrightarrow> node_prev h' m = node_prev h m"
    and "node_next h' (last (a # xs)) = n" and "node_prev h' n = last (a # xs)"
  shows "chain h' a xs n"
  using assms
proof (induction xs arbitrary: a)
  case Nil
  then show ?case by simp
next
  case (Cons x xs)
  then show ?case by auto
qed

lemma dlist_append:
  assumes "dlist h l xs" and "n \<notin> set (l # xs)"
  shows "dlist (list_append h l n) l (xs @ [n])"
proof -
  let ?h = "list_append h l n"
  have ch: "chain h l xs l" and d: "distinct (l # xs)" using assms(1) by (auto simp: dlist_def)
  have prv: "node_prev h l = last (l # xs)" using chain_ends(2)[OF ch] .
  have nx: "node_next ?h = (node_next h)(last (l # xs) := n, n := l)"
    using assms prv dlist_empty[OF assms(1)] by (auto simp: list_append_def Let_def)
  have pv: "node_prev ?h = (node_prev h)(n := last (l # xs), l := n)"
    using assms prv dlist_empty[OF assms(1)] by (auto simp: list_append_def Let_def)
  have lastin: "last (l # xs) \<in> set (l # xs)" by (rule last_in_set) simp
  have bl: "m \<in> set (butlast (l # xs)) \<Longrightarrow> m \<noteq> last (l # xs)" for m
    using d by (metis append_butlast_last_id distinct_butlast list.distinct(1) not_distinct_conv_prefix)
  have "chain ?h l xs n"
  proof (rule chain_splice[OF ch])
    show "n \<notin> set (l # xs)" "n \<noteq> l" "l \<notin> set xs" "l \<notin> set xs" "distinct xs"
      using assms(2) d by auto
    show "node_next ?h m = node_next h m" if "m \<in> set (butlast (l # xs))" for m
      using that bl[OF that] assms(2) in_set_butlastD[OF that] by (auto simp: nx)
    show "node_prev ?h m = node_prev h m" if "m \<in> set xs" for m
      using that assms(2) d by (auto simp: pv)
    show "node_next ?h (last (l # xs)) = n" using lastin assms(2) by (auto simp: nx)
    show "node_prev ?h n = last (l # xs)" using assms(2) by (simp add: pv)
  qed
  then show ?thesis
    using assms(2) d nx pv by (simp add: dlist_def chain_append)
qed

lemma list_append_frame [frames]:
  assumes "dlist h l xs" and "m \<notin> set (l # xs)" and "m \<noteq> n"
  shows "node_next (list_append h l n) m = node_next h m"
    and "node_prev (list_append h l n) m = node_prev h m"
proof -
  have "node_prev h l = last (l # xs)" using assms(1) chain_ends(2) by (auto simp: dlist_def)
  moreover have "last (l # xs) \<in> set (l # xs)" by (rule last_in_set) simp
  ultimately show "node_next (list_append h l n) m = node_next h m"
    and "node_prev (list_append h l n) m = node_prev h m"
    using assms(2,3) by (auto simp: list_append_def Let_def)
qed

lemma list_append_other:
  assumes "dlist h l xs" and "dlist h k ys" and "set (l # xs) \<inter> set (k # ys) = {}"
    and "n \<notin> set (k # ys)"
  shows "dlist (list_append h l n) k ys"
proof (rule dlist_frame[OF assms(2)])
  fix m assume "m \<in> set (k # ys)"
  then have "m \<notin> set (l # xs)" "m \<noteq> n" using assms(3,4) by auto
  then show "node_next (list_append h l n) m = node_next h m \<and>
      node_prev (list_append h l n) m = node_prev h m"
    using list_append_frame[OF assms(1)] by blast
qed

text \<open>Bridging over a node: its two neighbours end up linked with each other.\<close>

lemma chain_bridge:
  assumes "chain h a xs n" and "chain h n ys b" and "distinct (xs @ n # ys)"
    and "a \<notin> set (xs @ n # ys)" and "b \<notin> set (xs @ n # ys)"
    and "node_next h' = (node_next h)(last (a # xs) := hd (ys @ [b]))"
    and "node_prev h' = (node_prev h)(hd (ys @ [b]) := last (a # xs))"
  shows "chain h' a (xs @ ys) b"
  using assms
proof (induction xs arbitrary: a)
  case Nil
  show ?case
  proof (cases ys)
    case Nil
    with Nil.prems show ?thesis by simp
  next
    case (Cons y zs)
    with Nil.prems have "chain h' y zs b = chain h y zs b"
      by (intro chain_cong) auto
    with Nil.prems Cons show ?thesis by simp
  qed
next
  case (Cons x xs)
  have step: "chain h' x (xs @ ys) b"
  proof (rule Cons.IH)
    show "chain h x xs n" "chain h n ys b" "distinct (xs @ n # ys)" "x \<notin> set (xs @ n # ys)"
      "b \<notin> set (xs @ n # ys)" using Cons.prems by auto
    show "node_next h' = (node_next h)(last (x # xs) := hd (ys @ [b]))"
      "node_prev h' = (node_prev h)(hd (ys @ [b]) := last (x # xs))"
      using Cons.prems(6,7) by (simp_all only: last_ConsR list.distinct not_False_eq_True)
  qed
  have "last (x # xs) \<in> set (x # xs)" by (rule last_in_set) simp
  then have "a \<noteq> last (x # xs)" using Cons.prems(4) by auto
  moreover have "hd (ys @ [b]) \<in> set (ys @ [b])" by (rule hd_in_set) simp
  then have "x \<noteq> hd (ys @ [b])" using Cons.prems(3,5) by auto
  ultimately show ?case using Cons.prems step by simp
qed

lemma dlist_remove:
  assumes "dlist h l (xs @ n # ys)"
  shows "dlist (snd (list_remove h n)) l (xs @ ys)"
    and "fst (list_remove h n) = hd (ys @ [l])"
proof -
  have c1: "chain h l xs n" and c2: "chain h n ys l" and d: "distinct (l # xs @ n # ys)"
    using assms by (auto simp: dlist_def chain_append)
  have p: "node_prev h n = last (l # xs)" using chain_ends(2)[OF c1] .
  have q: "node_next h n = hd (ys @ [l])" using chain_ends(1)[OF c2] .
  have "last (l # xs) \<in> set (l # xs)" by (rule last_in_set) simp
  then have ne: "last (l # xs) \<noteq> n" using d by auto
  have nx: "node_next (snd (list_remove h n)) = (node_next h)(last (l # xs) := hd (ys @ [l]))"
    using ne by (simp add: list_remove_def Let_def p q del: last.simps)
  have pv: "node_prev (snd (list_remove h n)) = (node_prev h)(hd (ys @ [l]) := last (l # xs))"
    using ne by (simp add: list_remove_def Let_def p q del: last.simps)
  have "chain (snd (list_remove h n)) l (xs @ ys) l"
    by (rule chain_bridge[OF c1 c2 _ _ _ nx pv]) (use d in auto)
  then show "dlist (snd (list_remove h n)) l (xs @ ys)" using d by (simp add: dlist_def)
  show "fst (list_remove h n) = hd (ys @ [l])"
    using ne by (simp add: list_remove_def Let_def p q del: last.simps)
qed

lemma dlist_pop: "dlist h l (n # ys) \<Longrightarrow> dlist (snd (list_remove h n)) l ys"
  using dlist_remove(1)[of h l "[]" n ys] by simp

lemma list_remove_other:
  assumes "dlist h l (xs @ n # ys)" and "dlist h k zs"
    and "set (l # xs @ n # ys) \<inter> set (k # zs) = {}"
  shows "dlist (snd (list_remove h n)) k zs"
proof (rule dlist_frame[OF assms(2)])
  fix m assume m: "m \<in> set (k # zs)"
  have "chain h l xs n" "chain h n ys l" using assms(1) by (auto simp: dlist_def chain_append)
  then have "node_prev h n = last (l # xs)" "node_next h n = hd (ys @ [l])"
    using chain_ends by blast+
  moreover have "last (l # xs) \<in> set (l # xs)" by (rule last_in_set) simp
  moreover have "hd (ys @ [l]) \<in> set (ys @ [l])" by (rule hd_in_set) simp
  ultimately have "node_prev h n \<in> set (l # xs)" "node_next h n \<in> set (ys @ [l])"
    by (simp_all only:)
  then have "m \<noteq> node_prev h n" "m \<noteq> node_next h n" "n \<noteq> m"
    using m assms(3) by auto
  then show "node_next (snd (list_remove h n)) m = node_next h m \<and>
      node_prev (snd (list_remove h n)) m = node_prev h m"
    by (auto simp: list_remove_def Let_def)
qed

subsection \<open>Ordered insertion and traversal\<close>

text \<open>Where \<^verbatim>\<open>list_append_ordered\<close> puts a node: in front of the first node that compares greater.\<close>

fun insert_before :: "(addr \<Rightarrow> addr \<Rightarrow> int) \<Rightarrow> addr \<Rightarrow> addr list \<Rightarrow> addr list" where
  "insert_before cmp node [] = [node]"
| "insert_before cmp node (x # xs) =
     (if cmp x node > 0 then node # x # xs else x # insert_before cmp node xs)"

lemma chain_insert:
  assumes "chain h a xs b" and "chain h b ys c" and "distinct (xs @ b # ys)"
    and "a \<notin> set (xs @ b # ys)" and "n \<notin> set (a # c # xs @ b # ys)" and "c \<notin> set (xs @ b # ys)"
    and "node_next h' = (node_next h)(n := b, last (a # xs) := n)"
    and "node_prev h' = (node_prev h)(n := last (a # xs), b := n)"
  shows "chain h' a (xs @ n # b # ys) c"
  using assms
proof (induction xs arbitrary: a)
  case Nil
  then have "chain h' b ys c = chain h b ys c"
    by (intro chain_cong) auto
  with Nil show ?case by simp
next
  case (Cons x xs)
  have step: "chain h' x (xs @ n # b # ys) c"
  proof (rule Cons.IH)
    show "chain h x xs b" "chain h b ys c" "distinct (xs @ b # ys)" "x \<notin> set (xs @ b # ys)"
      "n \<notin> set (x # c # xs @ b # ys)" "c \<notin> set (xs @ b # ys)" using Cons.prems by auto
    show "node_next h' = (node_next h)(n := b, last (x # xs) := n)"
      "node_prev h' = (node_prev h)(n := last (x # xs), b := n)"
      using Cons.prems(7,8) by (simp_all only: last_ConsR list.distinct not_False_eq_True)
  qed
  have "last (x # xs) \<in> set (x # xs)" by (rule last_in_set) simp
  then have "a \<noteq> last (x # xs)" using Cons.prems(4) by auto
  moreover have "x \<noteq> b" "x \<noteq> n" "a \<noteq> n" using Cons.prems(3,5) by auto
  ultimately show ?case using Cons.prems(1,7,8) step by simp
qed

lemma append_ordered_loop_correct:
  assumes "dlist h l (xs @ ys)" and "node \<notin> set (l # xs @ ys)" and "\<forall>x \<in> set xs. \<not> cmp x node > 0"
  shows "\<exists>h'. append_ordered_loop cmp h l node (hd (ys @ [l])) = Some h' \<and>
    dlist h' l (xs @ insert_before cmp node ys)"
  using assms
proof (induction ys arbitrary: xs)
  case Nil
  then show ?case
    using dlist_append[of h l xs node] by (simp add: append_ordered_loop.simps list_end_def)
next
  case (Cons y ys)
  have yl: "y \<noteq> l" using Cons.prems(1) by (auto simp: dlist_def)
  show ?case
  proof (cases "cmp y node > 0")
    case True
    define h' where "h' = set_prev y node (set_next (node_prev h y) node (set_next node y
      (set_prev node (node_prev h y) h)))"
    have ch: "chain h l xs y" "chain h y ys l" "distinct (l # xs @ y # ys)"
      using Cons.prems(1) by (auto simp: dlist_def chain_append)
    have ny: "node \<noteq> y" using Cons.prems(2) by auto
    have p: "node_prev h y = last (l # xs)" by (rule chain_ends(2)[OF ch(1)])
    have "chain h' l (xs @ node # y # ys) l"
    proof (rule chain_insert[OF ch(1,2)])
      show "node_next h' = (node_next h)(node := y, last (l # xs) := node)"
        and "node_prev h' = (node_prev h)(node := last (l # xs), y := node)"
        by (simp_all add: h'_def p del: last.simps)
    qed (use ch(3) Cons.prems(2) in auto)
    then have "dlist h' l (xs @ node # y # ys)"
      using ch(3) Cons.prems(2) by (auto simp: dlist_def)
    moreover have "append_ordered_loop cmp h l node y = Some h'"
      using True yl ny by (simp add: append_ordered_loop.simps list_end_def h'_def Let_def)
    ultimately show ?thesis using True by simp
  next
    case False
    have "list_next h y = hd (ys @ [l])"
      using Cons.prems(1) chain_ends(1)[of h y ys l] by (auto simp: dlist_def chain_append list_next_def)
    then have "append_ordered_loop cmp h l node y = append_ordered_loop cmp h l node (hd (ys @ [l]))"
      using False yl by (subst append_ordered_loop.simps) (simp add: list_end_def)
    moreover have "\<exists>h'. append_ordered_loop cmp h l node (hd (ys @ [l])) = Some h' \<and>
        dlist h' l ((xs @ [y]) @ insert_before cmp node ys)"
      using Cons.prems False by (intro Cons.IH) auto
    ultimately show ?thesis using False by simp
  qed
qed

lemma set_insert_before: "set (insert_before cmp n xs) = insert n (set xs)"
  by (induction xs) auto

text \<open>The effect of visiting the nodes of a list in order, stopping at the first error.\<close>

fun visit :: "(addr \<Rightarrow> 'a \<Rightarrow> err_t \<times> 'a) \<Rightarrow> addr list \<Rightarrow> 'a \<Rightarrow> err_t \<times> 'a" where
  "visit op [] aux = (ERR_OK, aux)"
| "visit op (x # xs) aux =
     (let (err, aux) = op x aux in if err \<noteq> ERR_OK then (err, aux) else visit op xs aux)"

lemma foreach_loop_correct:
  "chain h n ys l \<Longrightarrow> distinct ys \<Longrightarrow> l \<notin> set ys \<Longrightarrow>
   foreach_loop op h l (hd (ys @ [l])) aux = Some (visit op ys aux)"
proof (induction ys arbitrary: n aux)
  case Nil
  then show ?case by (simp add: foreach_loop.simps list_end_def)
next
  case (Cons y ys)
  then have "list_next h y = hd (ys @ [l])"
    using chain_ends(1)[of h y ys l] by (auto simp: list_next_def)
  moreover have "foreach_loop op h l (hd (ys @ [l])) a = Some (visit op ys a)" for a
    using Cons.prems Cons.IH by auto
  ultimately show ?case
    using Cons.prems by (subst foreach_loop.simps) (auto simp: list_end_def split: prod.split)
qed

subsection \<open>The interface that the other components use\<close>

text \<open>What the kernel's queues (ready queue, waiters of a condition variable, request queue, cleanup
  list, free lists) rely on: appending adds at the end, removing the first node takes it off the front.\<close>

locale kqueue =
  fixes rep :: "'h \<Rightarrow> addr \<Rightarrow> addr list \<Rightarrow> bool"
    and init :: "'h \<Rightarrow> addr \<Rightarrow> 'h"
    and enqueue :: "'h \<Rightarrow> addr \<Rightarrow> addr \<Rightarrow> 'h"
    and front :: "'h \<Rightarrow> addr \<Rightarrow> addr"
    and unlink :: "'h \<Rightarrow> addr \<Rightarrow> 'h"
    and is_empty :: "'h \<Rightarrow> addr \<Rightarrow> bool"
  assumes rep_init: "rep (init h l) l []"
    and rep_enqueue: "rep h l xs \<Longrightarrow> n \<notin> set (l # xs) \<Longrightarrow> rep (enqueue h l n) l (xs @ [n])"
    and rep_front: "rep h l (n # xs) \<Longrightarrow> front h l = n"
    and rep_unlink: "rep h l (xs @ n # ys) \<Longrightarrow> rep (unlink h n) l (xs @ ys)"
    and rep_empty: "rep h l xs \<Longrightarrow> is_empty h l \<longleftrightarrow> xs = []"
    and rep_distinct: "rep h l xs \<Longrightarrow> distinct (l # xs)"
begin

fun enqueue_all :: "'h \<Rightarrow> addr \<Rightarrow> addr list \<Rightarrow> 'h" where
  "enqueue_all h l [] = h"
| "enqueue_all h l (n # ns) = enqueue_all (enqueue h l n) l ns"

fun drain :: "'h \<Rightarrow> addr \<Rightarrow> nat \<Rightarrow> addr list \<times> 'h" where
  "drain h l 0 = ([], h)"
| "drain h l (Suc k) =
     (if is_empty h l then ([], h)
      else let n = front h l; (ns, h') = drain (unlink h n) l k in (n # ns, h'))"

lemma enqueue_all_rep:
  "rep h l xs \<Longrightarrow> distinct (l # xs @ ns) \<Longrightarrow> rep (enqueue_all h l ns) l (xs @ ns)"
proof (induction ns arbitrary: h xs)
  case Nil
  then show ?case by simp
next
  case (Cons n ns)
  then have "rep (enqueue h l n) l (xs @ [n])" by (intro rep_enqueue) auto
  then have "rep (enqueue_all (enqueue h l n) l ns) l ((xs @ [n]) @ ns)"
    using Cons.prems by (intro Cons.IH) auto
  then show ?case by simp
qed

lemma drain_rep: "rep h l (xs @ ys) \<Longrightarrow> fst (drain h l (length xs)) = xs \<and> rep (snd (drain h l (length xs))) l ys"
proof (induction xs arbitrary: h)
  case Nil
  then show ?case by simp
next
  case (Cons x xs)
  have "rep (unlink h x) l (xs @ ys)" using Cons.prems rep_unlink[of h l "[]"] by simp
  then show ?case
    using Cons.IH[of "unlink h x"] Cons.prems rep_empty[OF Cons.prems] rep_front[of h l x]
    by (auto simp: Let_def split: prod.split)
qed

lemma fifo: "rep h l [] \<Longrightarrow> distinct (l # ns) \<Longrightarrow> fst (drain (enqueue_all h l ns) l (length ns)) = ns"
  using enqueue_all_rep[of h l "[]" ns] drain_rep[of _ l ns "[]"] by simp

end

interpretation klist: kqueue dlist list_init list_append list_begin "\<lambda>h n. snd (list_remove h n)" list_empty
  by unfold_locales
    (auto simp: dlist_init dlist_append dlist_begin dlist_remove dlist_empty, auto simp: dlist_def)

subsection \<open>Properties\<close>

text \<open>C29: Nodes appended to a freshly initialised list come off its front in the order they went
  in, and the list is then empty again.\<close>

theorem list_fifo:
  assumes "distinct (l # ns)"
  shows "fst (klist.drain (klist.enqueue_all (list_init h l) l ns) l (length ns)) = ns \<and>
    list_empty (snd (klist.drain (klist.enqueue_all (list_init h l) l ns) l (length ns))) l"
proof -
  have "dlist (klist.enqueue_all (list_init h l) l ns) l (ns @ [])"
    using klist.enqueue_all_rep [OF dlist_init [of h l], of ns] assms by simp
  from klist.drain_rep [OF this] show ?thesis by (auto dest: dlist_empty)
qed

theorem list_fifo_witness:
  "fst (klist.drain (klist.enqueue_all (list_init \<lparr>node_prev = (\<lambda>_. 0), node_next = (\<lambda>_. 0)\<rparr> 1) 1 [5, 3, 9]) 1
     (length [5, 3, 9::addr])) = [5, 3, 9]"
proof -
  have "distinct (1 # [5, 3, 9::addr])" by simp
  from list_fifo [OF this] show ?thesis by blast
qed

text \<open>C30: Removing a node from the middle of a list unlinks that node only: the list keeps its other
  nodes in order, the result is the node that followed, and every list that shares no node with it
  is untouched.\<close>

theorem list_remove_correct:
  assumes "dlist h l (xs @ n # ys)" "dlist h k zs" "set (l # xs @ n # ys) \<inter> set (k # zs) = {}"
  shows "dlist (snd (list_remove h n)) l (xs @ ys) \<and> fst (list_remove h n) = hd (ys @ [l]) \<and>
    dlist (snd (list_remove h n)) k zs"
  using dlist_remove [OF assms(1)] list_remove_other [OF assms] by simp

theorem list_remove_correct_witness:
  "\<exists>h. dlist h 1 [2, 3, 4] \<and> dlist (snd (list_remove h 3)) 1 [2, 4] \<and> fst (list_remove h 3) = 4 \<and>
     dlist (snd (list_remove h 3)) 9 []"
proof -
  let ?h = "\<lparr>node_prev = (\<lambda>n. if n = 9 then 9 else if n = 1 then 4 else n - 1),
             node_next = (\<lambda>n. if n = 9 then 9 else if n = 4 then 1 else Suc n)\<rparr>"
  have "dlist ?h 1 ([2] @ 3 # [4])" "dlist ?h 9 []" by (simp_all add: dlist_def)
  with list_remove_correct [of ?h 1 "[2]" 3 "[4]" 9 "[]"] show ?thesis by (intro exI [of _ ?h]) simp
qed

lemma sorted_insert_before:
  assumes "sorted (map key xs)" "\<And>a b. cmp a b > 0 \<longleftrightarrow> key a > (key b :: 'k :: linorder)"
  shows "sorted (map key (insert_before cmp n xs))"
  using assms by (induction xs) (auto simp: set_insert_before not_less less_imp_le dest: order.trans)

text \<open>C31: Ordered insertion terminates and keeps a list that is ordered by a key ordered: for a
  comparison that is positive exactly when the first key is greater, the new node is linked into a list
  that is sorted by that key and has exactly one more node.\<close>

theorem list_append_ordered_sorted:
  assumes "dlist h l xs" "n \<notin> set (l # xs)" "sorted (map key xs)"
    and "\<And>a b. cmp a b > 0 \<longleftrightarrow> key a > (key b :: int)"
  shows "\<exists>h' ys. list_append_ordered h l n cmp = Some h' \<and> dlist h' l ys \<and> sorted (map key ys) \<and>
    set ys = insert n (set xs) \<and> length ys = Suc (length xs)"
proof -
  have "length (insert_before cmp n xs) = Suc (length xs)" by (induction xs) auto
  moreover obtain h' where "list_append_ordered h l n cmp = Some h'" "dlist h' l (insert_before cmp n xs)"
    using append_ordered_loop_correct [of h l "[]" xs n cmp] assms(1,2) dlist_begin [OF assms(1)]
    by (auto simp: list_append_ordered_def)
  ultimately show ?thesis
    using sorted_insert_before [OF assms(3,4)] set_insert_before by blast
qed

theorem list_append_ordered_sorted_witness:
  "\<exists>h' ys. list_append_ordered \<lparr>node_prev = (\<lambda>n. if n = 1 then 4 else 1), node_next = (\<lambda>n. if n = 1 then 4 else 1)\<rparr>
     1 3 (\<lambda>a b. int a - int b) = Some h' \<and> dlist h' 1 ys \<and> sorted (map int ys) \<and> set ys = {3, 4}"
proof -
  have "dlist \<lparr>node_prev = (\<lambda>n. if n = 1 then 4 else 1), node_next = (\<lambda>n. if n = 1 then 4 else 1)\<rparr> 1 [4]"
    by (simp add: dlist_def)
  from list_append_ordered_sorted [OF this, of 3 int "\<lambda>a b. int a - int b"] show ?thesis by fastforce
qed

end
