(* ===== verification/LibString.thy ===== *)
theory LibString
  imports OSV_Base
begin

unbundle bit_operations_syntax

section \<open>Memory, strings and state bits (lib/string.c, lib/bits.c)\<close>

text \<open>
  The byte and string routines that kernel and user programs share, on a byte memory
  \<open>mem\<close>. Addresses are natural numbers; a routine that returns its destination pointer
  returns the new memory here. Loops that count down are recursive functions; loops that
  look for a terminator are partial functions, with \<open>None\<close> for a string that never ends.
\<close>

type_synonym mem = "addr \<Rightarrow> u8"

subsection \<open>State bits (lib/bits.c)\<close>

definition get_state_bit :: "u32 \<Rightarrow> nat \<Rightarrow> bool" where
  "get_state_bit state b = (if state AND push_bit b 1 = 0 then False else True)"

definition set_state_bit :: "u32 \<Rightarrow> nat \<Rightarrow> bool \<Rightarrow> u32" where
  "set_state_bit state b value =
     (if value then state OR push_bit b 1 else state AND NOT (push_bit b 1))"

subsection \<open>Memory blocks\<close>

function memset_loop :: "mem \<Rightarrow> addr \<Rightarrow> addr \<Rightarrow> u8 \<Rightarrow> mem" where
  "memset_loop m p e c = (if p < e then memset_loop (m(p := c)) (Suc p) e c else m)"
  by pat_completeness auto
termination
  by (relation "measure (\<lambda>(m, p, e, c). e - p)") auto

declare memset_loop.simps [simp del]

definition memset :: "mem \<Rightarrow> addr \<Rightarrow> int \<Rightarrow> nat \<Rightarrow> mem" where
  "memset m s c n = memset_loop m s (s + n) (word_of_int c)"

fun memcpy :: "mem \<Rightarrow> addr \<Rightarrow> addr \<Rightarrow> nat \<Rightarrow> mem" where
  "memcpy m d s 0 = m"
| "memcpy m d s (Suc n) = memcpy (m(d := m s)) (Suc d) (Suc s) n"

fun copy_back :: "mem \<Rightarrow> addr \<Rightarrow> addr \<Rightarrow> nat \<Rightarrow> mem" where
  "copy_back m d s 0 = m"
| "copy_back m d s (Suc n) = copy_back (m(d - 1 := m (s - 1))) (d - 1) (s - 1) n"

fun copy_fwd :: "mem \<Rightarrow> addr \<Rightarrow> addr \<Rightarrow> nat \<Rightarrow> mem" where
  "copy_fwd m d s 0 = m"
| "copy_fwd m d s (Suc n) = copy_fwd (m(d := m s)) (Suc d) (Suc s) n"

definition memmove :: "mem \<Rightarrow> addr \<Rightarrow> addr \<Rightarrow> nat \<Rightarrow> mem" where
  "memmove m dest src n =
     (if src < dest \<and> src + n > dest then copy_back m (dest + n) (src + n) n
      else copy_fwd m dest src n)"

fun memcmp :: "mem \<Rightarrow> addr \<Rightarrow> addr \<Rightarrow> nat \<Rightarrow> int" where
  "memcmp m p1 p2 0 = 0"
| "memcmp m p1 p2 (Suc n) =
     (if m p1 \<noteq> m p2 then uint (m p1) - uint (m p2) else memcmp m (Suc p1) (Suc p2) n)"

subsection \<open>Strings\<close>

text \<open>\<^verbatim>\<open>char\<close> is signed on this machine, so the comparison routines subtract signed bytes.\<close>

partial_function (option) strlen_loop :: "mem \<Rightarrow> addr \<Rightarrow> nat \<Rightarrow> nat option" where
  "strlen_loop m s len = (if m s \<noteq> 0 then strlen_loop m (Suc s) (Suc len) else Some len)"

definition strlen :: "mem \<Rightarrow> addr \<Rightarrow> nat option" where
  "strlen m s = strlen_loop m s 0"

partial_function (option) strcpy :: "mem \<Rightarrow> addr \<Rightarrow> addr \<Rightarrow> mem option" where
  "strcpy m d src =
     (let c = m src; m' = m(d := c)
      in if c \<noteq> 0 then strcpy m' (Suc d) (Suc src) else Some m')"

fun strncpy_copy :: "mem \<Rightarrow> addr \<Rightarrow> addr \<Rightarrow> nat \<Rightarrow> mem \<times> addr \<times> nat" where
  "strncpy_copy m d src 0 = (m, d, 0)"
| "strncpy_copy m d src (Suc n) =
     (let c = m src; m' = m(d := c)
      in if c \<noteq> 0 then strncpy_copy m' (Suc d) (Suc src) n else (m', Suc d, Suc n))"

fun strncpy_pad :: "mem \<Rightarrow> addr \<Rightarrow> nat \<Rightarrow> mem" where
  "strncpy_pad m d 0 = m"
| "strncpy_pad m d (Suc n) = strncpy_pad (m(d := 0)) (Suc d) n"

definition strncpy :: "mem \<Rightarrow> addr \<Rightarrow> addr \<Rightarrow> nat \<Rightarrow> mem" where
  "strncpy m dest src n = (let (m', d, n') = strncpy_copy m dest src n in strncpy_pad m' d n')"

partial_function (option) strcmp :: "mem \<Rightarrow> addr \<Rightarrow> addr \<Rightarrow> int option" where
  "strcmp m s1 s2 =
     (if m s1 \<noteq> 0 \<and> m s1 = m s2 then strcmp m (Suc s1) (Suc s2)
      else Some (sint (m s1) - sint (m s2)))"

fun strncmp :: "mem \<Rightarrow> addr \<Rightarrow> addr \<Rightarrow> nat \<Rightarrow> int" where
  "strncmp m s1 s2 0 = 0"
| "strncmp m s1 s2 (Suc n) =
     (if m s1 \<noteq> 0 \<and> m s1 = m s2 then strncmp m (Suc s1) (Suc s2) n
      else sint (m s1) - sint (m s2))"

text \<open>The inner option of \<^verbatim>\<open>strchr\<close> is its \<^verbatim>\<open>NULL\<close>.\<close>

partial_function (option) strchr_loop :: "mem \<Rightarrow> addr \<Rightarrow> u8 \<Rightarrow> addr option option" where
  "strchr_loop m s c =
     (if m s = c then Some (Some s)
      else if m s = 0 then Some None
      else strchr_loop m (Suc s) c)"

definition strchr :: "mem \<Rightarrow> addr option \<Rightarrow> int \<Rightarrow> addr option option" where
  "strchr m s c = (case s of None \<Rightarrow> Some None | Some s \<Rightarrow> strchr_loop m s (word_of_int c))"

text \<open>\<^verbatim>\<open>strtok_r\<close>: skip delimiters, then skip the token. The results are the token (or
  \<^verbatim>\<open>NULL\<close>), the new save pointer and the memory.\<close>

partial_function (option) skip_delims :: "mem \<Rightarrow> addr \<Rightarrow> addr \<Rightarrow> (bool \<times> addr) option" where
  "skip_delims m delims s =
     do { r \<leftarrow> strchr m (Some delims) (sint (m s));
          if r \<noteq> None then (if m s = 0 then Some (False, s) else skip_delims m delims (Suc s))
          else Some (True, s) }"

partial_function (option) skip_token :: "mem \<Rightarrow> addr \<Rightarrow> addr \<Rightarrow> addr option" where
  "skip_token m delims s =
     do { r \<leftarrow> strchr m (Some delims) (sint (m s));
          if r = None then skip_token m delims (Suc s) else Some s }"

definition strtok_r ::
  "mem \<Rightarrow> addr option \<Rightarrow> addr option \<Rightarrow> addr option \<Rightarrow> (addr option \<times> addr option \<times> mem) option" where
  "strtok_r m s delimiters save_ptr =
     (case (delimiters, save_ptr) of
        (Some delims, Some saved) \<Rightarrow>
          do { let s = (case s of None \<Rightarrow> saved | Some s \<Rightarrow> s);
               (found, token) \<leftarrow> skip_delims m delims s;
               if \<not> found then Some (None, Some token, m)
               else do { e \<leftarrow> skip_token m delims token;
                         if m e \<noteq> 0 then Some (Some token, Some (Suc e), m(e := 0))
                         else Some (Some token, Some e, m) } }
      | _ \<Rightarrow> Some (None, save_ptr, m))"

subsection \<open>Facts\<close>

lemma get_set_state_bit:
  assumes "b < 32" and "b' < 32"
  shows "get_state_bit (set_state_bit st b v) b' = (if b' = b then v else get_state_bit st b')"
proof -
  have *: "(w AND push_bit k 1 = 0) = (\<not> bit w k)" if "k < 32" for w :: u32 and k
    by (simp add: push_bit_of_1 and_exp_eq_0_iff_not_bit)
  show ?thesis
    using assms unfolding get_state_bit_def set_state_bit_def by (auto simp: * bit_simps simp del: push_bit_of_1)
qed

lemma memset_loop_eq: "memset_loop m p e c = (\<lambda>a. if p \<le> a \<and> a < e then c else m a)"
proof (induction m p e c rule: memset_loop.induct)
  case (1 m p e c)
  show ?case
  proof (cases "p < e")
    case True
    then show ?thesis by (subst memset_loop.simps, subst 1) (auto intro!: ext)
  next
    case False
    then show ?thesis by (subst memset_loop.simps) (auto intro!: ext)
  qed
qed

lemma memset_eq: "memset m s c n = (\<lambda>a. if s \<le> a \<and> a < s + n then word_of_int c else m a)"
  by (simp add: memset_def memset_loop_eq)

lemma copy_fwd_eq:
  "\<not> (s < d \<and> d < s + n) \<Longrightarrow>
   copy_fwd m d s n = (\<lambda>a. if d \<le> a \<and> a < d + n then m (s + (a - d)) else m a)"
proof (induction n arbitrary: m d s)
  case 0
  then show ?case by (intro ext) (auto simp del: add.commute)
next
  case (Suc n)
  then have *: "copy_fwd (m(d := m s)) (Suc d) (Suc s) n =
      (\<lambda>a. if Suc d \<le> a \<and> a < Suc d + n then (m(d := m s)) (Suc s + (a - Suc d)) else (m(d := m s)) a)"
    by (intro Suc.IH) auto
  have "Suc d \<le> a \<Longrightarrow> Suc s + (a - Suc d) = s + (a - d)" for a by auto
  then show ?case using Suc.prems unfolding copy_fwd.simps * by (auto intro!: ext)
qed

lemma copy_back_eq:
  "s < d \<Longrightarrow> copy_back m (d + n) (s + n) n = (\<lambda>a. if d \<le> a \<and> a < d + n then m (s + (a - d)) else m a)"
proof (induction n arbitrary: m)
  case 0
  then show ?case by (intro ext) (auto simp del: add.commute)
next
  case (Suc n)
  then show ?case by (auto simp: fun_eq_iff Suc.IH)
qed

lemma memcpy_copy_fwd: "memcpy m d s n = copy_fwd m d s n"
  by (induction n arbitrary: m d s) auto

lemma memcmp_eq_0: "memcmp m p q n = 0 \<longleftrightarrow> (\<forall>i < n. m (p + i) = m (q + i))"
proof (induction n arbitrary: p q)
  case 0
  then show ?case by simp
next
  case (Suc n)
  have "uint (m p) - uint (m q) = 0 \<longleftrightarrow> m p = m q" by (simp add: word_uint_eq_iff)
  then show ?case using Suc.IH[of "Suc p" "Suc q"] by (auto simp: less_Suc_eq_0_disj)
qed

text \<open>\<open>cstr m s w\<close>: the bytes \<open>w\<close> followed by a null byte are stored at \<open>s\<close>.\<close>

fun cstr :: "mem \<Rightarrow> addr \<Rightarrow> u8 list \<Rightarrow> bool" where
  "cstr m s [] = (m s = 0)"
| "cstr m s (c # w) = (c \<noteq> 0 \<and> m s = c \<and> cstr m (Suc s) w)"

lemma cstr_nth: "cstr m s w \<Longrightarrow> i < length w \<Longrightarrow> m (s + i) = w ! i \<and> w ! i \<noteq> 0"
proof (induction w arbitrary: s i)
  case Nil
  then show ?case by simp
next
  case (Cons c w)
  then show ?case using Cons.IH[of "Suc s" "i - 1"] by (cases i) auto
qed

lemma cstr_end: "cstr m s w \<Longrightarrow> m (s + length w) = 0"
  by (induction w arbitrary: s) fastforce+

lemma cstr_cong: "(\<And>a. s \<le> a \<Longrightarrow> a \<le> s + length w \<Longrightarrow> m' a = m a) \<Longrightarrow> cstr m' s w = cstr m s w"
  by (induction w arbitrary: s) auto

lemma strlen_loop_cstr: "cstr m s w \<Longrightarrow> strlen_loop m s k = Some (k + length w)"
  by (induction w arbitrary: s k) (auto simp: strlen_loop.simps)

lemma strncpy_pad_eq: "strncpy_pad m d n = (\<lambda>a. if d \<le> a \<and> a < d + n then 0 else m a)"
  by (induction n arbitrary: m d) (auto simp: fun_eq_iff)

text \<open>The copying loop stops one short in its count when it copies the terminator.\<close>

lemma strncpy_copy_short:
  assumes "cstr m src w" and "length w < n" and "d + n < src \<or> src + length w < d"
  shows "strncpy_copy m d src n =
    ((\<lambda>a. if d \<le> a \<and> a \<le> d + length w then m (src + (a - d)) else m a), d + Suc (length w), n - length w)"
  using assms
proof (induction w arbitrary: m d src n)
  case Nil
  then show ?case by (cases n) (auto simp: fun_eq_iff)
next
  case (Cons c w)
  then obtain k where n: "n = Suc k" by (cases n) auto
  have c: "cstr (m(d := m src)) (Suc src) w"
    using Cons.prems by (subst cstr_cong[where m = m]) auto
  have *: "strncpy_copy (m(d := m src)) (Suc d) (Suc src) k =
     ((\<lambda>a. if Suc d \<le> a \<and> a \<le> Suc d + length w then (m(d := m src)) (Suc src + (a - Suc d)) else (m(d := m src)) a),
      Suc d + Suc (length w), k - length w)"
    by (rule Cons.IH[OF c]) (use Cons.prems n in auto)
  have "(if Suc d \<le> a \<and> a \<le> Suc d + length w then (m(d := m src)) (Suc src + (a - Suc d))
      else (m(d := m src)) a) = (if d \<le> a \<and> a \<le> d + length (c # w) then m (src + (a - d)) else m a)" for a
  proof (cases "Suc d \<le> a")
    case True
    then obtain j where a: "a = Suc d + j" using le_Suc_ex by blast
    have "j \<le> length w \<Longrightarrow> Suc src + j \<noteq> d" using Cons.prems(2,3) n by auto
    then show ?thesis unfolding a by simp
  qed auto
  then show ?case using Cons.prems unfolding n strncpy_copy.simps Let_def * by simp
qed

lemma strncmp_eq_0:
  "cstr m s v \<Longrightarrow> cstr m t w \<Longrightarrow> strncmp m s t n = 0 \<longleftrightarrow> take n v = take n w"
proof (induction n arbitrary: s t v w)
  case 0
  then show ?case by simp
next
  case (Suc n)
  have inj: "sint a = sint b \<longleftrightarrow> a = b" for a b :: u8
    by (rule sint_inj)
  show ?case
  proof (cases "v = [] \<or> w = []")
    case True
    then show ?thesis using Suc.prems inj[of 0] inj[of _ 0] by (cases v; cases w) auto
  next
    case False
    then obtain a v' b w' where "v = a # v'" "w = b # w'" by (meson neq_Nil_conv)
    then show ?thesis using Suc.prems Suc.IH[of "Suc s" v' "Suc t" w']
      by (auto simp: inj)
  qed
qed

subsection \<open>Properties\<close>

text \<open>C32: \<^verbatim>\<open>memmove\<close> copies its \<open>n\<close> bytes as they were before the call, whatever the overlap of source and
  destination, and changes nothing else.\<close>

theorem memmove_correct:
  "memmove m dest src n = (\<lambda>a. if dest \<le> a \<and> a < dest + n then m (src + (a - dest)) else m a)"
  by (auto simp: memmove_def copy_back_eq copy_fwd_eq)

text \<open>C33: \<^verbatim>\<open>strncpy\<close> writes one byte too many when the source string is shorter than \<open>n\<close>: apart from
  copying the string it zeroes the rest of the \<open>n\<close> bytes and the byte after them, because the count is
  not decremented for the terminator.\<close>

theorem strncpy_writes_past_end:
  assumes "cstr m src w" "length w < n" "dest + n < src \<or> src + length w < dest"
  shows "strncpy m dest src n =
    (\<lambda>a. if dest \<le> a \<and> a < dest + length w then m (src + (a - dest))
         else if dest + length w \<le> a \<and> a \<le> dest + n then 0 else m a)"
proof -
  have "m (src + length w) = 0" by (rule cstr_end [OF assms(1)])
  with assms(2) show ?thesis
    unfolding strncpy_def strncpy_copy_short [OF assms] Let_def prod.case strncpy_pad_eq
    by (intro ext) (auto simp: le_less)
qed

text \<open>Copying a one-letter name into a 28-byte field at 100 clears byte 128.\<close>

theorem strncpy_writes_past_end_witness:
  "strncpy ((\<lambda>_. 255)(0 := 97, 1 := 0)) 100 0 28 128 = 0"
proof -
  have "cstr ((\<lambda>_. 255)(0 := 97, 1 := 0)) 0 [97]" by simp
  from strncpy_writes_past_end [OF this, of 28 100] show ?thesis by simp
qed

text \<open>C34: On two C strings \<^verbatim>\<open>strncmp\<close> returns 0 exactly when they agree in their first \<open>n\<close>
  characters, \<^verbatim>\<open>strlen\<close> returns the length, and \<^verbatim>\<open>memcmp\<close> on blocks returns 0 exactly when all bytes
  agree.\<close>

theorem string_compare_correct:
  assumes "cstr m s v" "cstr m t w"
  shows "(strncmp m s t n = 0 \<longleftrightarrow> take n v = take n w) \<and> strlen m s = Some (length v) \<and>
    (memcmp m s t k = 0 \<longleftrightarrow> (\<forall>i < k. m (s + i) = m (t + i)))"
  using strncmp_eq_0 [OF assms] strlen_loop_cstr [OF assms(1), of 0] memcmp_eq_0 by (auto simp: strlen_def)

theorem string_compare_correct_witness:
  "strncmp ((\<lambda>_. 0)(0 := 97, 1 := 98, 8 := 97, 9 := 99)) 0 8 1 = 0 \<and>
   strncmp ((\<lambda>_. 0)(0 := 97, 1 := 98, 8 := 97, 9 := 99)) 0 8 2 \<noteq> 0 \<and>
   strlen ((\<lambda>_. 0)(0 := 97, 1 := 98, 8 := 97, 9 := 99)) 0 = Some 2"
proof -
  have "cstr ((\<lambda>_. 0)(0 := 97, 1 := 98, 8 := 97, 9 := 99)) 0 [97, 98]"
    "cstr ((\<lambda>_. 0)(0 := 97, 1 := 98, 8 := 97, 9 := 99)) 8 [97, 99]" by simp_all
  from string_compare_correct [OF this, of 1 0] string_compare_correct [OF this, of 2 0]
  show ?thesis by simp
qed

end
