(* ===== verification/Synch.thy ===== *)
theory Synch
  imports KList
begin

section \<open>Interrupt levels, scheduler and locks (kernel/sched.c, kernel/synch.c, arch trap.c)\<close>

text \<open>
  The threads of the machine, the ready queue, one record per processor, and the locks. A
  thread is named by the address of its \<^verbatim>\<open>struct thread\<close>; the lists that the code links through
  \<^verbatim>\<open>thread->node\<close> (ready queue, waiters of a condition variable) are lists of thread names, which
  \<^theory_text>\<open>KList\<close> shows the linked lists implement. Locks and condition variables live in stores
  indexed by their addresses, so that a sleeplock names the spinlock and the condition variable
  embedded in it. An operation names the processor \<open>c\<close> that executes it; the current thread
  (\<^verbatim>\<open>thread_current\<close>) is the one on whose kernel stack that processor is.

  \<open>None\<close> means that the processor does not get past the call in the given state: a \<^verbatim>\<open>kassert\<close> or
  a \<^verbatim>\<open>panic\<close>, or it spins on a lock that is taken. Spinning, with every memory access a step of
  its own, is the subject of the step relation at the end of this theory.
\<close>

type_synonym tid = addr

datatype threadstate = RUNNING | READY | SLEEPING | ZOMBIE

datatype intr = INTR_OFF | INTR_ON

record cpu =
  num_disabled :: int
  intr_enabled :: bool
  eflags_if :: bool
  cpu_thread :: "tid option"
  idle_thread :: "tid option"

record spinlock =
  lock_status :: bool
  holder :: "tid option"

record sleeplock =
  lk :: addr
  waiters :: addr
  sl_holder :: "tid option"

text \<open>A lock argument of \<^verbatim>\<open>condvar_wait\<close> and \<^verbatim>\<open>sched_sched\<close>, with the type tag that
  \<^verbatim>\<open>LOCK_TYPE\<close> reads.\<close>

datatype lockref = Spin addr | Sleep addr

text \<open>\<open>started t\<close> says whether \<open>t\<close> has ever been switched to: its saved context returns into
  \<^verbatim>\<open>sched\<close> if so and into \<^verbatim>\<open>thread_start\<close> otherwise.\<close>

record kst =
  ready_queue :: "tid list"
  tstate :: "tid \<Rightarrow> threadstate"
  started :: "tid \<Rightarrow> bool"
  cpus :: "nat \<Rightarrow> cpu"
  running :: "nat \<Rightarrow> tid"
  spins :: "addr \<Rightarrow> spinlock"
  sleeps :: "addr \<Rightarrow> sleeplock"
  condvars :: "addr \<Rightarrow> tid list"
  synch_enabled :: bool

text \<open>The address of the global \<^verbatim>\<open>sched_lock\<close>.\<close>

definition sched_lock :: addr where
  "sched_lock = 0"

subsection \<open>Interrupt level (arch/x86_64/kernel/trap.c)\<close>

definition intr_get_level :: "cpu \<Rightarrow> intr" where
  "intr_get_level p = (if eflags_if p then INTR_ON else INTR_OFF)"

definition intr_set_level :: "intr \<Rightarrow> cpu \<Rightarrow> (intr \<times> cpu) option" where
  "intr_set_level level p =
     (let current_level = intr_get_level p in
      if level = INTR_ON then
        do { kassert (current_level = INTR_OFF);
             if num_disabled p = 0 then Some (current_level, p\<lparr>eflags_if := True\<rparr>)
             else
               (let p = (if num_disabled p > 0 then p\<lparr>num_disabled := num_disabled p - 1\<rparr> else p);
                    p = (if num_disabled p = 0 \<and> intr_enabled p then p\<lparr>eflags_if := True\<rparr> else p)
                in Some (current_level, p)) }
      else
        (let p = p\<lparr>eflags_if := False\<rparr>;
             p = (if num_disabled p = 0 then p\<lparr>intr_enabled := (current_level = INTR_ON)\<rparr> else p)
         in Some (current_level, p\<lparr>num_disabled := num_disabled p + 1\<rparr>)))"

definition set_level :: "nat \<Rightarrow> intr \<Rightarrow> kst \<Rightarrow> kst option" where
  "set_level c level k =
     do { (_, p) \<leftarrow> intr_set_level level (cpus k c); Some (k\<lparr>cpus := (cpus k)(c := p)\<rparr>) }"

subsection \<open>Spinlocks (kernel/synch.c)\<close>

definition synch_init :: "kst \<Rightarrow> kst" where
  "synch_init k = k\<lparr>synch_enabled := True\<rparr>"

definition spinlock_init :: "addr \<Rightarrow> kst \<Rightarrow> kst" where
  "spinlock_init l k = k\<lparr>spins := (spins k)(l := \<lparr>lock_status = False, holder = None\<rparr>)\<rparr>"

definition spinlock_acquire :: "nat \<Rightarrow> addr \<Rightarrow> kst \<Rightarrow> kst option" where
  "spinlock_acquire c l k =
     (if \<not> synch_enabled k then Some k
      else do { k \<leftarrow> set_level c INTR_OFF k;
                let curr = running k c;
                kassert (\<not> (holder (spins k l) \<noteq> None \<and> holder (spins k l) = Some curr));
                if lock_status (spins k l) then None
                else Some (k\<lparr>spins := (spins k)(l := \<lparr>lock_status = True, holder = Some curr\<rparr>)\<rparr>) })"

definition spinlock_try_acquire :: "nat \<Rightarrow> addr \<Rightarrow> kst \<Rightarrow> (err_t \<times> kst) option" where
  "spinlock_try_acquire c l k =
     (if \<not> synch_enabled k then Some (ERR_OK, k)
      else do { k \<leftarrow> set_level c INTR_OFF k;
                let curr = running k c;
                kassert (holder (spins k l) = None \<or> holder (spins k l) \<noteq> Some curr);
                if \<not> lock_status (spins k l)
                then Some (ERR_OK, k\<lparr>spins := (spins k)(l := \<lparr>lock_status = True, holder = Some curr\<rparr>)\<rparr>)
                else do { k \<leftarrow> set_level c INTR_ON k; Some (ERR_LOCK_BUSY, k) } })"

definition spinlock_release :: "nat \<Rightarrow> addr \<Rightarrow> kst \<Rightarrow> kst option" where
  "spinlock_release c l k =
     (if \<not> synch_enabled k then Some k
      else set_level c INTR_ON (k\<lparr>spins := (spins k)(l := \<lparr>lock_status = False, holder = None\<rparr>)\<rparr>))"

subsection \<open>Scheduler (kernel/sched.c)\<close>

definition sched_ready :: "nat \<Rightarrow> tid \<Rightarrow> kst \<Rightarrow> kst option" where
  "sched_ready c t k =
     do { k \<leftarrow> spinlock_acquire c sched_lock k;
          let k = k\<lparr>tstate := (tstate k)(t := READY)\<rparr>;
          let k = k\<lparr>ready_queue := ready_queue k @ [t]\<rparr>;
          spinlock_release c sched_lock k }"

definition cpu_set_idle_thread :: "nat \<Rightarrow> tid \<Rightarrow> kst \<Rightarrow> kst option" where
  "cpu_set_idle_thread c t k =
     do { kassert (idle_thread (cpus k c) = None);
          Some (k\<lparr>cpus := (cpus k)(c := (cpus k c)\<lparr>idle_thread := Some t\<rparr>)\<rparr>) }"

definition sched_start :: "nat \<Rightarrow> kst \<Rightarrow> (err_t \<times> kst) option" where
  "sched_start c k =
     do { kassert (intr_get_level (cpus k c) = INTR_OFF);
          k \<leftarrow> cpu_set_idle_thread c (running k c) k;
          k \<leftarrow> set_level c INTR_ON k;
          Some (ERR_OK, k) }"

text \<open>The switch saves nothing of the model's state: from here on the processor is on the stack of
  \<open>t\<close>, which \<^verbatim>\<open>swtch\<close> makes the current thread.\<close>

definition cpu_switch_thread :: "nat \<Rightarrow> tid \<Rightarrow> kst \<Rightarrow> (tid \<times> kst) option" where
  "cpu_switch_thread c t k =
     do { kassert (intr_get_level (cpus k c) = INTR_OFF);
          let curr = running k c;
          Some (curr, k\<lparr>cpus := (cpus k)(c := (cpus k c)\<lparr>cpu_thread := Some t, intr_enabled := True\<rparr>),
                        running := (running k)(c := t), started := (started k)(t := True)\<rparr>) }"

text \<open>\<^verbatim>\<open>sched\<close> returns the thread that the processor left if it has to be reclaimed. The code after
  the switch runs in the context of the next thread, and a thread that runs for the first time starts
  in \<^verbatim>\<open>thread_start\<close> instead, which does not look at the previous thread.\<close>

definition sched :: "nat \<Rightarrow> kst \<Rightarrow> (tid option \<times> kst) option" where
  "sched c k =
     do { let curr = running k c;
          (nxt, k) \<leftarrow> (case ready_queue k of
              n # q \<Rightarrow> do { kassert (tstate k n = READY); Some (n, k\<lparr>ready_queue := q\<rparr>) }
            | [] \<Rightarrow> do { i \<leftarrow> idle_thread (cpus k c); Some (i, k) });
          let k = k\<lparr>tstate := (tstate k)(nxt := RUNNING)\<rparr>;
          if curr \<noteq> nxt then do {
            let resumes = started k nxt;
            (prev, k) \<leftarrow> cpu_switch_thread c nxt k;
            Some (if resumes \<and> tstate k prev = ZOMBIE then Some prev else None, k) }
          else Some (None, k) }"

subsection \<open>Condition variables and sleeplocks (kernel/synch.c)\<close>

definition condvar_init :: "addr \<Rightarrow> kst \<Rightarrow> kst" where
  "condvar_init cv k = k\<lparr>condvars := (condvars k)(cv := [])\<rparr>"

definition condvar_signal :: "nat \<Rightarrow> addr \<Rightarrow> kst \<Rightarrow> kst option" where
  "condvar_signal c cv k =
     (if \<not> synch_enabled k then Some k
      else case condvars k cv of
          [] \<Rightarrow> Some k
        | t # ts \<Rightarrow> sched_ready c t (k\<lparr>condvars := (condvars k)(cv := ts)\<rparr>))"

fun broadcast_loop :: "nat \<Rightarrow> addr \<Rightarrow> tid list \<Rightarrow> kst \<Rightarrow> kst option" where
  "broadcast_loop c cv [] k = Some k"
| "broadcast_loop c cv (t # ts) k =
     do { k \<leftarrow> sched_ready c t (k\<lparr>condvars := (condvars k)(cv := ts)\<rparr>);
          broadcast_loop c cv ts k }"

definition condvar_broadcast :: "nat \<Rightarrow> addr \<Rightarrow> kst \<Rightarrow> kst option" where
  "condvar_broadcast c cv k =
     (if \<not> synch_enabled k then Some k else broadcast_loop c cv (condvars k cv) k)"

definition sleeplock_init :: "addr \<Rightarrow> kst \<Rightarrow> kst" where
  "sleeplock_init l k =
     (let k = condvar_init (waiters (sleeps k l)) (spinlock_init (lk (sleeps k l)) k)
      in k\<lparr>sleeps := (sleeps k)(l := (sleeps k l)\<lparr>sl_holder := None\<rparr>)\<rparr>)"

definition sleeplock_try_acquire :: "nat \<Rightarrow> addr \<Rightarrow> kst \<Rightarrow> (err_t \<times> kst) option" where
  "sleeplock_try_acquire c l k =
     (if \<not> synch_enabled k then Some (ERR_OK, k)
      else do { k \<leftarrow> spinlock_acquire c (lk (sleeps k l)) k;
                if sl_holder (sleeps k l) = None then do {
                  let k = k\<lparr>sleeps := (sleeps k)(l := (sleeps k l)\<lparr>sl_holder := Some (running k c)\<rparr>)\<rparr>;
                  k \<leftarrow> spinlock_release c (lk (sleeps k l)) k;
                  Some (ERR_OK, k) }
                else do {
                  k \<leftarrow> spinlock_release c (lk (sleeps k l)) k;
                  Some (ERR_LOCK_BUSY, k) } })"

definition sleeplock_release :: "nat \<Rightarrow> addr \<Rightarrow> kst \<Rightarrow> kst option" where
  "sleeplock_release c l k =
     (if \<not> synch_enabled k then Some k
      else do { kassert (sl_holder (sleeps k l) = Some (running k c));
                k \<leftarrow> spinlock_acquire c (lk (sleeps k l)) k;
                let k = k\<lparr>sleeps := (sleeps k)(l := (sleeps k l)\<lparr>sl_holder := None\<rparr>)\<rparr>;
                k \<leftarrow> condvar_signal c (waiters (sleeps k l)) k;
                spinlock_release c (lk (sleeps k l)) k })"

definition lock_release :: "nat \<Rightarrow> lockref \<Rightarrow> kst \<Rightarrow> kst option" where
  "lock_release c lock k =
     (if \<not> synch_enabled k then Some k
      else case lock of Spin l \<Rightarrow> spinlock_release c l k | Sleep l \<Rightarrow> sleeplock_release c l k)"

text \<open>The first half of \<^verbatim>\<open>sched_sched\<close>: the current thread is queued if it stays ready, unless
  it is the idle thread of the processor, and its state is set.\<close>

definition leaving :: "nat \<Rightarrow> tid \<Rightarrow> threadstate \<Rightarrow> kst \<Rightarrow> kst" where
  "leaving c t st k =
     (let k = (if st = READY \<and> Some t \<noteq> idle_thread (cpus k c)
               then k\<lparr>ready_queue := ready_queue k @ [t]\<rparr> else k)
      in k\<lparr>tstate := (tstate k)(t := st)\<rparr>)"

text \<open>\<^verbatim>\<open>sched_sched\<close>: the current thread goes to the given state, an optional lock is released, and
  another thread is switched to, which releases \<^verbatim>\<open>sched_lock\<close>. The result names a dead thread that
  was reclaimed (\<^verbatim>\<open>thread_cleanup\<close> requires that it is not the current one).\<close>

definition sched_sched :: "nat \<Rightarrow> threadstate \<Rightarrow> lockref option \<Rightarrow> kst \<Rightarrow> (tid option \<times> kst) option" where
  "sched_sched c next_state lock k =
     do { let curr = running k c;
          k \<leftarrow> spinlock_acquire c sched_lock k;
          let k = leaving c curr next_state k;
          k \<leftarrow> (case lock of None \<Rightarrow> Some k | Some l \<Rightarrow> lock_release c l k);
          (dying, k) \<leftarrow> sched c k;
          k \<leftarrow> spinlock_release c sched_lock k;
          case dying of
              None \<Rightarrow> Some (None, k)
            | Some d \<Rightarrow> do { kassert (running k c \<noteq> d); Some (Some d, k) } }"

text \<open>\<^verbatim>\<open>condvar_wait\<close> up to the switch; when the thread runs again it continues with
  \<open>lock_acquire\<close>.\<close>

definition condvar_wait :: "nat \<Rightarrow> addr \<Rightarrow> lockref \<Rightarrow> kst \<Rightarrow> (tid option \<times> kst) option" where
  "condvar_wait c cv lock k =
     (if \<not> synch_enabled k then Some (None, k)
      else do { let t = running k c;
                kassert (case lock of Spin l \<Rightarrow> holder (spins k l) = Some t
                                    | Sleep l \<Rightarrow> sl_holder (sleeps k l) = Some t);
                sched_sched c SLEEPING (Some lock)
                  (k\<lparr>condvars := (condvars k)(cv := condvars k cv @ [t])\<rparr>) })"

text \<open>One turn of \<^verbatim>\<open>sleeplock_acquire\<close>: \<open>True\<close> when the lock is taken, \<open>False\<close> when the thread
  went to sleep. A thread that wakes up takes the inner spinlock and tests the holder again, which is
  the same turn once more.\<close>

definition sleeplock_acquire :: "nat \<Rightarrow> addr \<Rightarrow> kst \<Rightarrow> (bool \<times> kst) option" where
  "sleeplock_acquire c l k =
     (if \<not> synch_enabled k then Some (True, k)
      else do { k \<leftarrow> spinlock_acquire c (lk (sleeps k l)) k;
                if sl_holder (sleeps k l) \<noteq> None then do {
                  (_, k) \<leftarrow> condvar_wait c (waiters (sleeps k l)) (Spin (lk (sleeps k l))) k;
                  Some (False, k) }
                else do {
                  let k = k\<lparr>sleeps := (sleeps k)(l := (sleeps k l)\<lparr>sl_holder := Some (running k c)\<rparr>)\<rparr>;
                  k \<leftarrow> spinlock_release c (lk (sleeps k l)) k;
                  Some (True, k) } })"

definition lock_acquire :: "nat \<Rightarrow> lockref \<Rightarrow> kst \<Rightarrow> (bool \<times> kst) option" where
  "lock_acquire c lock k =
     (if \<not> synch_enabled k then Some (True, k)
      else case lock of
          Spin l \<Rightarrow> do { k \<leftarrow> spinlock_acquire c l k; Some (True, k) }
        | Sleep l \<Rightarrow> sleeplock_acquire c l k)"

subsection \<open>Interrupt nesting\<close>

text \<open>A processor that has interrupts disabled a positive number of times does not take any.\<close>

definition cpu_ok :: "cpu \<Rightarrow> bool" where
  "cpu_ok p \<longleftrightarrow> num_disabled p \<ge> 0 \<and> (num_disabled p > 0 \<longrightarrow> \<not> eflags_if p)"

fun set_levels :: "intr list \<Rightarrow> cpu \<Rightarrow> cpu option" where
  "set_levels [] p = Some p"
| "set_levels (l # ls) p = do { (_, p) \<leftarrow> intr_set_level l p; set_levels ls p }"

text \<open>\<open>bracketed d ls\<close>: after \<open>d\<close> open calls with \<open>INTR_OFF\<close>, every call with \<open>INTR_ON\<close> in \<open>ls\<close> closes
  one, and all are closed at the end.\<close>

fun bracketed :: "nat \<Rightarrow> intr list \<Rightarrow> bool" where
  "bracketed d [] = (d = 0)"
| "bracketed d (INTR_OFF # ls) = bracketed (Suc d) ls"
| "bracketed d (INTR_ON # ls) = (d > 0 \<and> bracketed (d - 1) ls)"

lemma intr_set_level_ok:
  assumes "cpu_ok p" "intr_set_level l p = Some (old, p')"
  shows "cpu_ok p'"
  using assms by (auto simp: intr_set_level_def cpu_ok_def Let_def intr_get_level_def split: if_splits)

text \<open>The state of a processor \<open>d\<close> brackets deep, seen from the state \<open>p\<close> outside them.\<close>

definition nested :: "cpu \<Rightarrow> nat \<Rightarrow> cpu \<Rightarrow> bool" where
  "nested p d q \<longleftrightarrow>
     num_disabled q = num_disabled p + int d \<and>
     (if num_disabled p = 0 \<and> d > 0 then \<not> eflags_if q \<and> intr_enabled q = eflags_if p
      else eflags_if q = eflags_if p)"

lemma nested_off:
  assumes "cpu_ok p" "nested p d q"
  shows "\<exists>old q'. intr_set_level INTR_OFF q = Some (old, q') \<and> nested p (Suc d) q'"
  using assms
  by (auto simp: nested_def cpu_ok_def intr_set_level_def Let_def intr_get_level_def split: if_splits)

lemma nested_on:
  assumes "cpu_ok p" "nested p d q" "d > 0"
  shows "\<exists>old q'. intr_set_level INTR_ON q = Some (old, q') \<and> nested p (d - 1) q'"
  using assms
  by (auto simp: nested_def cpu_ok_def intr_set_level_def Let_def intr_get_level_def
           split: if_splits)

lemma set_levels_nested:
  assumes "cpu_ok p" "nested p d q" "bracketed d ls"
  shows "\<exists>q'. set_levels ls q = Some q' \<and> nested p 0 q'"
  using assms(2,3)
proof (induction d ls arbitrary: q rule: bracketed.induct)
  case (2 d ls)
  from nested_off [OF assms(1) 2(2)] 2(1,3) show ?case by fastforce
next
  case (3 d ls)
  from nested_on [OF assms(1) 3(2)] 3(1,3) show ?case by fastforce
qed simp

end
