(* ===== verification/Synch_Inv.thy ===== *)
theory Synch_Inv
  imports Synch
begin

section \<open>Invariants of the scheduler and of the locks\<close>

text \<open>
  The facts about \<^theory_text>\<open>Synch\<close>: what the lock operations leave alone, the invariant that keeps
  every thread in exactly one place, sleeplocks as an abstract lock with a queue of waiters, and the
  spinlock protocol with interleaved memory accesses.
\<close>

subsection \<open>What the spinlock operations leave unchanged\<close>

text \<open>Everything but the spinlocks and the interrupt state of the processors.\<close>

definition same_sched :: "kst \<Rightarrow> kst \<Rightarrow> bool" where
  "same_sched k k' \<longleftrightarrow>
     ready_queue k' = ready_queue k \<and> tstate k' = tstate k \<and> started k' = started k \<and>
     running k' = running k \<and> sleeps k' = sleeps k \<and> condvars k' = condvars k \<and>
     synch_enabled k' = synch_enabled k \<and>
     (\<forall>c. idle_thread (cpus k' c) = idle_thread (cpus k c))"

lemma intr_set_level_idle [frames]:
  "intr_set_level l p = Some (old, p') \<Longrightarrow> idle_thread p' = idle_thread p"
  by (auto simp: intr_set_level_def Let_def split: if_splits)

lemma set_level_same:
  "set_level c l k = Some k' \<Longrightarrow> same_sched k k' \<and> spins k' = spins k"
  by (auto simp: set_level_def same_sched_def frames elim!: bind_SomeE)

lemma same_sched_refl [simp]: "same_sched k k"
  by (simp add: same_sched_def)

lemma same_sched_trans [trans]: "same_sched a b \<Longrightarrow> same_sched b d \<Longrightarrow> same_sched a d"
  by (simp add: same_sched_def)

lemma same_sched_spins [simp]:
  "same_sched (k\<lparr>spins := s\<rparr>) k' = same_sched k k'" "same_sched k (k'\<lparr>spins := s\<rparr>) = same_sched k k'"
  by (simp_all add: same_sched_def)

lemma spinlock_acquire_SomeD:
  assumes "spinlock_acquire c l k = Some k'"
  shows "same_sched k k' \<and>
         (synch_enabled k \<longrightarrow> \<not> lock_status (spins k l) \<and>
            spins k' = (spins k)(l := \<lparr>lock_status = True, holder = Some (running k c)\<rparr>))"
  using assms
  by (auto simp: spinlock_acquire_def Let_def same_sched_def dest!: set_level_same
           elim!: bind_SomeE split: if_splits)

lemma spinlock_release_SomeD:
  assumes "spinlock_release c l k = Some k'"
  shows "same_sched k k' \<and>
         (synch_enabled k \<longrightarrow> spins k' = (spins k)(l := \<lparr>lock_status = False, holder = None\<rparr>))"
  using assms by (auto simp: spinlock_release_def dest!: set_level_same split: if_splits)

lemma spinlock_try_acquire_SomeD:
  assumes "spinlock_try_acquire c l k = Some (r, k')"
  shows "same_sched k k'"
  using assms
  by (auto simp: spinlock_try_acquire_def Let_def same_sched_def dest!: set_level_same
           elim!: bind_SomeE split: if_splits)

lemma sched_ready_SomeD:
  assumes "sched_ready c t k = Some k'"
  shows "same_sched (k\<lparr>tstate := (tstate k)(t := READY), ready_queue := ready_queue k @ [t]\<rparr>) k'"
  using assms
  by (auto simp: sched_ready_def Let_def same_sched_def
           dest!: spinlock_acquire_SomeD spinlock_release_SomeD elim!: bind_SomeE)

text \<open>\<^verbatim>\<open>sched_ready\<close> cannot be called by a thread that already holds \<^verbatim>\<open>sched_lock\<close>.\<close>

lemma sched_ready_locked:
  assumes "synch_enabled k" "lock_status (spins k sched_lock)"
  shows "sched_ready c t k = None"
  using assms
  by (cases "sched_ready c t k")
     (auto simp: sched_ready_def elim!: bind_SomeE dest!: spinlock_acquire_SomeD)

subsection \<open>Every thread is in exactly one place\<close>

definition is_idle :: "nat \<Rightarrow> kst \<Rightarrow> tid \<Rightarrow> bool" where
  "is_idle n k t \<longleftrightarrow> (\<exists>c<n. idle_thread (cpus k c) = Some t)"

definition queues_ok :: "nat \<Rightarrow> kst \<Rightarrow> bool" where
  "queues_ok n k \<longleftrightarrow>
     distinct (ready_queue k) \<and> (\<forall>t\<in>set (ready_queue k). tstate k t = READY \<and> \<not> is_idle n k t) \<and>
     (\<forall>cv. distinct (condvars k cv)) \<and>
     (\<forall>cv. \<forall>t\<in>set (condvars k cv). tstate k t = SLEEPING \<and> \<not> is_idle n k t) \<and>
     (\<forall>cv cv'. cv \<noteq> cv' \<longrightarrow> set (condvars k cv) \<inter> set (condvars k cv') = {})"

definition idles_ok :: "nat \<Rightarrow> kst \<Rightarrow> bool" where
  "idles_ok n k \<longleftrightarrow>
     (\<forall>c<n. \<forall>c'<n. idle_thread (cpus k c) = Some (running k c') \<longrightarrow> c = c') \<and>
     (\<forall>c<n. \<forall>c'<n. idle_thread (cpus k c) \<noteq> None \<and> idle_thread (cpus k c) = idle_thread (cpus k c')
        \<longrightarrow> c = c')"

text \<open>No thread that has run is lost: a ready one is queued, a sleeping one waits somewhere, a
  running one is on a processor.\<close>

definition placed :: "nat \<Rightarrow> kst \<Rightarrow> tid \<Rightarrow> bool" where
  "placed n k t \<longleftrightarrow>
     (tstate k t = READY \<longrightarrow> t \<in> set (ready_queue k)) \<and>
     (tstate k t = SLEEPING \<longrightarrow> (\<exists>cv. t \<in> set (condvars k cv))) \<and>
     (tstate k t = RUNNING \<longrightarrow> (\<exists>c<n. running k c = t))"

text \<open>The invariant while processor \<open>c\<close> is in the scheduler (\<open>Some c\<close>), having set the new state of
  the thread it leaves, and at all other times (\<open>None\<close>).\<close>

definition sched_inv :: "nat \<Rightarrow> nat option \<Rightarrow> kst \<Rightarrow> bool" where
  "sched_inv n oc k \<longleftrightarrow>
     queues_ok n k \<and> idles_ok n k \<and> inj_on (running k) {..<n} \<and>
     (\<forall>c<n. oc \<noteq> Some c \<longrightarrow> tstate k (running k c) = RUNNING) \<and>
     (\<forall>t. started k t \<and> \<not> is_idle n k t \<longrightarrow> placed n k t)"

lemmas sched_inv_defs [invs] = sched_inv_def queues_ok_def idles_ok_def placed_def is_idle_def

lemma sched_inv_same:
  assumes "same_sched k k'"
  shows "sched_inv n oc k' = sched_inv n oc k"
proof -
  have "is_idle n k' = is_idle n k"
    using assms by (simp add: same_sched_def is_idle_def fun_eq_iff)
  moreover from this have "placed n k' = placed n k" "queues_ok n k' = queues_ok n k"
    using assms by (simp_all add: same_sched_def placed_def queues_ok_def fun_eq_iff)
  moreover have "idles_ok n k' = idles_ok n k"
    using assms by (simp add: same_sched_def idles_ok_def)
  ultimately show ?thesis
    using assms by (simp add: same_sched_def sched_inv_def)
qed

text \<open>Two updates that enter and leave the queues.\<close>

lemma queues_ok_ready:
  assumes "queues_ok n k" "\<not> is_idle n k t" "t \<notin> set (ready_queue k)"
    "\<forall>cv. t \<notin> set (condvars k cv)"
  shows "queues_ok n (k\<lparr>tstate := (tstate k)(t := READY), ready_queue := ready_queue k @ [t]\<rparr>)"
  using assms by (auto simp: queues_ok_def is_idle_def)

lemma placed_ready:
  assumes "placed n k s" "\<forall>c<n. running k c \<noteq> t"
  shows "placed n (k\<lparr>tstate := (tstate k)(t := READY), ready_queue := ready_queue k @ [t]\<rparr>) s"
  using assms by (auto simp: placed_def)

lemma sched_inv_ready:
  assumes inv: "sched_inv n None k"
    and t: "\<not> is_idle n k t" "t \<notin> set (ready_queue k)" "\<forall>cv. t \<notin> set (condvars k cv)"
      "\<forall>c<n. running k c \<noteq> t"
    and step: "sched_ready c t k = Some k'"
  shows "sched_inv n None k'"
proof -
  let ?k = "k\<lparr>tstate := (tstate k)(t := READY), ready_queue := ready_queue k @ [t]\<rparr>"
  have "is_idle n ?k = is_idle n k" "idles_ok n ?k = idles_ok n k"
    by (simp_all add: is_idle_def idles_ok_def fun_eq_iff)
  moreover have "\<forall>c<n. tstate ?k (running ?k c) = RUNNING"
    using inv t(4) by (simp add: sched_inv_def)
  ultimately have "sched_inv n None ?k"
    using inv queues_ok_ready [OF _ t(1-3)] placed_ready [OF _ t(4)]
    unfolding sched_inv_def by simp
  with sched_inv_same [OF sched_ready_SomeD [OF step]] show ?thesis by simp
qed

text \<open>Waking the first waiter of a condition variable.\<close>

definition woken :: "addr \<Rightarrow> tid \<Rightarrow> tid list \<Rightarrow> kst \<Rightarrow> kst" where
  "woken cv t ts k = k\<lparr>condvars := (condvars k)(cv := ts), tstate := (tstate k)(t := READY),
                       ready_queue := ready_queue k @ [t]\<rparr>"

lemma queues_ok_woken:
  assumes ok: "queues_ok n k" and cv: "condvars k cv = t # ts"
  shows "queues_ok n (woken cv t ts k)"
proof -
  have t: "tstate k t = SLEEPING" "\<not> is_idle n k t" and ts: "t \<notin> set ts" "distinct ts"
    using ok cv unfolding queues_ok_def by (metis list.set_intros(1), metis list.set_intros(1),
        metis distinct.simps(2), metis distinct.simps(2))
  have other: "t \<notin> set (condvars k cv')" if "cv' \<noteq> cv" for cv'
    using ok cv that unfolding queues_ok_def
    by (metis disjoint_iff list.set_intros(1))
  have sub: "set ts \<subseteq> set (condvars k cv)" using cv by auto
  have "is_idle n (woken cv t ts k) = is_idle n k"
    by (simp add: is_idle_def woken_def fun_eq_iff)
  moreover have "t \<notin> set (ready_queue k)" using ok t(1) by (auto simp: queues_ok_def)
  ultimately show ?thesis
    using ok t ts other sub unfolding queues_ok_def woken_def by (auto; blast)
qed

lemma placed_woken:
  assumes "queues_ok n k" "condvars k cv = t # ts" "placed n k s"
  shows "placed n (woken cv t ts k) s"
proof (cases "s = t")
  case True
  then show ?thesis by (simp add: placed_def woken_def)
next
  case False
  have "\<exists>cv'. (cv' = cv \<longrightarrow> s \<in> set ts) \<and> (cv' \<noteq> cv \<longrightarrow> s \<in> set (condvars k cv'))"
    if "s \<in> set (condvars k cv0)" for cv0
    using that assms(2) False by (cases "cv0 = cv") (auto intro: exI [of _ cv0])
  with False assms(3) show ?thesis by (simp add: placed_def woken_def) blast
qed

lemma sched_inv_woken:
  assumes inv: "sched_inv n oc k" and cv: "condvars k cv = t # ts"
  shows "sched_inv n oc (woken cv t ts k)"
proof -
  have qok: "queues_ok n k" using inv by (simp add: sched_inv_def)
  then have "tstate k t = SLEEPING" using cv unfolding queues_ok_def by (metis list.set_intros(1))
  moreover have "is_idle n (woken cv t ts k) = is_idle n k" "idles_ok n (woken cv t ts k) = idles_ok n k"
    by (simp_all add: is_idle_def idles_ok_def woken_def fun_eq_iff)
  ultimately show ?thesis
    using inv queues_ok_woken [OF qok cv] placed_woken [OF qok cv]
    unfolding sched_inv_def by (auto simp: woken_def)
qed

lemma sched_ready_woken:
  assumes "sched_ready c t (k\<lparr>condvars := (condvars k)(cv := ts)\<rparr>) = Some k'"
  shows "same_sched (woken cv t ts k) k'"
  using sched_ready_SomeD [OF assms] by (simp add: woken_def same_sched_def)

lemma sched_inv_wakes:
  assumes "sched_inv n oc k" "condvars k cv = t # ts"
    "sched_ready c t (k\<lparr>condvars := (condvars k)(cv := ts)\<rparr>) = Some k'"
  shows "sched_inv n oc k'"
  using sched_inv_woken [OF assms(1,2)] sched_inv_same [OF sched_ready_woken [OF assms(3)]] by simp

lemma condvar_signal_inv:
  assumes "sched_inv n oc k" "condvar_signal c cv k = Some k'"
  shows "sched_inv n oc k'"
  using assms by (auto simp: condvar_signal_def split: if_splits list.splits intro: sched_inv_wakes)

lemma broadcast_loop_inv:
  assumes "sched_inv n oc k" "condvars k cv = ts" "broadcast_loop c cv ts k = Some k'"
  shows "sched_inv n oc k'"
  using assms
proof (induction ts arbitrary: k)
  case (Cons t ts)
  from Cons.prems(3) obtain k1 where
    k1: "sched_ready c t (k\<lparr>condvars := (condvars k)(cv := ts)\<rparr>) = Some k1"
    and rest: "broadcast_loop c cv ts k1 = Some k'" by (auto elim: bind_SomeE)
  have "condvars k1 cv = ts"
    using sched_ready_woken [OF k1] by (simp add: same_sched_def woken_def)
  with sched_inv_wakes [OF Cons.prems(1,2) k1] show ?case by (rule Cons.IH) (rule rest)
qed simp

lemma condvar_broadcast_inv:
  assumes "sched_inv n oc k" "condvar_broadcast c cv k = Some k'"
  shows "sched_inv n oc k'"
  using assms by (auto simp: condvar_broadcast_def split: if_splits intro: broadcast_loop_inv)

lemma sched_inv_sleeps [simp]: "sched_inv n oc (k\<lparr>sleeps := s\<rparr>) = sched_inv n oc k"
  unfolding sched_inv_def queues_ok_def idles_ok_def placed_def is_idle_def by simp

lemma spinlock_acquire_inv:
  assumes "spinlock_acquire c l k = Some k'"
  shows "sched_inv n oc k' = sched_inv n oc k"
  using sched_inv_same spinlock_acquire_SomeD [OF assms] by blast

lemma spinlock_release_inv:
  assumes "spinlock_release c l k = Some k'"
  shows "sched_inv n oc k' = sched_inv n oc k"
  using sched_inv_same spinlock_release_SomeD [OF assms] by blast

lemma sleeplock_release_inv:
  assumes "sched_inv n oc k" "sleeplock_release c l k = Some k'"
  shows "sched_inv n oc k'"
  using assms
  by (auto simp: sleeplock_release_def Let_def spinlock_release_inv spinlock_acquire_inv
           elim!: bind_SomeE dest!: condvar_signal_inv [rotated] split: if_splits)

lemma lock_release_inv:
  assumes "sched_inv n oc k" "lock_release c l k = Some k'"
  shows "sched_inv n oc k'"
  using assms
  by (auto simp: lock_release_def spinlock_release_inv intro: sleeplock_release_inv
           split: if_splits lockref.splits)

text \<open>Leaving the processor. The current thread is in no queue, since it is \<open>RUNNING\<close>.\<close>

lemma running_not_queued:
  assumes "sched_inv n None k" "c < n"
  shows "running k c \<notin> set (ready_queue k)" "running k c \<notin> set (condvars k cv)"
  using assms by (fastforce simp: sched_inv_def queues_ok_def)+

lemma running_unique:
  assumes "sched_inv n oc k" "c < n" "c' < n" "running k c' = running k c"
  shows "c' = c"
  using assms by (auto simp: sched_inv_def dest: inj_onD)

lemma sched_inv_leave:
  assumes inv: "sched_inv n None k" and c: "c < n"
    and k1: "k1 = k\<lparr>tstate := (tstate k)(running k c := st), ready_queue := rq, condvars := cvs\<rparr>"
    and q: "queues_ok n k1"
    and more: "set (ready_queue k) \<subseteq> set rq" "\<forall>cv. set (condvars k cv) \<subseteq> set (cvs cv)"
    and curr: "\<not> is_idle n k (running k c) \<Longrightarrow> placed n k1 (running k c)"
  shows "sched_inv n (Some c) k1"
proof -
  have "is_idle n k1 = is_idle n k" "idles_ok n k1 = idles_ok n k"
    by (simp_all add: k1 is_idle_def idles_ok_def fun_eq_iff)
  moreover have "placed n k1 t" if "placed n k t" "t \<noteq> running k c" for t
    using that more by (auto simp: placed_def k1)
  moreover have "\<forall>c'<n. Some c \<noteq> Some c' \<longrightarrow> tstate k1 (running k1 c') = RUNNING"
    using inv running_unique [OF inv c] by (auto simp: sched_inv_def k1)
  ultimately show ?thesis
    using inv q curr unfolding sched_inv_def by (auto simp: k1)
qed

lemma sched_inv_leave_ready:
  assumes "sched_inv n None k" "c < n"
  shows "sched_inv n (Some c) (leaving c (running k c) READY k)" (is "sched_inv n (Some c) ?k")
proof (rule sched_inv_leave [OF assms])
  let ?idle = "Some (running k c) = idle_thread (cpus k c)"
  show "?k = k\<lparr>tstate := (tstate k)(running k c := READY),
      ready_queue := (if ?idle then ready_queue k else ready_queue k @ [running k c]),
      condvars := condvars k\<rparr>" by (simp add: leaving_def Let_def)
  have idle: "is_idle n k (running k c) \<longleftrightarrow> ?idle"
    using assms by (auto simp: is_idle_def sched_inv_def idles_ok_def)
  have "queues_ok n k" using assms by (simp add: sched_inv_def)
  then show "queues_ok n ?k"
    using running_not_queued [OF assms] idle
    by (auto simp: queues_ok_def is_idle_def leaving_def Let_def)
  show "placed n ?k (running k c)" if "\<not> is_idle n k (running k c)"
    using that idle by (simp add: placed_def leaving_def Let_def)
qed auto

lemma sched_inv_leave_sleep:
  assumes "sched_inv n None k" "c < n" "\<not> is_idle n k (running k c)"
  shows "sched_inv n (Some c) (k\<lparr>condvars := (condvars k)(cv := condvars k cv @ [running k c]),
                                 tstate := (tstate k)(running k c := SLEEPING)\<rparr>)"
    (is "sched_inv n (Some c) ?k")
proof (rule sched_inv_leave [OF assms(1,2)])
  show "?k = k\<lparr>tstate := (tstate k)(running k c := SLEEPING), ready_queue := ready_queue k,
      condvars := (condvars k)(cv := condvars k cv @ [running k c])\<rparr>" by simp
  have "queues_ok n k" using assms by (simp add: sched_inv_def)
  then show "queues_ok n ?k"
    using running_not_queued [OF assms(1,2)] assms(3)
    by (auto simp: queues_ok_def is_idle_def)
  show "placed n ?k (running k c)" by (auto simp: placed_def)
qed auto

lemma sched_inv_leave_zombie:
  assumes "sched_inv n None k" "c < n"
  shows "sched_inv n (Some c) (k\<lparr>tstate := (tstate k)(running k c := ZOMBIE)\<rparr>)"
    (is "sched_inv n (Some c) ?k")
proof (rule sched_inv_leave [OF assms])
  show "?k = k\<lparr>tstate := (tstate k)(running k c := ZOMBIE), ready_queue := ready_queue k,
      condvars := condvars k\<rparr>" by simp
  have "queues_ok n k" using assms by (simp add: sched_inv_def)
  then show "queues_ok n ?k"
    using running_not_queued [OF assms] by (auto simp: queues_ok_def is_idle_def)
qed (auto simp: placed_def)

text \<open>Choosing the next thread restores the invariant.\<close>

definition enter :: "nat \<Rightarrow> tid \<Rightarrow> tid list \<Rightarrow> bool \<Rightarrow> kst \<Rightarrow> kst" where
  "enter c t q b k = k\<lparr>ready_queue := q, tstate := (tstate k)(t := RUNNING),
                       running := (running k)(c := t), started := (started k)(t := b)\<rparr>"

lemma sched_inv_enter:
  assumes inv: "sched_inv n (Some c) k" and c: "c < n"
    and left: "tstate k (running k c) \<noteq> RUNNING"
    and t: "ready_queue k = t # q \<or> ready_queue k = [] \<and> q = [] \<and> idle_thread (cpus k c) = Some t"
  shows "sched_inv n None (enter c t q b k)"
proof -
  have qok: "queues_ok n k" and iok: "idles_ok n k" and inj: "inj_on (running k) {..<n}"
    and run: "\<And>c'. c' < n \<Longrightarrow> c' \<noteq> c \<Longrightarrow> tstate k (running k c') = RUNNING"
    and pl: "\<And>s. started k s \<Longrightarrow> \<not> is_idle n k s \<Longrightarrow> placed n k s"
    using inv by (auto simp: sched_inv_def)
  have rdy: "tstate k t = READY \<and> \<not> is_idle n k t \<and> t \<notin> set q" if "ready_queue k = t # q"
    using qok that unfolding queues_ok_def by (metis distinct.simps(2) list.set_intros(1))
  have fresh: "running k c' \<noteq> t" if "c' < n" "c' \<noteq> c" for c'
    using t rdy run that iok c unfolding idles_ok_def
    by (metis threadstate.distinct(1))
  have nw: "t \<notin> set (condvars k cv)" for cv
    using t rdy qok c unfolding queues_ok_def is_idle_def
    by (metis threadstate.distinct(7))
  have qsub: "set q \<subseteq> set (ready_queue k)" and qd: "distinct q" and tq: "t \<notin> set q"
    using t qok rdy by (auto simp: queues_ok_def)
  have idl: "is_idle n (enter c t q b k) = is_idle n k"
    by (simp add: enter_def is_idle_def fun_eq_iff)
  have "queues_ok n (enter c t q b k)"
    using qok qsub qd tq nw idl unfolding queues_ok_def by (auto simp: enter_def)
  moreover have "idles_ok n (enter c t q b k)"
    using iok t rdy c unfolding idles_ok_def is_idle_def by (auto simp: enter_def)
  moreover have "inj_on (running (enter c t q b k)) {..<n}"
    using inj fresh by (auto simp: inj_on_def enter_def)
  moreover have "\<forall>c'<n. tstate (enter c t q b k) (running (enter c t q b k) c') = RUNNING"
    using run by (auto simp: enter_def)
  moreover have "placed n (enter c t q b k) s"
    if "started (enter c t q b k) s" "\<not> is_idle n k s" for s
  proof (cases "s = t")
    case True
    with c show ?thesis by (auto simp: placed_def enter_def intro!: exI [of _ c])
  next
    case False
    with that pl have "placed n k s" by (simp add: enter_def)
    moreover have "set (ready_queue k) \<subseteq> insert t (set q)" using t by auto
    ultimately show ?thesis using False left by (auto simp: placed_def enter_def)
  qed
  ultimately show ?thesis unfolding sched_inv_def idl by simp
qed

lemma cpu_switch_thread_same:
  assumes "cpu_switch_thread c t k = Some (p, k')"
  shows "p = running k c \<and>
    same_sched (k\<lparr>running := (running k)(c := t), started := (started k)(t := True)\<rparr>) k' \<and>
    spins k' = spins k"
  using assms by (auto simp: cpu_switch_thread_def Let_def same_sched_def split: if_splits)

lemma sched_SomeD:
  assumes "sched c k = Some (d, k')"
  obtains t q b where
    "ready_queue k = t # q \<or> ready_queue k = [] \<and> q = [] \<and> idle_thread (cpus k c) = Some t"
    "same_sched (enter c t q b k) k'" "spins k' = spins k"
    "d = (if running k c \<noteq> t \<and> started k t \<and> tstate k (running k c) = ZOMBIE then Some (running k c) else None)"
proof (cases "ready_queue k")
  case Nil
  then show ?thesis
    using assms that [of _ "[]" True] that [of _ "[]" "started k (running k c)"]
    by (auto simp: sched_def Let_def enter_def same_sched_def elim!: bind_SomeE
             dest!: cpu_switch_thread_same split: if_splits)
next
  case (Cons t q)
  then show ?thesis
    using assms that [of t q True] that [of t q "started k (running k c)"]
    by (auto simp: sched_def Let_def enter_def same_sched_def elim!: bind_SomeE
             dest!: cpu_switch_thread_same split: if_splits)
qed

lemma sched_inv_sched:
  assumes "sched_inv n (Some c) k" "c < n" "tstate k (running k c) \<noteq> RUNNING"
    "sched c k = Some (d, k')"
  shows "sched_inv n None k'"
  using assms(4) by (rule sched_SomeD) (use sched_inv_enter [OF assms(1-3)] sched_inv_same in blast)

lemma condvar_signal_frame:
  assumes "condvar_signal c cv k = Some k'"
  shows "running k' = running k \<and> started k' = started k \<and> sleeps k' = sleeps k \<and>
         synch_enabled k' = synch_enabled k \<and> (\<forall>t. tstate k' t \<in> {tstate k t, READY})"
  using assms
  by (auto simp: condvar_signal_def same_sched_def dest!: sched_ready_SomeD
           split: if_splits list.splits)

lemma sleeplock_release_frame:
  assumes "sleeplock_release c l k = Some k'"
  shows "running k' = running k \<and> started k' = started k \<and>
         synch_enabled k' = synch_enabled k \<and> (\<forall>t. tstate k' t \<in> {tstate k t, READY})"
  using assms
  by (auto simp: sleeplock_release_def Let_def same_sched_def elim!: bind_SomeE split: if_splits
           dest!: condvar_signal_frame spinlock_acquire_SomeD spinlock_release_SomeD)

lemma lock_release_frame:
  assumes "lock_release c l k = Some k'"
  shows "running k' = running k \<and> started k' = started k \<and>
         synch_enabled k' = synch_enabled k \<and> (\<forall>t. tstate k' t \<in> {tstate k t, READY})"
  using assms
  by (auto simp: lock_release_def same_sched_def split: if_splits lockref.splits
           dest!: spinlock_release_SomeD sleeplock_release_frame)

lemma leaving_same: "same_sched k k' \<Longrightarrow> same_sched (leaving c t st k) (leaving c t st k')"
  by (auto simp: same_sched_def leaving_def Let_def)

lemma sched_sched_SomeD:
  assumes "sched_sched c st lock k = Some (d, k')"
  obtains k0 k1 k2 where "spinlock_acquire c sched_lock k = Some k0"
    "(case lock of None \<Rightarrow> k1 = leaving c (running k c) st k0 | Some l \<Rightarrow> lock_release c l (leaving c (running k c) st k0) = Some k1)"
    "sched c k1 = Some (d, k2)" "same_sched k2 k'"
proof -
  from assms obtain k0 where k0: "spinlock_acquire c sched_lock k = Some k0"
    unfolding sched_sched_def Let_def by (elim bind_SomeE)
  with assms have "do { k1 \<leftarrow> (case lock of None \<Rightarrow> Some (leaving c (running k c) st k0)
        | Some l \<Rightarrow> lock_release c l (leaving c (running k c) st k0));
      (dying, k2) \<leftarrow> sched c k1;
      k3 \<leftarrow> spinlock_release c sched_lock k2;
      case dying of None \<Rightarrow> Some (None, k3)
        | Some d \<Rightarrow> do { kassert (running k3 c \<noteq> d); Some (Some d, k3) } } = Some (d, k')"
    by (simp add: sched_sched_def Let_def)
  then obtain k1 where
    k1: "(case lock of None \<Rightarrow> Some (leaving c (running k c) st k0) | Some l \<Rightarrow> lock_release c l (leaving c (running k c) st k0)) = Some k1"
    and rest: "do { (dying, k2) \<leftarrow> sched c k1;
      k3 \<leftarrow> spinlock_release c sched_lock k2;
      case dying of None \<Rightarrow> Some (None, k3)
        | Some d \<Rightarrow> do { kassert (running k3 c \<noteq> d); Some (Some d, k3) } } = Some (d, k')"
    by (rule bind_SomeE)
  from rest obtain d2 k2 k3 where k2: "sched c k1 = Some (d2, k2)"
    and k3: "spinlock_release c sched_lock k2 = Some k3"
    and "(case d2 of None \<Rightarrow> Some (None, k3)
           | Some x \<Rightarrow> do { kassert (running k3 c \<noteq> x); Some (Some x, k3) }) = Some (d, k')"
    by (elim bind_SomeE) (auto elim: bind_SomeE)
  then have "d2 = d" "k3 = k'" by (auto split: option.splits if_splits)
  with k0 k1 k2 spinlock_release_SomeD [OF k3] show ?thesis
    by (intro that [of k0 k1 k2]) (auto split: option.splits)
qed

lemma sched_sched_inv:
  assumes inv: "sched_inv n (Some c) (leaving c (running k c) st k)" and c: "c < n" and st: "st \<noteq> RUNNING"
    and step: "sched_sched c st lock k = Some (d, k')"
  shows "sched_inv n None k'"
proof -
  obtain k0 k1 k2 where k0: "spinlock_acquire c sched_lock k = Some k0"
    and k1: "(case lock of None \<Rightarrow> k1 = leaving c (running k c) st k0 | Some l \<Rightarrow> lock_release c l (leaving c (running k c) st k0) = Some k1)"
    and k2: "sched c k1 = Some (d, k2)" and same: "same_sched k2 k'"
    using step by (rule sched_sched_SomeD)
  have "same_sched k k0" using spinlock_acquire_SomeD [OF k0] by simp
  then have run: "running k0 = running k" and inv0: "sched_inv n (Some c) (leaving c (running k c) st k0)"
    using inv sched_inv_same leaving_same by (simp_all add: same_sched_def, metis)
  then have "sched_inv n (Some c) k1"
    using k1 by (auto split: option.splits intro: lock_release_inv)
  moreover have "tstate k1 (running k1 c) \<noteq> RUNNING"
    using k1 st run lock_release_frame [of c _ "leaving c (running k c) st k0" k1]
    by (auto simp: leaving_def Let_def split: option.splits if_splits) (metis threadstate.distinct(1))+
  ultimately have "sched_inv n None k2" using c k2 by (blast intro: sched_inv_sched)
  with same sched_inv_same show ?thesis by blast
qed

lemma yield_inv:
  assumes "sched_inv n None k" "c < n" "sched_sched c READY None k = Some (d, k')"
  shows "sched_inv n None k'"
  by (rule sched_sched_inv [OF sched_inv_leave_ready [OF assms(1,2)] assms(2) _ assms(3)]) simp

lemma exit_inv:
  assumes "sched_inv n None k" "c < n" "sched_sched c ZOMBIE None k = Some (d, k')"
  shows "sched_inv n None k'"
  using sched_inv_leave_zombie [OF assms(1,2)] assms
  by (intro sched_sched_inv [OF _ assms(2) _ assms(3)]) (simp_all add: leaving_def Let_def)

lemma condvar_wait_inv:
  assumes inv: "sched_inv n None k" "c < n" and ni: "\<not> is_idle n k (running k c)"
    and step: "condvar_wait c cv lock k = Some (d, k')"
  shows "sched_inv n None k'"
proof (cases "synch_enabled k")
  case True
  from step True have "sched_sched c SLEEPING (Some lock)
      (k\<lparr>condvars := (condvars k)(cv := condvars k cv @ [running k c])\<rparr>) = Some (d, k')"
    by (auto simp: condvar_wait_def Let_def split: if_splits)
  then show ?thesis
    using sched_inv_leave_sleep [OF inv ni, of cv]
    by (intro sched_sched_inv [OF _ inv(2)]) (simp_all add: leaving_def Let_def)
qed (use assms in \<open>simp add: condvar_wait_def\<close>)

lemma sleeplock_acquire_inv:
  assumes inv: "sched_inv n None k" "c < n" and ni: "\<not> is_idle n k (running k c)"
    and step: "sleeplock_acquire c l k = Some (b, k')"
  shows "sched_inv n None k'"
proof (cases "synch_enabled k")
  case True
  with step obtain k1 where k1: "spinlock_acquire c (lk (sleeps k l)) k = Some k1"
    by (auto simp: sleeplock_acquire_def elim!: bind_SomeE)
  have inv1: "sched_inv n None k1" using spinlock_acquire_inv [OF k1] inv by simp
  have ni1: "\<not> is_idle n k1 (running k1 c)"
    using spinlock_acquire_SomeD [OF k1] ni by (simp add: same_sched_def is_idle_def)
  show ?thesis
  proof (cases "sl_holder (sleeps k1 l)")
    case None
    with step True k1 inv1 show ?thesis
      by (auto simp: sleeplock_acquire_def Let_def spinlock_release_inv elim!: bind_SomeE)
  next
    case Some
    with step True k1 show ?thesis
      by (auto simp: sleeplock_acquire_def elim!: bind_SomeE intro: condvar_wait_inv [OF inv1 inv(2) ni1])
  qed
qed (use assms in \<open>simp add: sleeplock_acquire_def\<close>)

lemma sleeplock_try_acquire_inv:
  assumes "sched_inv n oc k" "sleeplock_try_acquire c l k = Some (r, k')"
  shows "sched_inv n oc k'"
  using assms
  by (auto simp: sleeplock_try_acquire_def Let_def spinlock_release_inv spinlock_acquire_inv
           elim!: bind_SomeE split: if_splits)

lemma sched_start_inv:
  assumes inv: "sched_inv n None k" and c: "c < n" and step: "sched_start c k = Some (r, k')"
  shows "sched_inv n None k'"
proof -
  let ?k = "k\<lparr>cpus := (cpus k)(c := (cpus k c)\<lparr>idle_thread := Some (running k c)\<rparr>)\<rparr>"
  from step have no: "idle_thread (cpus k c) = None" and lev: "set_level c INTR_ON ?k = Some k'"
    by (auto simp: sched_start_def cpu_set_idle_thread_def elim!: bind_SomeE split: if_splits)
  have iok: "idles_ok n k" and qok: "queues_ok n k" using inv by (auto simp: sched_inv_def)
  have keep: "is_idle n ?k t" if "c' < n" "idle_thread (cpus k c') = Some t" for c' t
    using that no by (auto simp: is_idle_def intro!: exI [of _ c'])
  have self: "is_idle n ?k (running k c)" using c by (auto simp: is_idle_def intro!: exI [of _ c])
  have idle: "is_idle n ?k t \<longleftrightarrow> is_idle n k t \<or> t = running k c" for t
  proof
    assume "is_idle n ?k t"
    then show "is_idle n k t \<or> t = running k c" by (auto simp: is_idle_def split: if_splits)
  next
    assume "is_idle n k t \<or> t = running k c"
    then show "is_idle n ?k t" using keep self unfolding is_idle_def [of n k] by blast
  qed
  have "queues_ok n ?k"
    using qok running_not_queued [OF inv c] unfolding queues_ok_def by (auto simp: idle)
  moreover have "idles_ok n ?k"
  proof -
    have i1: "a = b" if "a < n" "b < n" "idle_thread (cpus k a) = Some (running k b)" for a b
      using iok that unfolding idles_ok_def by blast
    have i2: "a = b" if "a < n" "b < n" "idle_thread (cpus k a) = Some t"
        "idle_thread (cpus k b) = Some t" for a b t
      using iok that unfolding idles_ok_def by (metis option.distinct(1))
    have "a = b" if "a < n" "b < n" "idle_thread (cpus ?k a) = Some (running k b)" for a b
      using that i1 [of a b] running_unique [OF inv c, of b] by (cases "a = c") simp_all
    moreover have "a = b" if "a < n" "b < n" "idle_thread (cpus ?k a) = Some t"
        "idle_thread (cpus ?k b) = Some t" for a b t
      using that i2 [of a b t] i1 [of a c] i1 [of b c] c by (cases "a = c"; cases "b = c") simp_all
    ultimately show ?thesis unfolding idles_ok_def by fastforce
  qed
  moreover have "placed n ?k t = placed n k t" for t by (simp add: placed_def)
  ultimately have "sched_inv n None ?k"
    using inv unfolding sched_inv_def by (auto simp: idle)
  with set_level_same [OF lev] sched_inv_same show ?thesis by blast
qed

text \<open>Everything the kernel does to its threads, one operation of one processor at a time. A thread
  made ready for the first time (\<^verbatim>\<open>thread_start_context\<close>) is in no queue yet. Idle threads do not
  wait: they only yield. After \<open>Wait\<close> the woken thread goes on with an acquire step.\<close>

inductive kstep :: "nat \<Rightarrow> kst \<Rightarrow> kst \<Rightarrow> bool" for n where
  Start: "c < n \<Longrightarrow> sched_start c k = Some (r, k') \<Longrightarrow> kstep n k k'"
| New: "\<not> is_idle n k t \<Longrightarrow> t \<notin> set (ready_queue k) \<Longrightarrow> \<forall>cv. t \<notin> set (condvars k cv) \<Longrightarrow>
    \<forall>c<n. running k c \<noteq> t \<Longrightarrow> sched_ready c t k = Some k' \<Longrightarrow> kstep n k k'"
| Yield: "c < n \<Longrightarrow> sched_sched c READY None k = Some (d, k') \<Longrightarrow> kstep n k k'"
| Exit: "c < n \<Longrightarrow> sched_sched c ZOMBIE None k = Some (d, k') \<Longrightarrow> kstep n k k'"
| Wait: "c < n \<Longrightarrow> \<not> is_idle n k (running k c) \<Longrightarrow> condvar_wait c cv lock k = Some (d, k') \<Longrightarrow> kstep n k k'"
| Signal: "condvar_signal c cv k = Some k' \<Longrightarrow> kstep n k k'"
| Broadcast: "condvar_broadcast c cv k = Some k' \<Longrightarrow> kstep n k k'"
| SpinAcquire: "spinlock_acquire c l k = Some k' \<Longrightarrow> kstep n k k'"
| SpinTry: "spinlock_try_acquire c l k = Some (r, k') \<Longrightarrow> kstep n k k'"
| SpinRelease: "spinlock_release c l k = Some k' \<Longrightarrow> kstep n k k'"
| SleepAcquire: "c < n \<Longrightarrow> \<not> is_idle n k (running k c) \<Longrightarrow> sleeplock_acquire c l k = Some (b, k') \<Longrightarrow>
    kstep n k k'"
| SleepTry: "sleeplock_try_acquire c l k = Some (r, k') \<Longrightarrow> kstep n k k'"
| SleepRelease: "sleeplock_release c l k = Some k' \<Longrightarrow> kstep n k k'"

lemma kstep_inv:
  assumes "kstep n k k'" "sched_inv n None k"
  shows "sched_inv n None k'"
  using assms
proof cases
  case SpinTry
  then show ?thesis using assms(2) spinlock_try_acquire_SomeD sched_inv_same by blast
qed (blast intro: sched_start_inv sched_inv_ready yield_inv exit_inv condvar_wait_inv condvar_signal_inv
      condvar_broadcast_inv sleeplock_acquire_inv sleeplock_try_acquire_inv sleeplock_release_inv
      spinlock_acquire_inv [THEN iffD2] spinlock_release_inv [THEN iffD2])+

text \<open>The machine when \<^verbatim>\<open>synch_init\<close> has been called: processor \<open>c\<close> runs its boot thread, with
  interrupts off and no idle thread yet.\<close>

definition boot :: kst where
  "boot = \<lparr>ready_queue = [], tstate = (\<lambda>_. RUNNING), started = (\<lambda>_. False),
     cpus = (\<lambda>_. \<lparr>num_disabled = 0, intr_enabled = False, eflags_if = False, cpu_thread = None,
                  idle_thread = None\<rparr>),
     running = (\<lambda>c. c), spins = (\<lambda>_. \<lparr>lock_status = False, holder = None\<rparr>),
     sleeps = (\<lambda>l. \<lparr>lk = 2 * l + 1, waiters = l, sl_holder = None\<rparr>),
     condvars = (\<lambda>_. []), synch_enabled = True\<rparr>"

lemma boot_inv: "sched_inv n None boot"
  by (simp add: boot_def sched_inv_def queues_ok_def idles_ok_def is_idle_def inj_on_def)

lemma kreach_inv:
  assumes "(kstep n)\<^sup>*\<^sup>* boot k"
  shows "sched_inv n None k"
  using assms by induction (auto intro: boot_inv kstep_inv)

subsection \<open>What locks promise\<close>

text \<open>Runs of one lock: \<open>owners\<close> are the threads between a successful acquire and their release.
  Anything else may happen in between as long as it leaves the lock alone.\<close>

inductive lock_run ::
  "(kst \<Rightarrow> addr \<Rightarrow> tid option) \<Rightarrow> (nat \<Rightarrow> addr \<Rightarrow> kst \<Rightarrow> kst \<Rightarrow> bool) \<Rightarrow> (nat \<Rightarrow> addr \<Rightarrow> kst \<Rightarrow> kst \<Rightarrow> bool) \<Rightarrow>
   addr \<Rightarrow> kst \<Rightarrow> kst \<Rightarrow> tid set \<Rightarrow> bool" for own acq rel l k0 where
  Run_init: "lock_run own acq rel l k0 k0 {}"
| Run_acquire: "lock_run own acq rel l k0 k owners \<Longrightarrow> acq c l k k' \<Longrightarrow>
    lock_run own acq rel l k0 k' (insert (running k c) owners)"
| Run_release: "lock_run own acq rel l k0 k owners \<Longrightarrow> running k c \<in> owners \<Longrightarrow> rel c l k k' \<Longrightarrow>
    lock_run own acq rel l k0 k' (owners - {running k c})"
| Run_other: "lock_run own acq rel l k0 k owners \<Longrightarrow> own k' l = own k l \<Longrightarrow>
    synch_enabled k' = synch_enabled k \<Longrightarrow> lock_run own acq rel l k0 k' owners"

locale mutex =
  fixes own :: "kst \<Rightarrow> addr \<Rightarrow> tid option"
    and acq :: "nat \<Rightarrow> addr \<Rightarrow> kst \<Rightarrow> kst \<Rightarrow> bool"
    and rel :: "nat \<Rightarrow> addr \<Rightarrow> kst \<Rightarrow> kst \<Rightarrow> bool"
  assumes acq_own: "synch_enabled k \<Longrightarrow> acq c l k k' \<Longrightarrow>
      own k l = None \<and> own k' l = Some (running k c) \<and> synch_enabled k'"
    and rel_own: "synch_enabled k \<Longrightarrow> rel c l k k' \<Longrightarrow> own k' l = None \<and> synch_enabled k'"
begin

lemma run_owner:
  assumes "lock_run own acq rel l k0 k owners" "synch_enabled k0" "own k0 l = None"
  shows "synch_enabled k \<and> owners = set_option (own k l)"
  using assms
proof (induction rule: lock_run.induct)
  case (Run_acquire k owners c k')
  then show ?case using acq_own [of k c l k'] by auto
next
  case (Run_release k owners c k')
  then show ?case using rel_own [of k c l k'] by auto
qed auto

lemma run_exclusive:
  assumes "lock_run own acq rel l k0 k owners" "synch_enabled k0" "own k0 l = None"
    "s \<in> owners" "t \<in> owners"
  shows "s = t"
  using run_owner [OF assms(1-3)] assms(4,5) by auto

end

definition spin_own :: "kst \<Rightarrow> addr \<Rightarrow> tid option" where
  "spin_own k l = (if lock_status (spins k l) then holder (spins k l) else None)"

definition sleep_own :: "kst \<Rightarrow> addr \<Rightarrow> tid option" where
  "sleep_own k l = sl_holder (sleeps k l)"

interpretation spin: mutex spin_own "\<lambda>c l k k'. spinlock_acquire c l k = Some k'"
  "\<lambda>c l k k'. spinlock_release c l k = Some k'"
proof
  fix k k' :: kst and c l
  assume "synch_enabled k"
  then show "spinlock_acquire c l k = Some k' \<Longrightarrow>
      spin_own k l = None \<and> spin_own k' l = Some (running k c) \<and> synch_enabled k'"
    and "spinlock_release c l k = Some k' \<Longrightarrow> spin_own k' l = None \<and> synch_enabled k'"
    by (auto simp: spin_own_def same_sched_def dest!: spinlock_acquire_SomeD spinlock_release_SomeD)
qed

text \<open>The effect of the sleeplock operations on the lock and its waiters.\<close>

lemma sched_sched_spin_frame:
  assumes "sched_sched c st (Some (Spin l)) k = Some (d, k')"
  shows "sleeps k' = sleeps k \<and> condvars k' = condvars k \<and> synch_enabled k' = synch_enabled k"
  using assms
proof (rule sched_sched_SomeD)
  fix k0 k1 k2
  assume k0: "spinlock_acquire c sched_lock k = Some k0"
    and k1: "(case Some (Spin l) of None \<Rightarrow> k1 = leaving c (running k c) st k0
       | Some l \<Rightarrow> lock_release c l (leaving c (running k c) st k0) = Some k1)"
    and k2: "sched c k1 = Some (d, k2)" and same: "same_sched k2 k'"
  have "sleeps k1 = sleeps k0 \<and> condvars k1 = condvars k0 \<and> synch_enabled k1 = synch_enabled k0"
    using k1 by (auto simp: lock_release_def leaving_def Let_def same_sched_def
        dest!: spinlock_release_SomeD split: if_splits)
  moreover have "sleeps k2 = sleeps k1 \<and> condvars k2 = condvars k1 \<and> synch_enabled k2 = synch_enabled k1"
    using k2 by (rule sched_SomeD) (simp add: same_sched_def enter_def)
  ultimately show ?thesis
    using spinlock_acquire_SomeD [OF k0] same by (simp add: same_sched_def)
qed

lemma sleeplock_acquire_effect:
  assumes "synch_enabled k" "sleeplock_acquire c l k = Some (b, k')"
  shows "synch_enabled k' \<and>
    (if b then sl_holder (sleeps k l) = None \<and> condvars k' = condvars k \<and>
       sleeps k' = (sleeps k)(l := (sleeps k l)\<lparr>sl_holder := Some (running k c)\<rparr>)
     else sl_holder (sleeps k l) \<noteq> None \<and> sleeps k' = sleeps k \<and>
       condvars k' = (condvars k)(waiters (sleeps k l) := condvars k (waiters (sleeps k l)) @ [running k c]))"
proof -
  from assms obtain k1 where k1: "spinlock_acquire c (lk (sleeps k l)) k = Some k1"
    by (auto simp: sleeplock_acquire_def elim!: bind_SomeE)
  then have same: "same_sched k k1" by (simp add: spinlock_acquire_SomeD)
  show ?thesis
  proof (cases "sl_holder (sleeps k1 l)")
    case None
    with assms k1 same show ?thesis
      by (auto simp: sleeplock_acquire_def Let_def same_sched_def elim!: bind_SomeE
          dest!: spinlock_release_SomeD)
  next
    case (Some t)
    with assms k1 same show ?thesis
      by (auto simp: sleeplock_acquire_def condvar_wait_def Let_def same_sched_def
          elim!: bind_SomeE dest!: sched_sched_spin_frame split: if_splits)
  qed
qed

lemma sleeplock_release_effect:
  assumes "synch_enabled k" "sleeplock_release c l k = Some k'"
  shows "synch_enabled k' \<and> sl_holder (sleeps k l) = Some (running k c) \<and>
    sleeps k' = (sleeps k)(l := (sleeps k l)\<lparr>sl_holder := None\<rparr>) \<and>
    condvars k' = (condvars k)(waiters (sleeps k l) := tl (condvars k (waiters (sleeps k l))))"
proof -
  from assms obtain k1 k2 where own: "sl_holder (sleeps k l) = Some (running k c)"
    and k1: "spinlock_acquire c (lk (sleeps k l)) k = Some k1"
    and k2: "condvar_signal c (waiters (sleeps k1 l))
      (k1\<lparr>sleeps := (sleeps k1)(l := (sleeps k1 l)\<lparr>sl_holder := None\<rparr>)\<rparr>) = Some k2"
    and k3: "spinlock_release c (lk (sleeps k2 l)) k2 = Some k'"
    by (auto simp: sleeplock_release_def Let_def elim!: bind_SomeE split: if_splits)
  have same: "same_sched k k1" "same_sched k2 k'"
    using spinlock_acquire_SomeD [OF k1] spinlock_release_SomeD [OF k3] by simp_all
  have "sleeps k2 = (sleeps k1)(l := (sleeps k1 l)\<lparr>sl_holder := None\<rparr>) \<and>
    condvars k2 = (condvars k1)(waiters (sleeps k1 l) := tl (condvars k1 (waiters (sleeps k1 l)))) \<and>
    synch_enabled k2"
    using k2 same assms(1)
    by (auto simp: condvar_signal_def same_sched_def fun_upd_idem dest!: sched_ready_SomeD
        split: if_splits list.splits)
  with own same assms(1) show ?thesis by (simp add: same_sched_def)
qed

interpretation sleep: mutex sleep_own "\<lambda>c l k k'. sleeplock_acquire c l k = Some (True, k')"
  "\<lambda>c l k k'. sleeplock_release c l k = Some k'"
  by unfold_locales (auto simp: sleep_own_def dest: sleeplock_acquire_effect sleeplock_release_effect)

subsection \<open>No wakeup of a sleeplock is lost\<close>

text \<open>Runs of one sleeplock with its waiters: \<open>woken\<close> are the threads that a release took off the
  waiters and that have not tried again yet. A step that is not an operation on this lock leaves
  the lock and its waiters alone.\<close>

inductive sleep_run :: "addr \<Rightarrow> kst \<Rightarrow> kst \<Rightarrow> tid set \<Rightarrow> bool" for l k0 where
  Sleep_init: "sleep_run l k0 k0 {}"
| Sleep_acquire: "sleep_run l k0 k W \<Longrightarrow> sleeplock_acquire c l k = Some (b, k') \<Longrightarrow>
    sleep_run l k0 k' (W - {running k c})"
| Sleep_release: "sleep_run l k0 k W \<Longrightarrow> sleeplock_release c l k = Some k' \<Longrightarrow>
    sleep_run l k0 k' (W \<union> set (take 1 (condvars k (waiters (sleeps k l)))))"
| Sleep_other: "sleep_run l k0 k W \<Longrightarrow> sleeps k' l = sleeps k l \<Longrightarrow>
    condvars k' (waiters (sleeps k l)) = condvars k (waiters (sleeps k l)) \<Longrightarrow>
    synch_enabled k' = synch_enabled k \<Longrightarrow> sleep_run l k0 k' W"

lemma sleep_run_inv:
  assumes "sleep_run l k0 k W" "synch_enabled k0" "condvars k0 (waiters (sleeps k0 l)) = []"
  shows "synch_enabled k \<and>
    (condvars k (waiters (sleeps k l)) \<noteq> [] \<longrightarrow> sl_holder (sleeps k l) \<noteq> None \<or> W \<noteq> {})"
  using assms
proof (induction rule: sleep_run.induct)
  case (Sleep_acquire k W c b k')
  then show ?case using sleeplock_acquire_effect [of k c l b k'] by (auto split: if_splits)
next
  case (Sleep_release k W c k')
  then show ?case
    using sleeplock_release_effect [of k c l k']
    by (cases "condvars k (waiters (sleeps k l))") auto
qed auto

subsection \<open>The spinlock protocol, one memory access at a time\<close>

text \<open>The threads execute \<^verbatim>\<open>spinlock_acquire\<close> and \<^verbatim>\<open>spinlock_release\<close> on one lock; each step
  is one access to the shared words \<^verbatim>\<open>lock_status\<close> and \<^verbatim>\<open>holder\<close>, in the order the
  barriers of the code enforce. \<open>Outside\<close>: not in the lock code; \<open>Test\<close>: the recursion check has
  passed, about to read \<^verbatim>\<open>lock_status\<close>; \<open>Tas\<close>: about to execute the atomic test-and-set;
  \<open>Got\<close>: it returned 0; \<open>Crit\<close>: \<^verbatim>\<open>holder\<close> is set; \<open>Drop\<close>: \<^verbatim>\<open>holder\<close> is cleared, about
  to clear \<^verbatim>\<open>lock_status\<close>; \<open>Panicked\<close>: the recursion check failed.\<close>

datatype pc = Outside | Test | Tas | Got | Crit | Drop | Panicked

record tas =
  word :: bool
  hold :: "tid option"
  pcs :: "tid \<Rightarrow> pc"

definition go :: "tid \<Rightarrow> pc \<Rightarrow> tas \<Rightarrow> tas" where
  "go t p s = s\<lparr>pcs := (pcs s)(t := p)\<rparr>"

fun tas_next :: "tid \<Rightarrow> tas \<Rightarrow> tas" where
  "tas_next t s =
     (case pcs s t of
        Outside \<Rightarrow> if hold s = Some t then go t Panicked s else go t Test s
      | Test \<Rightarrow> if word s then s else go t Tas s
      | Tas \<Rightarrow> if word s then go t Test s else go t Got (s\<lparr>word := True\<rparr>)
      | Got \<Rightarrow> go t Crit (s\<lparr>hold := Some t\<rparr>)
      | Crit \<Rightarrow> go t Drop (s\<lparr>hold := None\<rparr>)
      | Drop \<Rightarrow> go t Outside (s\<lparr>word := False\<rparr>)
      | Panicked \<Rightarrow> s)"

definition tas_init :: tas where
  "tas_init = \<lparr>word = False, hold = None, pcs = (\<lambda>_. Outside)\<rparr>"

text \<open>An interleaving is the sequence of the threads that move.\<close>

fun tas_run :: "tid list \<Rightarrow> tas \<Rightarrow> tas" where
  "tas_run [] s = s"
| "tas_run (t # ts) s = tas_run ts (tas_next t s)"

definition inside :: "tas \<Rightarrow> tid \<Rightarrow> bool" where
  "inside s t \<longleftrightarrow> pcs s t \<in> {Got, Crit, Drop}"

definition tas_ok :: "tas \<Rightarrow> bool" where
  "tas_ok s \<longleftrightarrow> (\<forall>t u. inside s t \<longrightarrow> inside s u \<longrightarrow> t = u) \<and> (word s \<longleftrightarrow> (\<exists>t. inside s t)) \<and>
     (\<forall>t. hold s = Some t \<longleftrightarrow> pcs s t = Crit) \<and> (\<forall>t. pcs s t \<noteq> Panicked)"

lemma go_simps [simp]:
  "word (go t p s) = word s" "hold (go t p s) = hold s" "pcs (go t p s) = (pcs s)(t := p)"
  "inside (go t p s) u = (if u = t then p \<in> {Got, Crit, Drop} else inside s u)"
  "inside (s\<lparr>word := w\<rparr>) u = inside s u" "inside (s\<lparr>hold := h\<rparr>) u = inside s u"
  by (auto simp: go_def inside_def)

text \<open>A move of \<open>t\<close> that stays on its side of the lock, keeps the word, and updates \<open>hold\<close> with its
  own state.\<close>

lemma tas_ok_go:
  assumes ok: "tas_ok s" and p: "p \<noteq> Panicked" "p \<in> {Got, Crit, Drop} \<longleftrightarrow> inside s t"
    and h: "h = (if p = Crit then Some t else if pcs s t = Crit then None else hold s)"
  shows "tas_ok (go t p (s\<lparr>hold := h\<rparr>))"
proof -
  have ins: "inside (go t p (s\<lparr>hold := h\<rparr>)) = inside s" using p(2) by (auto simp: fun_eq_iff)
  have "hold s = Some u \<longleftrightarrow> pcs s u = Crit" for u using ok by (simp add: tas_ok_def)
  moreover have "u = t" if "p = Crit" "pcs s u = Crit" for u
    using ok that p(2) by (auto simp: tas_ok_def inside_def)
  moreover have "u = t" if "pcs s t = Crit" "pcs s u = Crit" for u
    using ok that by (auto simp: tas_ok_def inside_def)
  ultimately have "h = Some u \<longleftrightarrow> ((pcs s)(t := p)) u = Crit" for u
    unfolding h by (cases "u = t") auto
  then show ?thesis using ok p(1) unfolding tas_ok_def ins by auto
qed

lemma tas_ok_next:
  assumes ok: "tas_ok s"
  shows "tas_ok (tas_next t s)"
proof (cases "pcs s t")
  case Outside
  then have "hold s \<noteq> Some t" using ok by (simp add: tas_ok_def)
  with Outside tas_ok_go [OF ok, of Test t "hold s"] show ?thesis by (simp add: inside_def)
next
  case Test
  with ok tas_ok_go [OF ok, of Tas t "hold s"] show ?thesis by (simp add: inside_def)
next
  case Tas
  show ?thesis
  proof (cases "word s")
    case True
    with Tas tas_ok_go [OF ok, of Test t "hold s"] show ?thesis by (simp add: inside_def)
  next
    case False
    then have "\<not> inside s u" "pcs s u \<noteq> Crit" for u
      using ok by (auto simp: tas_ok_def inside_def)
    with Tas False ok show ?thesis by (auto simp: tas_ok_def)
  qed
next
  case Got
  with tas_ok_go [OF ok, of Crit t "Some t"] show ?thesis by (simp add: inside_def)
next
  case Crit
  with tas_ok_go [OF ok, of Drop t None] show ?thesis by (simp add: inside_def)
next
  case Drop
  then have "inside s t" by (simp add: inside_def)
  then have "\<not> inside s u" if "u \<noteq> t" for u
    using ok that by (auto simp: tas_ok_def)
  with Drop ok show ?thesis by (auto simp: tas_ok_def)
qed (use ok in \<open>simp add: tas_ok_def\<close>)

lemma tas_ok_run: "tas_ok s \<Longrightarrow> tas_ok (tas_run ts s)"
  by (induction ts arbitrary: s) (auto simp del: tas_next.simps intro: tas_ok_next)

lemma tas_ok_init: "tas_ok tas_init"
  by (simp add: tas_ok_def tas_init_def inside_def)

subsection \<open>Properties\<close>

lemma set_levels_ok: "cpu_ok p \<Longrightarrow> set_levels ls p = Some q \<Longrightarrow> cpu_ok q"
  by (induction ls arbitrary: p) (auto elim!: bind_SomeE intro: intr_set_level_ok)

text \<open>C19: Nested interrupt disabling is balanced. Any bracketed sequence of \<^verbatim>\<open>intr_set_level\<close> calls
  runs without a failed assertion and leaves the interrupt flag and the nesting count as it found
  them, and interrupts are off at every point where the count is positive.\<close>

theorem intr_nesting:
  assumes "cpu_ok p" "bracketed 0 ls"
  shows "(\<exists>q. set_levels ls p = Some q \<and> eflags_if q = eflags_if p \<and> num_disabled q = num_disabled p) \<and>
    (\<forall>i r. set_levels (take i ls) p = Some r \<and> num_disabled r > 0 \<longrightarrow> \<not> eflags_if r)"
proof
  have "nested p 0 p" by (simp add: nested_def)
  from set_levels_nested [OF assms(1) this assms(2)]
  show "\<exists>q. set_levels ls p = Some q \<and> eflags_if q = eflags_if p \<and> num_disabled q = num_disabled p"
    by (auto simp: nested_def)
  show "\<forall>i r. set_levels (take i ls) p = Some r \<and> num_disabled r > 0 \<longrightarrow> \<not> eflags_if r"
    using set_levels_ok [OF assms(1)] by (auto simp: cpu_ok_def)
qed

theorem intr_nesting_witness:
  "\<exists>q. set_levels [INTR_OFF, INTR_OFF, INTR_ON, INTR_ON]
      \<lparr>num_disabled = 0, intr_enabled = False, eflags_if = True, cpu_thread = None, idle_thread = None\<rparr> = Some q \<and>
    eflags_if q \<and> num_disabled q = 0"
  using intr_nesting [of
      "\<lparr>num_disabled = 0, intr_enabled = False, eflags_if = True, cpu_thread = None, idle_thread = None\<rparr>"
      "[INTR_OFF, INTR_OFF, INTR_ON, INTR_ON]"]
  by (simp add: cpu_ok_def)

text \<open>C15: In every state the kernel reaches from boot through scheduler, condition variable and
  lock operations, every thread is in one place only. No two processors run the same thread, the
  ready queue holds ready threads that run nowhere, each at most once, a thread waits on at most one
  condition variable and is then neither queued nor running, and no thread that has ever run and is
  not an idle thread is lost.\<close>

theorem sched_threads_placed:
  assumes "(kstep n)\<^sup>*\<^sup>* boot k"
  shows "inj_on (running k) {..<n} \<and>
    distinct (ready_queue k) \<and>
    (\<forall>t\<in>set (ready_queue k). tstate k t = READY \<and> t \<notin> running k ` {..<n}) \<and>
    (\<forall>cv. \<forall>t\<in>set (condvars k cv). tstate k t = SLEEPING \<and> t \<notin> running k ` {..<n} \<and>
       t \<notin> set (ready_queue k) \<and> (\<forall>cv'. t \<in> set (condvars k cv') \<longrightarrow> cv' = cv)) \<and>
    (\<forall>t. started k t \<and> \<not> is_idle n k t \<longrightarrow>
       t \<in> set (ready_queue k) \<or> (\<exists>cv. t \<in> set (condvars k cv)) \<or> t \<in> running k ` {..<n} \<or> tstate k t = ZOMBIE)"
proof -
  have inv: "sched_inv n None k" by (rule kreach_inv [OF assms])
  then have run: "tstate k t = RUNNING" if "t \<in> running k ` {..<n}" for t
    using that by (auto simp: sched_inv_def)
  have q: "queues_ok n k" using inv by (simp add: sched_inv_def)
  have "cv' = cv" if "t \<in> set (condvars k cv)" "t \<in> set (condvars k cv')" for t cv cv'
    using q that unfolding queues_ok_def by blast
  moreover have "t \<in> set (ready_queue k) \<or> (\<exists>cv. t \<in> set (condvars k cv)) \<or> t \<in> running k ` {..<n} \<or> tstate k t = ZOMBIE"
    if "started k t" "\<not> is_idle n k t" for t
    using inv that by (cases "tstate k t") (auto simp: sched_inv_def placed_def)
  moreover have "\<forall>t\<in>set (ready_queue k). tstate k t = READY \<and> t \<notin> running k ` {..<n}"
    "\<forall>cv. \<forall>t\<in>set (condvars k cv). tstate k t = SLEEPING \<and> t \<notin> running k ` {..<n} \<and> t \<notin> set (ready_queue k)"
    using q run unfolding queues_ok_def by fastforce+
  ultimately show ?thesis using inv q by (auto simp: sched_inv_def queues_ok_def)
qed

text \<open>A thread made ready at boot, on two processors.\<close>

theorem sched_threads_placed_witness:
  "\<exists>k. (kstep 2)\<^sup>*\<^sup>* boot k \<and> ready_queue k = [7] \<and> inj_on (running k) {..<2} \<and> 7 \<notin> running k ` {..<2}"
proof -
  obtain k where k: "sched_ready 0 7 boot = Some k" "ready_queue k = [7]"
    by (simp add: sched_ready_def spinlock_acquire_def spinlock_release_def set_level_def
        intr_set_level_def intr_get_level_def Let_def boot_def)
  have "kstep 2 boot k"
    by (rule New [OF _ _ _ _ k(1)]) (auto simp: boot_def is_idle_def)
  then have "(kstep 2)\<^sup>*\<^sup>* boot k" by simp
  with sched_threads_placed [OF this] k(2) show ?thesis by auto
qed

text \<open>C16: Mutual exclusion of the spinlock at the level of its memory accesses. Whatever the order in
  which threads execute the reads, writes and test-and-sets of \<^verbatim>\<open>spinlock_acquire\<close> and
  \<^verbatim>\<open>spinlock_release\<close>, at most one of them is past its acquire, \<^verbatim>\<open>holder\<close> names exactly the
  thread in the critical section, and the check for recursive acquisition never panics.\<close>

theorem spinlock_mutual_exclusion:
  "(\<forall>t u. inside (tas_run ts tas_init) t \<and> inside (tas_run ts tas_init) u \<longrightarrow> t = u) \<and>
   (\<forall>t. hold (tas_run ts tas_init) = Some t \<longleftrightarrow> pcs (tas_run ts tas_init) t = Crit) \<and>
   (\<forall>t. pcs (tas_run ts tas_init) t \<noteq> Panicked)"
  using tas_ok_run [OF tas_ok_init, of ts] by (auto simp: tas_ok_def)

theorem spinlock_mutual_exclusion_witness:
  "inside (tas_run [1, 2, 1, 2, 1, 2, 1, 2] tas_init) 1 \<and> \<not> inside (tas_run [1, 2, 1, 2, 1, 2, 1, 2] tas_init) 2"
  using spinlock_mutual_exclusion [of "[1, 2, 1, 2, 1, 2, 1, 2]"]
  by (auto simp: tas_init_def go_def inside_def)




text \<open>Two processors with an idle thread each; thread 10 holds the lock when thread 11 asks for it.\<close>

definition two_cpus :: kst where
  "two_cpus = boot\<lparr>running := (\<lambda>c. c + 10),
     cpus := (\<lambda>c. \<lparr>num_disabled = 0, intr_enabled = False, eflags_if = True, cpu_thread = None,
                   idle_thread = Some c\<rparr>),
     sleeps := (\<lambda>l. \<lparr>lk = 2 * l + 1, waiters = l, sl_holder = Some 10\<rparr>)\<rparr>"


text \<open>C20: Waiting on a condition variable with a sleeplock does not work when another thread waits for
  that sleeplock: \<^verbatim>\<open>sched_sched\<close> holds \<^verbatim>\<open>sched_lock\<close> when it releases the sleeplock, which signals
  the waiter, which takes \<^verbatim>\<open>sched_lock\<close> again. All other locks being free, the processor panics
  in \<^verbatim>\<open>spinlock_acquire\<close>.\<close>

theorem condvar_wait_sleeplock_panics:
  assumes "synch_enabled k" "sl_holder (sleeps k l) = Some (running k c)"
    and "condvars k (waiters (sleeps k l)) \<noteq> []"
    and "\<forall>a. \<not> lock_status (spins k a)"
  shows "condvar_wait c cv (Sleep l) k = None"
proof (rule ccontr)
  let ?k = "k\<lparr>condvars := (condvars k)(cv := condvars k cv @ [running k c])\<rparr>"
  assume "condvar_wait c cv (Sleep l) k \<noteq> None"
  then obtain d k' where "sched_sched c SLEEPING (Some (Sleep l)) ?k = Some (d, k')"
    using assms(1) by (auto simp: condvar_wait_def Let_def split: if_splits)
  then obtain k0 k1 where k0: "spinlock_acquire c sched_lock ?k = Some k0"
    and rel: "lock_release c (Sleep l) (leaving c (running k c) SLEEPING k0) = Some k1"
    by (rule sched_sched_SomeD) simp
  let ?k1 = "leaving c (running k c) SLEEPING k0"
  have k0': "same_sched ?k k0" "lock_status (spins k0 sched_lock)"
    using spinlock_acquire_SomeD [OF k0] assms(1) by auto
  have k1: "sleeplock_release c l ?k1 = Some k1"
    using rel k0'(1) assms(1) by (simp add: lock_release_def same_sched_def leaving_def)
  have w: "condvars k0 (waiters (sleeps k0 l)) \<noteq> []"
    using k0'(1) assms(3) by (auto simp: same_sched_def)
  from k1 obtain k2 k3 where k2: "spinlock_acquire c (lk (sleeps ?k1 l)) ?k1 = Some k2"
    and k3: "condvar_signal c (waiters (sleeps k2 l))
      (k2\<lparr>sleeps := (sleeps k2)(l := (sleeps k2 l)\<lparr>sl_holder := None\<rparr>)\<rparr>) = Some k3"
    using k0'(1) assms(1)
    by (auto simp: sleeplock_release_def Let_def leaving_def same_sched_def elim!: bind_SomeE split: if_splits)
  have "same_sched ?k1 k2" "lock_status (spins k2 sched_lock)" "synch_enabled k2"
    using spinlock_acquire_SomeD [OF k2] k0' assms(1)
    by (auto simp: leaving_def same_sched_def)
  with k3 w show False
    by (auto simp: condvar_signal_def sched_ready_locked leaving_def same_sched_def split: list.splits if_splits)
qed

theorem condvar_wait_sleeplock_panics_witness:
  "condvar_wait 0 9 (Sleep 5) (two_cpus\<lparr>condvars := (\<lambda>cv. if cv = 5 then [11] else [])\<rparr>) = None"
  by (rule condvar_wait_sleeplock_panics) (simp_all add: two_cpus_def boot_def)

end
