(* ===== verification/Bbq.thy ===== *)
theory Bbq
  imports OSV_Base
begin

section \<open>Bounded buffer and pipes (kernel/bbq.c, kernel/pipe.c)\<close>

text \<open>
  The bounded byte queue behind a pipe. Its operations hold the spinlock of the queue from start to
  end (except while waiting), so a call is one step of one thread: it completes, or the thread
  puts itself on a condition variable and sleeps. A thread that wakes up executes the same code again
  from its test on. Completing names the thread that the signal woke, if any.

  \<^verbatim>\<open>front\<close> and \<^verbatim>\<open>next_empty\<close> are 32-bit \<^verbatim>\<open>int\<close> counters that are only ever incremented; the index
  into \<^verbatim>\<open>items\<close> is their signed remainder, and an index outside the array is the result \<open>None\<close>.
\<close>

abbreviation MAX_BBQ_SIZE :: nat where "MAX_BBQ_SIZE \<equiv> 512"

record bbq =
  items :: "u8 list"
  front :: u32
  next_empty :: u32
  item_added :: "addr list"
  item_removed :: "addr list"

datatype 'a turn = Sleeps | Done 'a "addr option"

definition bbq_index :: "u32 \<Rightarrow> nat option" where
  "bbq_index w = (let i = sint w smod int MAX_BBQ_SIZE in if 0 \<le> i then Some (nat i) else None)"

definition bbq_insert :: "addr \<Rightarrow> u8 \<Rightarrow> bbq \<Rightarrow> (unit turn \<times> bbq) option" where
  "bbq_insert t item q =
     (if sint (next_empty q - front q) = int MAX_BBQ_SIZE
      then Some (Sleeps, q\<lparr>item_removed := item_removed q @ [t]\<rparr>)
      else do { i \<leftarrow> bbq_index (next_empty q);
                let q = q\<lparr>items := (items q)[i := item], next_empty := next_empty q + 1\<rparr>;
                case item_added q of
                    [] \<Rightarrow> Some (Done () None, q)
                  | w # ws \<Rightarrow> Some (Done () (Some w), q\<lparr>item_added := ws\<rparr>) })"

definition bbq_remove :: "addr \<Rightarrow> bbq \<Rightarrow> (u8 turn \<times> bbq) option" where
  "bbq_remove t q =
     (if front q = next_empty q
      then Some (Sleeps, q\<lparr>item_added := item_added q @ [t]\<rparr>)
      else do { i \<leftarrow> bbq_index (front q);
                let item = items q ! i;
                let q = q\<lparr>front := front q + 1\<rparr>;
                case item_removed q of
                    [] \<Rightarrow> Some (Done item None, q)
                  | w # ws \<Rightarrow> Some (Done item (Some w), q\<lparr>item_removed := ws\<rparr>) })"

text \<open>\<^verbatim>\<open>bbq_init\<close> sets up a queue in freshly allocated memory: whether the allocator succeeds and the
  bytes found in the memory are arguments.\<close>

definition bbq_init :: "bool \<Rightarrow> u8 list \<Rightarrow> bbq option" where
  "bbq_init allocated mem =
     (if \<not> allocated then None
      else Some \<lparr>items = mem, front = 0, next_empty = 0, item_added = [], item_removed = []\<rparr>)"

definition bbq_is_empty :: "bbq \<Rightarrow> bool" where
  "bbq_is_empty q \<longleftrightarrow> front q = next_empty q"

definition bbq_is_full :: "bbq \<Rightarrow> bool" where
  "bbq_is_full q \<longleftrightarrow> sint (next_empty q - front q) = int MAX_BBQ_SIZE"

subsection \<open>Pipes\<close>

text \<open>A pipe and the \<^verbatim>\<open>info\<close> pointers of the files that may refer to it (\<open>True\<close>: this pipe,
  \<open>False\<close>: \<^verbatim>\<open>NULL\<close>). Files are named by their addresses.\<close>

record pipe =
  buffer :: "bbq option"
  read_file :: "addr option"
  write_file :: "addr option"
  info :: "addr \<Rightarrow> bool"

datatype pres = Returned int "u8 list" | Blocked "u8 list"

text \<open>\<^verbatim>\<open>pipe_alloc\<close>: \<open>garbage\<close> is whether the uninitialised \<^verbatim>\<open>buffer\<close> field of the fresh allocation happens to
  be non-null, \<open>q\<close> the result of \<^verbatim>\<open>bbq_init\<close>, \<open>rfile\<close> and \<open>wfile\<close> the results of \<^verbatim>\<open>fs_alloc_file\<close>.\<close>

definition pipe_alloc :: "bool \<Rightarrow> bool \<Rightarrow> bbq option \<Rightarrow> addr option \<Rightarrow> addr option \<Rightarrow> pipe option" where
  "pipe_alloc allocated garbage q rfile wfile =
     (if \<not> allocated then None
      else if \<not> garbage then None
      else if rfile = None \<or> wfile = None then None
      else Some \<lparr>buffer = q, read_file = rfile, write_file = wfile, info = (\<lambda>f. Some f = rfile \<or> Some f = wfile)\<rparr>)"

definition pipe_close :: "addr \<Rightarrow> pipe \<Rightarrow> pipe" where
  "pipe_close file p =
     (if \<not> info p file then p
      else if Some file = read_file p then p\<lparr>read_file := None, info := (info p)(file := False)\<rparr>
      else if Some file = write_file p then p\<lparr>write_file := None, info := (info p)(file := False)\<rparr>
      else p)"

text \<open>The loops: the first while the other end is open, the second once it is closed. The list that is
  carried along holds the bytes moved so far.\<close>

fun pipe_read_open :: "addr \<Rightarrow> nat \<Rightarrow> bbq \<Rightarrow> u8 list \<Rightarrow> (pres \<times> bbq) option" where
  "pipe_read_open t 0 q buf = Some (Returned (int (length buf)) buf, q)"
| "pipe_read_open t (Suc n) q buf =
     do { (r, q) \<leftarrow> bbq_remove t q;
          case r of Sleeps \<Rightarrow> Some (Blocked buf, q)
                  | Done b _ \<Rightarrow> pipe_read_open t n q (buf @ [b]) }"

fun pipe_read_closed :: "addr \<Rightarrow> nat \<Rightarrow> bbq \<Rightarrow> u8 list \<Rightarrow> (pres \<times> bbq) option" where
  "pipe_read_closed t 0 q buf = Some (Returned (int (length buf)) buf, q)"
| "pipe_read_closed t (Suc n) q buf =
     (if bbq_is_empty q then Some (Returned (int (length buf)) buf, q)
      else do { (r, q) \<leftarrow> bbq_remove t q;
                case r of Sleeps \<Rightarrow> Some (Blocked buf, q)
                        | Done b _ \<Rightarrow> pipe_read_closed t n q (buf @ [b]) })"

definition pipe_read :: "addr \<Rightarrow> addr \<Rightarrow> nat \<Rightarrow> pipe \<Rightarrow> (pres \<times> pipe) option" where
  "pipe_read t file count p =
     (if \<not> info p file then Some (Returned (-1) [], p)
      else case buffer p of
          None \<Rightarrow> Some (Returned (-1) [], p)
        | Some q \<Rightarrow>
            do { (r, q) \<leftarrow> (if write_file p \<noteq> None then pipe_read_open t count q []
                            else pipe_read_closed t count q []);
                 Some (r, p\<lparr>buffer := Some q\<rparr>) })"

text \<open>Writing: \<open>Blocked\<close> carries the bytes that are still to be written.\<close>

fun pipe_write_loop :: "addr \<Rightarrow> u8 list \<Rightarrow> nat \<Rightarrow> bbq \<Rightarrow> (pres \<times> bbq) option" where
  "pipe_write_loop t [] n q = Some (Returned (int n) [], q)"
| "pipe_write_loop t (b # bs) n q =
     do { (r, q) \<leftarrow> bbq_insert t b q;
          case r of Sleeps \<Rightarrow> Some (Blocked (b # bs), q)
                  | Done _ _ \<Rightarrow> pipe_write_loop t bs (Suc n) q }"

definition pipe_write :: "addr \<Rightarrow> addr \<Rightarrow> u8 list \<Rightarrow> pipe \<Rightarrow> (pres \<times> pipe) option" where
  "pipe_write t file bs p =
     (if \<not> info p file then Some (Returned (-1) [], p)
      else case buffer p of
          None \<Rightarrow> Some (Returned (-1) [], p)
        | Some q \<Rightarrow>
            if read_file p = None then Some (Returned ERR_END [], p)
            else do { (r, q) \<leftarrow> pipe_write_loop t bs 0 q;
                      Some (r, p\<lparr>buffer := Some q\<rparr>) })"

subsection \<open>The queue as a list\<close>

definition contents :: "bbq \<Rightarrow> u8 list" where
  "contents q = map (\<lambda>i. items q ! (i mod MAX_BBQ_SIZE)) [unat (front q) ..< unat (next_empty q)]"

definition bbq_inv :: "bbq \<Rightarrow> bool" where
  "bbq_inv q \<longleftrightarrow> length (items q) = MAX_BBQ_SIZE \<and> front q \<le> next_empty q \<and>
     unat (next_empty q) < 2 ^ 31 \<and> unat (next_empty q) - unat (front q) \<le> MAX_BBQ_SIZE"

text \<open>How many more bytes can go through the queue before its counters leave the positive range.\<close>

definition budget :: "bbq \<Rightarrow> nat" where
  "budget q = 2 ^ 31 - 1 - unat (next_empty q)"

lemma waiters_irrelevant [simp]:
  "bbq_inv (q\<lparr>item_added := ws\<rparr>) = bbq_inv q" "bbq_inv (q\<lparr>item_removed := ws\<rparr>) = bbq_inv q"
  "contents (q\<lparr>item_added := ws\<rparr>) = contents q" "contents (q\<lparr>item_removed := ws\<rparr>) = contents q"
  "budget (q\<lparr>item_added := ws\<rparr>) = budget q" "budget (q\<lparr>item_removed := ws\<rparr>) = budget q"
  by (simp_all add: bbq_inv_def contents_def budget_def)

lemma bbq_index_eq:
  assumes "unat w < 2 ^ 31"
  shows "bbq_index w = Some (unat w mod MAX_BBQ_SIZE)"
proof -
  have "sint w smod int MAX_BBQ_SIZE = int (unat w mod MAX_BBQ_SIZE)"
    using sint_eq_unat [OF assms] c_rem_nonneg [of "int (unat w)" 512] by (simp add: zmod_int)
  then show ?thesis by (simp add: bbq_index_def Let_def)
qed

text \<open>Both counters in one: the invariant with the counters as numbers.\<close>

lemma bbq_invD:
  assumes "bbq_inv q"
  shows "length (items q) = MAX_BBQ_SIZE" "unat (front q) \<le> unat (next_empty q)"
    "unat (next_empty q) < 2 ^ 31" "unat (front q) < 2 ^ 31"
    "unat (next_empty q) - unat (front q) \<le> MAX_BBQ_SIZE"
    "length (contents q) = unat (next_empty q) - unat (front q)"
  using assms by (auto simp: bbq_inv_def contents_def word_le_nat_alt)

lemma unat_Suc_small: "unat (w :: u32) < 2 ^ 31 \<Longrightarrow> unat (w + 1) = Suc (unat w)"
  by (simp add: unat_word_ariths)

lemma fill_level:
  assumes "bbq_inv q"
  shows "sint (next_empty q - front q) = int (length (contents q))"
proof -
  have "unat (next_empty q - front q) = unat (next_empty q) - unat (front q)"
    using assms by (simp add: bbq_inv_def unat_sub)
  with bbq_invD [OF assms] show ?thesis by (subst sint_eq_unat) auto
qed

lemma bbq_inv_init: "length mem = MAX_BBQ_SIZE \<Longrightarrow> bbq_init True mem = Some q \<Longrightarrow>
    bbq_inv q \<and> contents q = [] \<and> budget q = 2 ^ 31 - 1"
  by (auto simp: bbq_init_def bbq_inv_def contents_def budget_def)

lemma bbq_insert_full:
  assumes "bbq_inv q" "length (contents q) = MAX_BBQ_SIZE"
  shows "bbq_insert t b q = Some (Sleeps, q\<lparr>item_removed := item_removed q @ [t]\<rparr>)"
  using fill_level [OF assms(1)] assms(2) by (simp add: bbq_insert_def)

lemma bbq_insert_room:
  assumes inv: "bbq_inv q" and room: "length (contents q) < MAX_BBQ_SIZE" and budget: "budget q > 0"
  shows "\<exists>q'. bbq_insert t b q = Some (Done () (case item_added q of [] \<Rightarrow> None | w # _ \<Rightarrow> Some w), q') \<and>
    bbq_inv q' \<and> contents q' = contents q @ [b] \<and> budget q' = budget q - 1 \<and>
    item_added q' = tl (item_added q) \<and> item_removed q' = item_removed q"
proof -
  let ?n = "unat (next_empty q)" and ?f = "unat (front q)"
  let ?q = "q\<lparr>items := (items q)[?n mod MAX_BBQ_SIZE := b], next_empty := next_empty q + 1,
              item_added := tl (item_added q)\<rparr>"
  note D = bbq_invD [OF inv]
  have n: "unat (next_empty q + 1) = Suc ?n" by (rule unat_Suc_small [OF D(3)])
  have step: "bbq_insert t b q = Some (Done () (case item_added q of [] \<Rightarrow> None | w # _ \<Rightarrow> Some w), ?q)"
    using fill_level [OF inv] room bbq_index_eq [OF D(3)]
    by (auto simp: bbq_insert_def Let_def split: list.splits)
  have "?n mod MAX_BBQ_SIZE \<noteq> i mod MAX_BBQ_SIZE" if "?f \<le> i" "i < ?n" for i
  proof
    assume "?n mod MAX_BBQ_SIZE = i mod MAX_BBQ_SIZE"
    then have "MAX_BBQ_SIZE dvd ?n - i" using that by (metis mod_eq_dvd_iff_nat nat_less_le)
    then have "MAX_BBQ_SIZE \<le> ?n - i" using that by (simp add: dvd_imp_le)
    with that room D(6) show False by linarith
  qed
  then have "contents ?q = contents q @ [b]"
    using D(1,2) n by (auto simp: contents_def)
  moreover have "bbq_inv ?q"
    using D room budget n by (auto simp: bbq_inv_def word_le_nat_alt budget_def)
  ultimately show ?thesis using step n by (auto simp: budget_def)
qed

lemma bbq_remove_empty:
  assumes "bbq_inv q" "contents q = []"
  shows "bbq_remove t q = Some (Sleeps, q\<lparr>item_added := item_added q @ [t]\<rparr>)"
  using bbq_invD [OF assms(1)] assms(2) by (simp add: bbq_remove_def word_unat_eq_iff)

lemma bbq_remove_some:
  assumes inv: "bbq_inv q" and c: "contents q = b # bs"
  shows "\<exists>q'. bbq_remove t q = Some (Done b (case item_removed q of [] \<Rightarrow> None | w # _ \<Rightarrow> Some w), q') \<and>
    bbq_inv q' \<and> contents q' = bs \<and> budget q' = budget q \<and>
    item_removed q' = tl (item_removed q) \<and> item_added q' = item_added q"
proof -
  let ?n = "unat (next_empty q)" and ?f = "unat (front q)"
  let ?q = "q\<lparr>front := front q + 1, item_removed := tl (item_removed q)\<rparr>"
  note D = bbq_invD [OF inv]
  have lt: "?f < ?n" using D(6) c by simp
  have f: "unat (front q + 1) = Suc ?f" by (rule unat_Suc_small [OF D(4)])
  have split: "contents q = items q ! (?f mod MAX_BBQ_SIZE) # contents ?q"
    using lt f by (simp add: contents_def upt_conv_Cons)
  have "bbq_remove t q = Some (Done b (case item_removed q of [] \<Rightarrow> None | w # _ \<Rightarrow> Some w), ?q)"
    using lt bbq_index_eq [OF D(4)] split c
    by (auto simp: bbq_remove_def Let_def split: list.splits)
  moreover have "bbq_inv ?q"
    using D lt f by (auto simp: bbq_inv_def word_le_nat_alt)
  ultimately show ?thesis using split c by (auto simp: budget_def)
qed

subsection \<open>What a blocking byte queue promises\<close>

text \<open>Threads putting and getting single bytes in any order. The system records the bytes that went
  in and came out, and the threads that were woken and have not tried again yet.\<close>

datatype qev = Put addr u8 | Get addr

record 'q qsys =
  queue :: 'q
  written :: "u8 list"
  delivered :: "u8 list"
  woken_get :: "addr list"
  woken_put :: "addr list"

fun opt_list :: "'a option \<Rightarrow> 'a list" where
  "opt_list None = []"
| "opt_list (Some x) = [x]"

fun qstep :: "(addr \<Rightarrow> u8 \<Rightarrow> 'q \<Rightarrow> (unit turn \<times> 'q) option) \<Rightarrow> (addr \<Rightarrow> 'q \<Rightarrow> (u8 turn \<times> 'q) option) \<Rightarrow>
    qev \<Rightarrow> 'q qsys \<Rightarrow> 'q qsys option" where
  "qstep put get (Put t b) s =
     do { (r, q) \<leftarrow> put t b (queue s);
          let s = s\<lparr>queue := q, woken_put := remove1 t (woken_put s)\<rparr>;
          Some (case r of Sleeps \<Rightarrow> s
                  | Done _ w \<Rightarrow> s\<lparr>written := written s @ [b], woken_get := woken_get s @ opt_list w\<rparr>) }"
| "qstep put get (Get t) s =
     do { (r, q) \<leftarrow> get t (queue s);
          let s = s\<lparr>queue := q, woken_get := remove1 t (woken_get s)\<rparr>;
          Some (case r of Sleeps \<Rightarrow> s
                  | Done b w \<Rightarrow> s\<lparr>delivered := delivered s @ [b], woken_put := woken_put s @ opt_list w\<rparr>) }"

fun qrun :: "(addr \<Rightarrow> u8 \<Rightarrow> 'q \<Rightarrow> (unit turn \<times> 'q) option) \<Rightarrow> (addr \<Rightarrow> 'q \<Rightarrow> (u8 turn \<times> 'q) option) \<Rightarrow>
    qev list \<Rightarrow> 'q qsys \<Rightarrow> 'q qsys option" where
  "qrun put get [] s = Some s"
| "qrun put get (e # es) s = do { s \<leftarrow> qstep put get e s; qrun put get es s }"

definition first_waiter :: "addr list \<Rightarrow> addr option" where
  "first_waiter ws = (case ws of [] \<Rightarrow> None | w # _ \<Rightarrow> Some w)"

lemma length_first_waiter [simp]: "length (opt_list (first_waiter ws)) = (if ws = [] then 0 else 1)"
  by (cases ws) (auto simp: first_waiter_def)

locale byte_queue =
  fixes inv :: "'q \<Rightarrow> bool" and elems :: "'q \<Rightarrow> u8 list" and left :: "'q \<Rightarrow> nat" and cap :: nat
    and getters putters :: "'q \<Rightarrow> addr list"
    and put :: "addr \<Rightarrow> u8 \<Rightarrow> 'q \<Rightarrow> (unit turn \<times> 'q) option"
    and get :: "addr \<Rightarrow> 'q \<Rightarrow> (u8 turn \<times> 'q) option"
  assumes cap: "inv q \<Longrightarrow> length (elems q) \<le> cap"
    and put_full: "inv q \<Longrightarrow> length (elems q) = cap \<Longrightarrow>
      \<exists>q'. put t b q = Some (Sleeps, q') \<and> inv q' \<and> elems q' = elems q \<and> left q' = left q \<and>
        putters q' = putters q @ [t] \<and> getters q' = getters q"
    and put_room: "inv q \<Longrightarrow> length (elems q) < cap \<Longrightarrow> left q > 0 \<Longrightarrow>
      \<exists>q'. put t b q = Some (Done () (first_waiter (getters q)), q') \<and> inv q' \<and> elems q' = elems q @ [b] \<and>
        left q' = left q - 1 \<and> getters q' = tl (getters q) \<and> putters q' = putters q"
    and get_empty: "inv q \<Longrightarrow> elems q = [] \<Longrightarrow>
      \<exists>q'. get t q = Some (Sleeps, q') \<and> inv q' \<and> elems q' = [] \<and> left q' = left q \<and>
        getters q' = getters q @ [t] \<and> putters q' = putters q"
    and get_some: "inv q \<Longrightarrow> elems q = b # bs \<Longrightarrow>
      \<exists>q'. get t q = Some (Done b (first_waiter (putters q)), q') \<and> inv q' \<and> elems q' = bs \<and>
        left q' = left q \<and> putters q' = tl (putters q) \<and> getters q' = getters q"
begin

definition sys_inv :: "'q qsys \<Rightarrow> bool" where
  "sys_inv s \<longleftrightarrow> inv (queue s) \<and> written s = delivered s @ elems (queue s) \<and>
     (getters (queue s) \<noteq> [] \<longrightarrow> length (elems (queue s)) \<le> length (woken_get s)) \<and>
     (putters (queue s) \<noteq> [] \<longrightarrow> cap \<le> length (elems (queue s)) + length (woken_put s))"

lemma put_step:
  assumes inv: "sys_inv s" and l: "left (queue s) > 0"
  shows "\<exists>s'. qstep put get (Put t b) s = Some s' \<and> sys_inv s' \<and> left (queue s') \<ge> left (queue s) - 1"
proof (cases "length (elems (queue s)) = cap")
  case True
  from put_full [OF _ True] inv obtain q' where
    "put t b (queue s) = Some (Sleeps, q')" "inv q'" "elems q' = elems (queue s)"
    "left q' = left (queue s)" "putters q' = putters (queue s) @ [t]" "getters q' = getters (queue s)"
    by (force simp: sys_inv_def)
  with inv True show ?thesis by (auto simp: sys_inv_def)
next
  case False
  with inv cap have room: "length (elems (queue s)) < cap" by (fastforce simp: sys_inv_def)
  from put_room [OF _ room l] inv obtain q' where
    "put t b (queue s) = Some (Done () (first_waiter (getters (queue s))), q')" "inv q'"
    "elems q' = elems (queue s) @ [b]" "left q' = left (queue s) - 1"
    "getters q' = tl (getters (queue s))" "putters q' = putters (queue s)"
    by (force simp: sys_inv_def)
  with inv show ?thesis by (auto simp: sys_inv_def length_remove1)
qed

lemma get_step:
  assumes inv: "sys_inv s"
  shows "\<exists>s'. qstep put get (Get t) s = Some s' \<and> sys_inv s' \<and> left (queue s') = left (queue s)"
proof (cases "elems (queue s)")
  case Nil
  from get_empty [OF _ Nil] inv obtain q' where
    "get t (queue s) = Some (Sleeps, q')" "inv q'" "elems q' = []"
    "left q' = left (queue s)" "getters q' = getters (queue s) @ [t]" "putters q' = putters (queue s)"
    by (force simp: sys_inv_def)
  with inv Nil show ?thesis by (auto simp: sys_inv_def)
next
  case (Cons b bs)
  from get_some [OF _ Cons] inv obtain q' where
    "get t (queue s) = Some (Done b (first_waiter (putters (queue s))), q')" "inv q'"
    "elems q' = bs" "left q' = left (queue s)"
    "putters q' = tl (putters (queue s))" "getters q' = getters (queue s)"
    by (force simp: sys_inv_def)
  with inv Cons show ?thesis by (auto simp: sys_inv_def length_remove1)
qed

lemma run_ok:
  assumes "sys_inv s" "length es \<le> left (queue s)"
  shows "\<exists>s'. qrun put get es s = Some s' \<and> sys_inv s'"
  using assms
proof (induction es arbitrary: s)
  case (Cons e es)
  obtain s1 where "qstep put get e s = Some s1" "sys_inv s1" "length es \<le> left (queue s1)"
    using put_step [OF Cons.prems(1)] get_step [OF Cons.prems(1)] Cons.prems(2)
    by (cases e) fastforce+
  with Cons.IH show ?case by simp
qed simp

end

interpretation bbq: byte_queue bbq_inv contents budget MAX_BBQ_SIZE item_added item_removed bbq_insert bbq_remove
proof
  fix q :: bbq and t b bs
  assume inv: "bbq_inv q"
  show "length (contents q) \<le> MAX_BBQ_SIZE" using bbq_invD [OF inv] by simp
  show "\<exists>q'. bbq_insert t b q = Some (Sleeps, q') \<and> bbq_inv q' \<and> contents q' = contents q \<and>
      budget q' = budget q \<and> item_removed q' = item_removed q @ [t] \<and> item_added q' = item_added q"
    if "length (contents q) = MAX_BBQ_SIZE"
    using bbq_insert_full [OF inv that] inv by simp
  show "\<exists>q'. bbq_remove t q = Some (Sleeps, q') \<and> bbq_inv q' \<and> contents q' = [] \<and> budget q' = budget q \<and>
      item_added q' = item_added q @ [t] \<and> item_removed q' = item_removed q" if "contents q = []"
    using bbq_remove_empty [OF inv that] inv that by simp
qed (use bbq_insert_room bbq_remove_some in \<open>simp_all add: first_waiter_def\<close>)

subsection \<open>Reading and writing a pipe\<close>

lemma pipe_write_loop_room:
  assumes "bbq_inv q" "length (contents q) + length bs \<le> MAX_BBQ_SIZE" "length bs \<le> budget q"
  shows "\<exists>q'. pipe_write_loop t bs n q = Some (Returned (int (n + length bs)) [], q') \<and> bbq_inv q' \<and>
    contents q' = contents q @ bs \<and> budget q' = budget q - length bs"
  using assms
proof (induction bs arbitrary: n q)
  case (Cons b bs)
  from bbq_insert_room [OF Cons.prems(1), of t b] Cons.prems(2,3) obtain q1 w where
    "bbq_insert t b q = Some (Done () w, q1)" "bbq_inv q1" "contents q1 = contents q @ [b]"
    "budget q1 = budget q - 1" by auto
  moreover have "length bs \<le> budget q1" "length (contents q1) + length bs \<le> MAX_BBQ_SIZE"
    using calculation Cons.prems(2,3) by auto
  moreover from Cons.IH [OF calculation(2,6,5)] obtain q2 where
    "pipe_write_loop t bs (Suc n) q1 = Some (Returned (int (Suc n + length bs)) [], q2)" "bbq_inv q2"
    "contents q2 = contents q1 @ bs" "budget q2 = budget q1 - length bs" by blast
  ultimately show ?case by auto
qed simp

lemma pipe_read_open_enough:
  assumes "bbq_inv q" "n \<le> length (contents q)"
  shows "\<exists>q'. pipe_read_open t n q buf = Some (Returned (int (length buf + n)) (buf @ take n (contents q)), q') \<and>
    bbq_inv q' \<and> contents q' = drop n (contents q) \<and> budget q' = budget q"
  using assms
proof (induction n arbitrary: q buf)
  case (Suc n)
  then obtain b bs where c: "contents q = b # bs" by (cases "contents q") auto
  from bbq_remove_some [OF Suc.prems(1) c, of t] obtain q1 w where
    "bbq_remove t q = Some (Done b w, q1)" "bbq_inv q1" "contents q1 = bs" "budget q1 = budget q" by auto
  moreover from Suc.IH [of q1 "buf @ [b]"] this Suc.prems(2) c obtain q2 where
    "pipe_read_open t n q1 (buf @ [b]) =
       Some (Returned (int (length (buf @ [b]) + n)) ((buf @ [b]) @ take n (contents q1)), q2)"
    "bbq_inv q2" "contents q2 = drop n (contents q1)" "budget q2 = budget q1" by auto
  ultimately show ?case using c by auto
qed simp

lemma pipe_read_closed_eq:
  assumes "bbq_inv q"
  shows "\<exists>q'. pipe_read_closed t n q buf =
      Some (Returned (int (length buf + min n (length (contents q)))) (buf @ take n (contents q)), q') \<and>
    bbq_inv q' \<and> contents q' = drop n (contents q)"
  using assms
proof (induction n arbitrary: q buf)
  case (Suc n)
  show ?case
  proof (cases "contents q")
    case Nil
    then have "bbq_is_empty q"
      using bbq_invD [OF Suc.prems] by (simp add: bbq_is_empty_def word_unat_eq_iff)
    with Nil Suc.prems show ?thesis by simp
  next
    case (Cons b bs)
    then have "\<not> bbq_is_empty q"
      using bbq_invD [OF Suc.prems] by (auto simp: bbq_is_empty_def)
    moreover from bbq_remove_some [OF Suc.prems Cons, of t] obtain q1 w where
      "bbq_remove t q = Some (Done b w, q1)" "bbq_inv q1" "contents q1 = bs" by auto
    moreover from Suc.IH [OF this(2), of "buf @ [b]"] obtain q2 where
      "pipe_read_closed t n q1 (buf @ [b]) =
        Some (Returned (int (length (buf @ [b]) + min n (length (contents q1)))) ((buf @ [b]) @ take n (contents q1)), q2)"
      "bbq_inv q2" "contents q2 = drop n (contents q1)" by blast
    ultimately show ?thesis using Cons by auto
  qed
qed simp

text \<open>With too few bytes in the pipe an open reader takes them all and goes to sleep.\<close>

lemma pipe_read_open_short:
  assumes "bbq_inv q" "length (contents q) < n"
  shows "\<exists>q'. pipe_read_open t n q buf = Some (Blocked (buf @ contents q), q') \<and>
    contents q' = [] \<and> item_added q' = item_added q @ [t]"
  using assms
proof (induction n arbitrary: q buf)
  case (Suc n)
  show ?case
  proof (cases "contents q")
    case Nil
    with bbq_remove_empty [OF Suc.prems(1) Nil, of t] show ?thesis by simp
  next
    case (Cons b bs)
    from bbq_remove_some [OF Suc.prems(1) Cons, of t] obtain q1 w where
      "bbq_remove t q = Some (Done b w, q1)" "bbq_inv q1" "contents q1 = bs" "item_added q1 = item_added q"
      by auto
    moreover from Suc.IH [of q1 "buf @ [b]"] this Suc.prems(2) Cons obtain q2 where
      "pipe_read_open t n q1 (buf @ [b]) = Some (Blocked ((buf @ [b]) @ contents q1), q2)"
      "contents q2 = []" "item_added q2 = item_added q1 @ [t]" by auto
    ultimately show ?thesis using Cons by auto
  qed
qed simp

subsection \<open>Properties\<close>

text \<open>A queue just after \<^verbatim>\<open>bbq_init\<close>, and a pipe on it with read end 1 and write end 2.\<close>

definition bbq_fresh :: bbq where
  "bbq_fresh = the (bbq_init True (replicate MAX_BBQ_SIZE 0))"

definition pipe_fresh :: pipe where
  "pipe_fresh = the (pipe_alloc True True (Some bbq_fresh) (Some 1) (Some 2))"

lemma bbq_fresh_inv: "bbq_inv bbq_fresh" "contents bbq_fresh = []" "budget bbq_fresh = 2 ^ 31 - 1"
    "item_added bbq_fresh = []" "item_removed bbq_fresh = []"
  by (simp_all add: bbq_fresh_def bbq_init_def bbq_inv_def contents_def budget_def)

lemma pipe_fresh_simps: "buffer pipe_fresh = Some bbq_fresh" "read_file pipe_fresh = Some 1"
    "write_file pipe_fresh = Some 2" "info pipe_fresh 1" "info pipe_fresh 2"
  by (simp_all add: pipe_fresh_def pipe_alloc_def)

text \<open>C21: A pipe's queue is a reliable FIFO stream with flow control. For any interleaving of fewer
  than 2 to the 31 single-byte inserts and removes by any threads, starting from a fresh queue, no call
  goes out of bounds, the bytes delivered followed by the bytes still queued are exactly the bytes
  written, and at most 512 bytes are queued. Wakeups are not lost: while a reader sleeps, every queued byte has a
  woken reader on its way, and while a writer sleeps, every free slot has a woken writer on its way.\<close>

theorem bbq_stream:
  assumes "length es < 2 ^ 31" "length mem = MAX_BBQ_SIZE" "bbq_init True mem = Some q"
  shows "\<exists>s. qrun bbq_insert bbq_remove es
      \<lparr>queue = q, written = [], delivered = [], woken_get = [], woken_put = []\<rparr> = Some s \<and>
    written s = delivered s @ contents (queue s) \<and> length (contents (queue s)) \<le> MAX_BBQ_SIZE \<and>
    (item_added (queue s) \<noteq> [] \<longrightarrow> length (contents (queue s)) \<le> length (woken_get s)) \<and>
    (item_removed (queue s) \<noteq> [] \<longrightarrow> MAX_BBQ_SIZE - length (contents (queue s)) \<le> length (woken_put s))"
proof -
  have "item_added q = []" "item_removed q = []" using assms(3) by (auto simp: bbq_init_def)
  moreover note bbq_inv_init [OF assms(2,3)]
  ultimately have "bbq.sys_inv \<lparr>queue = q, written = [], delivered = [], woken_get = [], woken_put = []\<rparr>"
    "length es \<le> budget q" using assms(1) by (auto simp: bbq.sys_inv_def)
  then obtain s where "qrun bbq_insert bbq_remove es
      \<lparr>queue = q, written = [], delivered = [], woken_get = [], woken_put = []\<rparr> = Some s" "bbq.sys_inv s"
    using bbq.run_ok by fastforce
  moreover from this(2) have "length (contents (queue s)) \<le> MAX_BBQ_SIZE"
    using bbq.cap by (simp add: bbq.sys_inv_def)
  ultimately show ?thesis by (auto simp: bbq.sys_inv_def)
qed

theorem bbq_stream_witness:
  "\<exists>s. qrun bbq_insert bbq_remove [Get 1, Put 2 65, Put 2 66, Get 1]
      \<lparr>queue = bbq_fresh, written = [], delivered = [], woken_get = [], woken_put = []\<rparr> = Some s \<and>
    written s = delivered s @ contents (queue s)"
proof -
  have "bbq_init True (replicate MAX_BBQ_SIZE 0) = Some bbq_fresh"
    by (simp add: bbq_fresh_def bbq_init_def)
  from bbq_stream [OF _ _ this, of "[Get 1, Put 2 65, Put 2 66, Get 1]"] show ?thesis by auto
qed

text \<open>C22: What is written to a pipe is read from it: with both ends open and room in the buffer, a
  write of \<open>bs\<close> completes with the number of bytes, and reading \<open>n\<close> bytes then returns the first \<open>n\<close>
  bytes of what was queued, in order, and leaves the rest.\<close>

theorem pipe_write_read:
  assumes "buffer p = Some q" "bbq_inv q" "length (contents q) + length bs \<le> MAX_BBQ_SIZE"
    "length bs \<le> budget q" "read_file p = Some rfile" "write_file p = Some wfile" "info p rfile" "info p wfile"
    "n \<le> length (contents q) + length bs"
  shows "\<exists>p' p'' q''. pipe_write t wfile bs p = Some (Returned (int (length bs)) [], p') \<and>
    pipe_read u rfile n p' = Some (Returned (int n) (take n (contents q @ bs)), p'') \<and>
    buffer p'' = Some q'' \<and> contents q'' = drop n (contents q @ bs)"
proof -
  from pipe_write_loop_room [OF assms(2-4), of t 0] obtain q1 where
    q1: "pipe_write_loop t bs 0 q = Some (Returned (int (length bs)) [], q1)" "bbq_inv q1"
    "contents q1 = contents q @ bs" by auto
  with pipe_read_open_enough [OF q1(2), of n u "[]"] assms(9) obtain q2 where
    "pipe_read_open u n q1 [] = Some (Returned (int n) (take n (contents q @ bs)), q2)"
    "contents q2 = drop n (contents q @ bs)" by auto
  with q1 assms show ?thesis by (simp add: pipe_write_def pipe_read_def)
qed

theorem pipe_write_read_witness:
  "\<exists>p' p'' q''. pipe_write 5 2 [1, 2, 3] pipe_fresh = Some (Returned 3 [], p') \<and>
    pipe_read 6 1 2 p' = Some (Returned 2 [1, 2], p'') \<and> buffer p'' = Some q'' \<and> contents q'' = [3]"
  using pipe_write_read [OF pipe_fresh_simps(1) bbq_fresh_inv(1) _ _ pipe_fresh_simps(2-5), of "[1, 2, 3]" 2 5 6]
  by (simp add: bbq_fresh_inv)

text \<open>C23: The two ends of a pipe after a close: writing without a reader returns \<^verbatim>\<open>ERR_END\<close> and changes
  nothing; reading without a writer never sleeps and returns what is left, up to the count; reading
  through a closed file returns \<open>-1\<close>.\<close>

theorem pipe_closed_ends:
  assumes "buffer p = Some q" "bbq_inv q" "read_file p = Some rfile" "write_file p = Some wfile"
    "info p rfile" "info p wfile" "rfile \<noteq> wfile"
  shows "pipe_write t wfile bs (pipe_close rfile p) = Some (Returned ERR_END [], pipe_close rfile p) \<and>
    (\<exists>p'. pipe_read t rfile n (pipe_close wfile p) =
       Some (Returned (int (min n (length (contents q)))) (take n (contents q)), p')) \<and>
    pipe_read t rfile n (pipe_close rfile p) = Some (Returned (-1) [], pipe_close rfile p)"
proof -
  from pipe_read_closed_eq [OF assms(2), of t n "[]"] obtain q' where
    "pipe_read_closed t n q [] = Some (Returned (int (min n (length (contents q)))) (take n (contents q)), q')"
    by auto
  with assms show ?thesis by (auto simp: pipe_write_def pipe_read_def pipe_close_def)
qed

theorem pipe_closed_ends_witness:
  "pipe_write 5 2 [9] (pipe_close 1 pipe_fresh) = Some (Returned ERR_END [], pipe_close 1 pipe_fresh) \<and>
   (\<exists>p'. pipe_read 5 1 10 (pipe_close 2 pipe_fresh) = Some (Returned 0 [], p'))"
  using pipe_closed_ends [OF pipe_fresh_simps(1) bbq_fresh_inv(1) pipe_fresh_simps(2-5), of 5 "[9]" 10]
  by (simp add: bbq_fresh_inv)

text \<open>C24: Reading more bytes than a pipe holds blocks while a writer exists: the reader takes what is there
  and sleeps until all \<open>n\<close> bytes have come, and closing the write end does not wake it.\<close>

theorem pipe_read_blocks:
  assumes "buffer p = Some q" "bbq_inv q" "write_file p = Some wfile" "info p rfile" "info p wfile"
    "rfile \<noteq> wfile" "length (contents q) < n"
  shows "\<exists>p' q'. pipe_read t rfile n p = Some (Blocked (contents q), p') \<and> buffer p' = Some q' \<and>
    t \<in> set (item_added q') \<and> buffer (pipe_close wfile p') = Some q'"
proof -
  from pipe_read_open_short [OF assms(2,7), of t "[]"] obtain q' where
    "pipe_read_open t n q [] = Some (Blocked (contents q), q')" "item_added q' = item_added q @ [t]" by auto
  with assms show ?thesis by (auto simp: pipe_read_def pipe_close_def)
qed

theorem pipe_read_blocks_witness:
  "\<exists>p' q'. pipe_read 5 1 4 pipe_fresh = Some (Blocked [], p') \<and> buffer p' = Some q' \<and> 5 \<in> set (item_added q')"
  using pipe_read_blocks [OF pipe_fresh_simps(1) bbq_fresh_inv(1) pipe_fresh_simps(3,4,5), of 4 5]
  by (auto simp: bbq_fresh_inv)



end
