(* ===== verification/RadixTree.thy ===== *)
theory RadixTree
  imports OSV_Base
begin

section \<open>Radix trees (kernel/radix_tree.c)\<close>

text \<open>
  A radix tree in a heap of nodes. \<open>pool\<close> is what the node allocator will hand out: \<^verbatim>\<open>kmem_cache_alloc\<close>
  takes its first element and fails when there is none, \<^verbatim>\<open>kmem_cache_free\<close> gives a node back. A node
  that is not allocated is not in \<open>nodes\<close>, and using it is the result \<open>None\<close>, as is a failed assertion.
  Slots hold child nodes or, on level 0, the leaves.
\<close>

abbreviation (input) ERR_RADIX_TREE_ALLOC :: err_t where "ERR_RADIX_TREE_ALLOC \<equiv> 1"
abbreviation (input) ERR_RADIX_TREE_NODE_EXIST :: err_t where "ERR_RADIX_TREE_NODE_EXIST \<equiv> 2"

record rnode =
  count :: int
  parent :: "addr option"
  slots :: "nat \<Rightarrow> addr option"

record rtree =
  height :: nat
  root_node :: "addr option"
  nodes :: "addr \<Rightarrow> rnode option"
  pool :: "addr list"

definition radix_tree_node_create :: "rtree \<Rightarrow> addr option \<times> rtree" where
  "radix_tree_node_create t =
     (case pool t of
        [] \<Rightarrow> (None, t)
      | a # as \<Rightarrow> (Some a, t\<lparr>pool := as,
          nodes := (nodes t)(a \<mapsto> \<lparr>count = 0, parent = None, slots = (\<lambda>_. None)\<rparr>)\<rparr>))"

text \<open>The shift of a 32-bit \<^verbatim>\<open>int\<close>; the machine takes the shift count modulo 32.\<close>

definition radix_tree_max_index :: "rtree \<Rightarrow> int" where
  "radix_tree_max_index t =
     (if height t = 0 then -1 else sint ((push_bit (6 * height t mod 32) 1 :: u32) - 1))"

definition radix_tree_level_index :: "int \<Rightarrow> nat \<Rightarrow> nat" where
  "radix_tree_level_index index level = nat (drop_bit (level * 6) index AND (push_bit 6 1 - 1))"

definition radix_tree_add_child :: "addr \<Rightarrow> nat \<Rightarrow> addr \<Rightarrow> bool \<Rightarrow> rtree \<Rightarrow> (err_t \<times> rtree) option" where
  "radix_tree_add_child node index child is_node t =
     do { nd \<leftarrow> nodes t node;
          if slots nd index \<noteq> None then Some (ERR_RADIX_TREE_NODE_EXIST, t)
          else do {
            let t = t\<lparr>nodes := (nodes t)(node \<mapsto> nd\<lparr>slots := (slots nd)(index \<mapsto> child), count := count nd + 1\<rparr>)\<rparr>;
            kassert (count nd + 1 \<le> 64);
            if is_node then do {
              c \<leftarrow> nodes t child;
              Some (ERR_OK, t\<lparr>nodes := (nodes t)(child \<mapsto> c\<lparr>parent := Some node\<rparr>)\<rparr>) }
            else Some (ERR_OK, t) } }"

fun find_parent_loop :: "int \<Rightarrow> bool \<Rightarrow> nat \<Rightarrow> addr option \<Rightarrow> rtree \<Rightarrow> (addr option \<times> rtree) option" where
  "find_parent_loop index alloc 0 node t = Some (node, t)"
| "find_parent_loop index alloc (Suc l) None t = Some (None, t)"
| "find_parent_loop index alloc (Suc l) (Some a) t =
     do { nd \<leftarrow> nodes t a;
          let level_index = radix_tree_level_index index (Suc l);
          if slots nd level_index = None \<and> alloc then
            (case radix_tree_node_create t of
               (None, t) \<Rightarrow> Some (None, t)
             | (Some c, t) \<Rightarrow>
                 do { (_, t) \<leftarrow> radix_tree_add_child a level_index c True t;
                      find_parent_loop index alloc l (Some c) t })
          else find_parent_loop index alloc l (slots nd level_index) t }"

definition radix_tree_find_parent :: "int \<Rightarrow> bool \<Rightarrow> rtree \<Rightarrow> (addr option \<times> rtree) option" where
  "radix_tree_find_parent index alloc t = find_parent_loop index alloc (height t - 1) (root_node t) t"

definition radix_tree_add_level :: "rtree \<Rightarrow> (err_t \<times> rtree) option" where
  "radix_tree_add_level t =
     (case radix_tree_node_create t of
        (None, t) \<Rightarrow> Some (ERR_RADIX_TREE_ALLOC, t)
      | (Some node, t) \<Rightarrow>
          do { (_, t) \<leftarrow> (case root_node t of None \<Rightarrow> Some (ERR_OK, t)
                          | Some r \<Rightarrow> radix_tree_add_child node 0 r True t);
               Some (ERR_OK, t\<lparr>root_node := Some node, height := height t + 1\<rparr>) })"

definition radix_tree_construct :: "rtree \<Rightarrow> rtree" where
  "radix_tree_construct t = t\<lparr>height := 0, root_node := None\<rparr>"

definition radix_tree_destroy :: "rtree \<Rightarrow> rtree" where
  "radix_tree_destroy t = t\<lparr>root_node := None, height := 0\<rparr>"

definition radix_tree_empty :: "rtree \<Rightarrow> bool" where
  "radix_tree_empty t \<longleftrightarrow> height t = 0"

definition radix_tree_lookup :: "int \<Rightarrow> rtree \<Rightarrow> addr option option" where
  "radix_tree_lookup index t =
     (if index > radix_tree_max_index t then Some None
      else do { (node, t) \<leftarrow> radix_tree_find_parent index False t;
                case node of
                    None \<Rightarrow> Some None
                  | Some a \<Rightarrow> do { nd \<leftarrow> nodes t a; Some (slots nd (radix_tree_level_index index 0)) } })"

lemma add_level_pool:
  assumes "radix_tree_add_level t = Some (0, t')"
  shows "length (pool t') < length (pool t)"
  using assms
  by (auto simp: radix_tree_add_level_def radix_tree_node_create_def radix_tree_add_child_def Let_def
           split: list.splits option.splits if_splits elim!: bind_SomeE)

text \<open>The loop of \<^verbatim>\<open>radix_tree_insert\<close> that adds levels; it ends because every level takes a node.\<close>

function grow_loop :: "int \<Rightarrow> rtree \<Rightarrow> (err_t \<times> rtree) option" where
  "grow_loop index t =
     (if index > radix_tree_max_index t then
        (case radix_tree_add_level t of
           None \<Rightarrow> None
         | Some (e, t') \<Rightarrow> if e \<noteq> ERR_OK then Some (ERR_RADIX_TREE_ALLOC, t') else grow_loop index t')
      else Some (ERR_OK, t))"
  by pat_completeness auto
termination
  by (relation "measure (\<lambda>(i, t). length (pool t))") (auto intro: add_level_pool)

declare grow_loop.simps [simp del]

definition radix_tree_insert :: "int \<Rightarrow> addr \<Rightarrow> rtree \<Rightarrow> (err_t \<times> rtree) option" where
  "radix_tree_insert index leaf t =
     do { (e, t) \<leftarrow> grow_loop index t;
          if e \<noteq> ERR_OK then Some (ERR_RADIX_TREE_ALLOC, t)
          else do {
            (node, t) \<leftarrow> radix_tree_find_parent index True t;
            case node of
                None \<Rightarrow> Some (ERR_RADIX_TREE_ALLOC, t)
              | Some a \<Rightarrow>
                  do { (e, t) \<leftarrow> radix_tree_add_child a (radix_tree_level_index index 0) leaf False t;
                       if e \<noteq> ERR_OK then Some (ERR_RADIX_TREE_NODE_EXIST, t) else Some (ERR_OK, t) } } }"

text \<open>The loop of \<^verbatim>\<open>radix_tree_remove\<close> over the remaining levels, from \<open>level\<close> on.\<close>

fun remove_loop :: "int \<Rightarrow> nat \<Rightarrow> nat \<Rightarrow> addr option \<Rightarrow> rtree \<Rightarrow> rtree option" where
  "remove_loop index 0 level node t =
     do { kassert (node = None); Some (t\<lparr>root_node := None, height := 0\<rparr>) }"
| "remove_loop index (Suc k) level node t =
     do { a \<leftarrow> node;
          nd \<leftarrow> nodes t a;
          let level_index = radix_tree_level_index index level;
          kassert (slots nd level_index \<noteq> None);
          kassert (count nd > 0);
          let nd = nd\<lparr>count := count nd - 1, slots := (slots nd)(level_index := None)\<rparr>;
          if count nd = 0
          then remove_loop index k (Suc level) (parent nd) (t\<lparr>nodes := (nodes t)(a := None), pool := a # pool t\<rparr>)
          else Some (t\<lparr>nodes := (nodes t)(a \<mapsto> nd)\<rparr>) }"

definition radix_tree_remove :: "int \<Rightarrow> rtree \<Rightarrow> (addr option \<times> rtree) option" where
  "radix_tree_remove index t =
     do { (node, t) \<leftarrow> radix_tree_find_parent index False t;
          case node of
              None \<Rightarrow> Some (None, t)
            | Some a \<Rightarrow>
                do { nd \<leftarrow> nodes t a;
                     let leaf = slots nd (radix_tree_level_index index 0);
                     if leaf = None then Some (None, t)
                     else do { t \<leftarrow> remove_loop index (height t) 0 node t; Some (leaf, t) } } }"

subsection \<open>Shape\<close>

lemma level_index_eq: "radix_tree_level_index (int j) l = (j div 64 ^ l) mod 64"
proof -
  have m: "x AND (push_bit 6 1 - 1) = x mod 64" for x :: int
    using take_bit_eq_mask [of 6 x] by (simp add: take_bit_eq_mod mask_eq_exp_minus_1)
  have "(2 :: int) ^ (l * 6) = 64 ^ l" by (subst mult.commute, subst power_mult) simp
  then have "drop_bit (l * 6) (int j) = int (j div 64 ^ l)" by (simp add: drop_bit_eq_div zdiv_int)
  then have "radix_tree_level_index (int j) l = nat (int (j div 64 ^ l) mod int 64)"
    unfolding radix_tree_level_index_def m by simp
  then show ?thesis unfolding zmod_int [symmetric] nat_int .
qed

lemma level_index_bound [simp]: "radix_tree_level_index (int j) l < 64"
  by (simp add: level_index_eq)

lemma max_index_eq:
  assumes "height t \<le> 5"
  shows "radix_tree_max_index t = (if height t = 0 then -1 else 64 ^ height t - 1)"
proof -
  have "height t \<in> {0, 1, 2, 3, 4, 5}" using assms by auto
  then show ?thesis by (auto simp: radix_tree_max_index_def)
qed

text \<open>A tree as a map from a level and the common index prefix of everything below to the node there.
  The slots of an inner node are the nodes one level down; counts, reverse links and the root
  agree with the map.\<close>

type_synonym shape = "nat \<times> nat \<Rightarrow> addr option"

definition node_ok :: "rtree \<Rightarrow> shape \<Rightarrow> nat \<Rightarrow> nat \<Rightarrow> rnode \<Rightarrow> bool" where
  "node_ok t at l p nd \<longleftrightarrow>
     count nd = int (card {i. i < 64 \<and> slots nd i \<noteq> None}) \<and> (\<forall>i\<ge>64. slots nd i = None) \<and>
     (l > 0 \<longrightarrow> (\<forall>i<64. slots nd i = at (l - 1, p * 64 + i))) \<and>
     (if l + 1 = height t then p = 0 \<and> parent nd = None
      else at (l + 1, p div 64) \<noteq> None \<and> parent nd = at (l + 1, p div 64))"

definition rep :: "rtree \<Rightarrow> shape \<Rightarrow> bool" where
  "rep t at \<longleftrightarrow> height t \<le> 5 \<and>
     (if height t = 0 then root_node t = None \<and> at = (\<lambda>_. None)
      else root_node t = at (height t - 1, 0) \<and> root_node t \<noteq> None) \<and>
     (\<forall>l p a. at (l, p) = Some a \<longrightarrow> l < height t \<and> a \<notin> set (pool t) \<and>
        (\<exists>nd. nodes t a = Some nd \<and> node_ok t at l p nd)) \<and>
     (\<forall>x y a. at x = Some a \<and> at y = Some a \<longrightarrow> x = y) \<and>
     distinct (pool t)"

text \<open>The leaves: what the tree maps an index to.\<close>

definition leaf :: "rtree \<Rightarrow> shape \<Rightarrow> nat \<Rightarrow> addr option" where
  "leaf t at j = do { a \<leftarrow> at (0, j div 64); nd \<leftarrow> nodes t a; slots nd (j mod 64) }"

lemma rep_node:
  assumes "rep t at" "at (l, p) = Some a"
  obtains nd where "nodes t a = Some nd" "node_ok t at l p nd" "l < height t" "a \<notin> set (pool t)"
  using assms unfolding rep_def by blast

lemma rep_nodeD:
  "rep t at \<Longrightarrow> at (l, p) = Some a \<Longrightarrow>
   \<exists>nd. nodes t a = Some nd \<and> node_ok t at l p nd \<and> l < height t \<and> a \<notin> set (pool t)"
  unfolding rep_def by blast

lemma rep_inj: "rep t at \<Longrightarrow> at x = Some a \<Longrightarrow> at y = Some a \<Longrightarrow> x = y"
  unfolding rep_def by blast

lemma rep_height: "rep t at \<Longrightarrow> height t \<le> 5"
  unfolding rep_def by blast

lemma rep_0: "rep t at \<Longrightarrow> height t = 0 \<Longrightarrow> at = (\<lambda>_. None) \<and> root_node t = None"
  unfolding rep_def by metis

lemma rep_distinct: "rep t at \<Longrightarrow> distinct (pool t)"
  unfolding rep_def by blast

lemma rep_root:
  assumes "rep t at" "height t > 0"
  shows "\<exists>r. root_node t = Some r \<and> at (height t - 1, 0) = Some r"
proof -
  from assms have "root_node t = at (height t - 1, 0)" "root_node t \<noteq> None"
    unfolding rep_def by (metis not_gr_zero)+
  then show ?thesis by (metis not_None_eq)
qed

lemma repI:
  assumes "height t \<le> 5" "height t \<noteq> 0" "root_node t = Some r" "at (height t - 1, 0) = Some r"
    and "\<And>l p a. at (l, p) = Some a \<Longrightarrow>
      l < height t \<and> a \<notin> set (pool t) \<and> (\<exists>nd. nodes t a = Some nd \<and> node_ok t at l p nd)"
    and "\<And>x y a. at x = Some a \<Longrightarrow> at y = Some a \<Longrightarrow> x = y" "distinct (pool t)"
  shows "rep t at"
proof -
  have "\<forall>l p a. at (l, p) = Some a \<longrightarrow>
      l < height t \<and> a \<notin> set (pool t) \<and> (\<exists>nd. nodes t a = Some nd \<and> node_ok t at l p nd)"
    using assms(5) by blast
  moreover have "\<forall>x y a. at x = Some a \<and> at y = Some a \<longrightarrow> x = y" using assms(6) by blast
  ultimately show ?thesis using assms(1-4,7) unfolding rep_def by (simp only: if_False) simp
qed

lemma rep_slot:
  assumes "rep t at" "at (Suc l, p) = Some a" "nodes t a = Some nd" "i < 64"
  shows "slots nd i = at (l, p * 64 + i)"
  using assms by (elim rep_node) (auto simp: node_ok_def)

lemma rep_up:
  assumes "rep t at" "at (l, p) = Some a" "Suc l < height t"
  shows "\<exists>b. at (Suc l, p div 64) = Some b"
  using assms by (elim rep_node) (auto simp: node_ok_def split: if_splits)

text \<open>Nodes lie above the indices that the height covers.\<close>

lemma rep_prefix_bound:
  assumes "rep t at" "at (l, p) = Some a"
  shows "p < 64 ^ (height t - 1 - l)"
  using assms(2)
proof (induction "height t - 1 - l" arbitrary: l p a)
  case 0
  with assms(1) show ?case by (elim rep_node) (auto simp: node_ok_def)
next
  case (Suc k)
  then have l: "Suc l < height t" by simp
  with rep_up [OF assms(1) Suc.prems] obtain b where "at (Suc l, p div 64) = Some b" by blast
  moreover have k: "k = height t - 1 - Suc l" using Suc.hyps(2) l by simp
  ultimately have "p div 64 < 64 ^ k" using Suc.hyps(1) [OF k] by simp
  then show ?case unfolding Suc.hyps(2) [symmetric] by (simp add: div_less_iff_less_mult mult.commute)
qed

lemma div_step: "(j :: nat) div 64 ^ Suc l * 64 + (j div 64 ^ l) mod 64 = j div 64 ^ l"
  by (metis div_mult2_eq div_mult_mod_eq mult.commute power_Suc)

lemma div_up: "(j :: nat) div 64 ^ Suc l div 64 = j div 64 ^ Suc (Suc l)"
  by (simp add: div_mult2_eq [symmetric] mult.commute)

lemma rep_below_None:
  assumes "rep t at" "at (m + k, j div 64 ^ Suc (m + k)) = None" "m + k < height t"
  shows "at (m, j div 64 ^ Suc m) = None"
  using assms(2,3)
proof (induction k)
  case (Suc k)
  have "at (m + k, j div 64 ^ Suc (m + k)) = None"
  proof (rule ccontr)
    assume "at (m + k, j div 64 ^ Suc (m + k)) \<noteq> None"
    then obtain a where a: "at (m + k, j div 64 ^ Suc (m + k)) = Some a" by blast
    have "Suc (m + k) < height t" using Suc.prems by simp
    from rep_up [OF assms(1) a this] Suc.prems(1) show False unfolding div_up by simp
  qed
  with Suc show ?case by simp
qed simp

lemma rep_slot_index:
  assumes "rep t at" "at (Suc l, j div 64 ^ Suc (Suc l)) = Some a" "nodes t a = Some nd"
  shows "slots nd (radix_tree_level_index (int j) (Suc l)) = at (l, j div 64 ^ Suc l)"
  using rep_slot [OF assms, of "(j div 64 ^ Suc l) mod 64"] div_step [of j "Suc l"]
  by (simp add: level_index_eq)

lemma find_parent_loop_False:
  assumes "rep t at" "node = at (l, j div 64 ^ Suc l)" "l < height t"
  shows "find_parent_loop (int j) False l node t = Some (at (0, j div 64), t)"
  using assms(2,3)
proof (induction l arbitrary: node)
  case (Suc l)
  show ?case
  proof (cases node)
    case None
    with rep_below_None [OF assms(1), of 0 "Suc l" j] Suc.prems show ?thesis by simp
  next
    case (Some a)
    with assms(1) Suc.prems obtain nd where nd: "nodes t a = Some nd" by (metis rep_node)
    with rep_slot_index [OF assms(1) _ nd] Some Suc show ?thesis by simp
  qed
qed simp

lemma prefix_None: "rep t at \<Longrightarrow> 64 ^ height t \<le> j \<Longrightarrow> at (0, j div 64) = None"
proof (rule ccontr)
  assume rep: "rep t at" and j: "64 ^ height t \<le> j" and "at (0, j div 64) \<noteq> None"
  then obtain a where a: "at (0, j div 64) = Some a" by blast
  from rep_prefix_bound [OF rep a] have b: "j div 64 < 64 ^ (height t - 1)" by simp
  from rep a have "height t > 0" by (elim rep_node) simp
  then obtain k where "height t = Suc k" by (cases "height t") auto
  with b j show False by (simp add: div_less_iff_less_mult mult.commute)
qed

text \<open>Lookup reads the leaf map, on every index.\<close>

lemma beyond_iff:
  assumes "height t \<le> 5"
  shows "int j > radix_tree_max_index t \<longleftrightarrow> height t = 0 \<or> 64 ^ height t \<le> j"
proof (cases "height t = 0")
  case False
  then have m: "radix_tree_max_index t = 64 ^ height t - 1" using max_index_eq [OF assms] by simp
  have "(64 :: int) ^ height t \<le> int j \<longleftrightarrow> 64 ^ height t \<le> j"
    by (metis of_nat_le_iff of_nat_numeral of_nat_power)
  with m False show ?thesis by linarith
qed (simp add: max_index_eq)

lemma find_parent_False:
  assumes "rep t at" "height t > 0" "j < 64 ^ height t"
  shows "radix_tree_find_parent (int j) False t = Some (at (0, j div 64), t)"
proof -
  obtain k where k: "height t = Suc k" using assms(2) by (cases "height t") auto
  then have "root_node t = at (k, j div 64 ^ Suc k)" using rep_root [OF assms(1,2)] assms(3) by auto
  from find_parent_loop_False [OF assms(1) this] k show ?thesis
    by (simp add: radix_tree_find_parent_def)
qed

lemma lookup_eq:
  assumes "rep t at"
  shows "radix_tree_lookup (int j) t = Some (leaf t at j)"
proof (cases "int j > radix_tree_max_index t")
  case True
  then have "height t = 0 \<or> 64 ^ height t \<le> j" using beyond_iff [OF rep_height [OF assms]] by simp
  then have "at (0, j div 64) = None"
    using rep_0 [OF assms] prefix_None [OF assms, of j] by auto
  with True show ?thesis by (simp add: radix_tree_lookup_def leaf_def)
next
  case False
  then have "height t > 0" "j < 64 ^ height t" using beyond_iff [OF rep_height [OF assms]] by auto
  note f = find_parent_False [OF assms this]
  show ?thesis
  proof (cases "at (0, j div 64)")
    case None
    with f False show ?thesis by (simp add: radix_tree_lookup_def leaf_def)
  next
    case (Some a)
    with rep_nodeD [OF assms Some] f False show ?thesis
      by (auto simp: radix_tree_lookup_def leaf_def level_index_eq)
  qed
qed

subsection \<open>Adding nodes\<close>

lemma node_ok_cong:
  assumes "node_ok t at l p nd" "height t' = height t"
    and "\<And>i. l > 0 \<Longrightarrow> i < 64 \<Longrightarrow> at' (l - 1, p * 64 + i) = at (l - 1, p * 64 + i)"
    and "l + 1 \<noteq> height t \<Longrightarrow> at' (l + 1, p div 64) = at (l + 1, p div 64)"
  shows "node_ok t' at' l p nd"
  using assms by (auto simp: node_ok_def split: if_splits)

lemma prefix_split:
  assumes "i < 64" "i' < 64"
  shows "(q::nat) * 64 + i = q' * 64 + i' \<longleftrightarrow> q = q' \<and> i = i'"
proof
  assume eq: "q * 64 + i = q' * 64 + i'"
  then have "(q * 64 + i) div 64 = (q' * 64 + i') div 64" by simp
  with assms have "q = q'" by simp
  with eq show "q = q' \<and> i = i'" by simp
qed simp

lemma card_slots_upd:
  assumes "slots nd i = None" "i < 64"
  shows "card {k. k < 64 \<and> ((slots nd)(i \<mapsto> c)) k \<noteq> None} = Suc (card {k. k < 64 \<and> slots nd k \<noteq> None})"
proof -
  have "{k. k < 64 \<and> ((slots nd)(i \<mapsto> c)) k \<noteq> None} = insert i {k. k < 64 \<and> slots nd k \<noteq> None}"
    using assms by auto
  then show ?thesis using assms by simp
qed

lemma card_slots_le: "card {k. k < 64 \<and> P k} \<le> 64" for P :: "nat \<Rightarrow> bool"
  using card_mono [of "{..<64}" "{k. k < 64 \<and> P k}"] by auto

text \<open>A child filled into a free slot still fits: the assertion on the count holds.\<close>

lemma count_room:
  assumes "node_ok t at l p nd" "slots nd i = None" "i < 64"
  shows "count nd + 1 \<le> 64"
proof -
  have "int (card {k. k < 64 \<and> slots nd k \<noteq> None}) + 1 \<le> 64"
    using card_slots_upd [OF assms(2,3)] card_slots_le [of "\<lambda>k. ((slots nd)(i \<mapsto> 0)) k \<noteq> None"] by simp
  with assms(1) show ?thesis by (simp add: node_ok_def)
qed

text \<open>The state after a new inner node \<open>c\<close> has been put under \<open>a\<close>.\<close>

definition with_child :: "addr \<Rightarrow> rnode \<Rightarrow> nat \<Rightarrow> addr \<Rightarrow> addr list \<Rightarrow> rtree \<Rightarrow> rtree" where
  "with_child a nd i c cs t = t\<lparr>pool := cs, nodes := (nodes t)
     (a \<mapsto> nd\<lparr>slots := (slots nd)(i \<mapsto> c), count := count nd + 1\<rparr>,
      c \<mapsto> \<lparr>count = 0, parent = Some a, slots = (\<lambda>_. None)\<rparr>)\<rparr>"

lemma rep_with_child:
  assumes rep: "rep t at" and a: "at (Suc l, q) = Some a" "nodes t a = Some nd"
    and free: "at (l, q * 64 + i) = None" "i < 64" and pool: "pool t = c # cs"
  shows "rep (with_child a nd i c cs t) (at((l, q * 64 + i) \<mapsto> c))" (is "rep ?t ?at")
proof -
  have ok: "node_ok t at (Suc l) q nd" and l: "Suc l < height t" and ap: "a \<noteq> c" "a \<notin> set cs"
    using a(2) pool rep_nodeD [OF rep a(1)] by auto
  have si: "slots nd i = None" using rep_slot [OF rep a free(2)] free by simp
  have new: "x = (l, q * 64 + i)" if "?at x = Some c" for x
    using that pool rep_nodeD [OF rep, of "fst x" "snd x" c] by (cases x) (auto split: if_splits)
  have nodes: "l' < height ?t \<and> b \<notin> set (pool ?t) \<and> (\<exists>nd. nodes ?t b = Some nd \<and> node_ok ?t ?at l' p' nd)"
    if b: "?at (l', p') = Some b" for l' p' b
  proof (cases "(l', p') = (l, q * 64 + i)")
    case True
    have "at (l - 1, (q * 64 + i) * 64 + k) = None" if "l > 0" "k < 64" for k
    proof -
      have "((q * 64 + i) * 64 + k) div 64 = q * 64 + i" using that by simp
      with rep_up [OF rep, of "l - 1" "(q * 64 + i) * 64 + k"] free that l show ?thesis
        by (cases "at (l - 1, (q * 64 + i) * 64 + k)") auto
    qed
    moreover have "(q * 64 + i) div 64 = q" using free(2) by simp
    ultimately have "node_ok ?t ?at l (q * 64 + i) \<lparr>count = 0, parent = Some a, slots = (\<lambda>_. None)\<rparr>"
      using a l by (auto simp: node_ok_def with_child_def)
    moreover have "c \<notin> set cs" using rep_distinct [OF rep] pool by simp
    ultimately show ?thesis using True b l by (simp add: with_child_def)
  next
    case False
    then have at: "at (l', p') = Some b" using b by (auto split: if_splits)
    obtain nd' where nd': "nodes t b = Some nd'" "node_ok t at l' p' nd'" "l' < height t" "b \<notin> set (pool t)"
      using rep at by (rule rep_node)
    have up: "?at (l' + 1, p' div 64) = at (l' + 1, p' div 64)" if "l' + 1 \<noteq> height t"
    proof -
      have "at (l' + 1, p' div 64) \<noteq> None" using nd'(2) that unfolding node_ok_def by metis
      with free(1) have "(l' + 1, p' div 64) \<noteq> (l, q * 64 + i)" by metis
      then show ?thesis by (rule fun_upd_other)
    qed
    show ?thesis
    proof (cases "b = a")
      case True
      then have [simp]: "l' = Suc l" "p' = q" using rep_inj [OF rep a(1)] at by auto
      have "count nd + 1 = int (card {k. k < 64 \<and> ((slots nd)(i \<mapsto> c)) k \<noteq> None})"
        using ok card_slots_upd [OF si free(2), of c] by (simp only: node_ok_def)
      moreover have "\<forall>k<64. ((slots nd)(i \<mapsto> c)) k = ?at (l, q * 64 + k)" "\<forall>k\<ge>64. ((slots nd)(i \<mapsto> c)) k = None"
        using ok free(2) by (simp_all add: node_ok_def prefix_split)
      moreover have "if Suc l + 1 = height t then q = 0 \<and> parent nd = None
          else ?at (Suc l + 1, q div 64) \<noteq> None \<and> parent nd = ?at (Suc l + 1, q div 64)"
        using ok unfolding node_ok_def by (simp split: if_splits)
      ultimately have "node_ok ?t ?at (Suc l) q (nd\<lparr>slots := (slots nd)(i \<mapsto> c), count := count nd + 1\<rparr>)"
        unfolding node_ok_def by (simp add: with_child_def split: if_splits)
      with True ap l show ?thesis by (simp add: with_child_def)
    next
      case False
      have down: "?at (l' - 1, p' * 64 + k) = at (l' - 1, p' * 64 + k)" if "l' > 0" "k < 64" for k
      proof -
        have "(l', p') \<noteq> (Suc l, q)" using False a(1) at by auto
        then have "(l' - 1, p' * 64 + k) \<noteq> (l, q * 64 + i)" using that free(2) by (auto simp: prefix_split)
        then show ?thesis by (rule fun_upd_other)
      qed
      have "node_ok ?t ?at l' p' nd'"
        by (rule node_ok_cong [OF nd'(2)]) (use down up in \<open>simp_all add: with_child_def\<close>)
      with False nd' pool show ?thesis by (auto simp: with_child_def)
    qed
  qed
  have inj: "x = y" if "?at x = Some b" "?at y = Some b" for x y b
  proof (cases "b = c")
    case True
    with that new show ?thesis by blast
  next
    case False
    with that have "at x = Some b" "at y = Some b" by (auto split: if_splits)
    then show ?thesis by (rule rep_inj [OF rep])
  qed
  have "(height t - 1, 0) \<noteq> (l, q * 64 + i)" using l by auto
  then have "?at (height t - 1, 0) = at (height t - 1, 0)" by (rule fun_upd_other)
  then obtain r where "root_node ?t = Some r" "?at (height ?t - 1, 0) = Some r"
    using rep_root [OF rep] l by (auto simp: with_child_def)
  moreover have "distinct (pool ?t)" "height ?t \<le> 5" "height ?t \<noteq> 0"
    using rep_distinct [OF rep] rep_height [OF rep] pool l by (simp_all add: with_child_def)
  ultimately show ?thesis by (intro repI [OF _ _ _ _ nodes inj])
qed

lemma leaf_with_child:
  assumes rep: "rep t at" and a: "at (Suc l, q) = Some a"
    and free: "at (l, q * 64 + i) = None" and pool: "pool t = c # cs"
  shows "leaf (with_child a nd i c cs t) (at((l, q * 64 + i) \<mapsto> c)) = leaf t at"
proof
  fix j
  show "leaf (with_child a nd i c cs t) (at((l, q * 64 + i) \<mapsto> c)) j = leaf t at j"
  proof (cases "(0, j div 64) = (l, q * 64 + i)")
    case True
    with free show ?thesis by (simp add: leaf_def with_child_def)
  next
    case False
    then have u: "(at((l, q * 64 + i) \<mapsto> c)) (0, j div 64) = at (0, j div 64)" by (rule fun_upd_other)
    have "b \<noteq> a \<and> b \<noteq> c" if "at (0, j div 64) = Some b" for b
      using rep_inj [OF rep a, of "(0, j div 64)"] rep_nodeD [OF rep that] that pool by auto
    then show ?thesis unfolding leaf_def u
      by (cases "at (0, j div 64)") (simp_all add: with_child_def)
  qed
qed

lemma create_and_add:
  assumes rep: "rep t at" and a: "at (Suc l, q) = Some a" "nodes t a = Some nd"
    and free: "at (l, q * 64 + i) = None" "i < 64" and pool: "pool t = c # cs"
  shows "\<exists>t'. radix_tree_node_create t = (Some c, t') \<and>
    radix_tree_add_child a i c True t' = Some (0, with_child a nd i c cs t)"
proof -
  have "a \<noteq> c" "node_ok t at (Suc l) q nd" using rep_nodeD [OF rep a(1)] a(2) pool by auto
  moreover have "slots nd i = None" using rep_slot [OF rep a free(2)] free(1) by simp
  moreover note count_room [OF calculation(2,3) free(2)]
  ultimately show ?thesis
    using a(2) pool
    by (simp add: radix_tree_node_create_def radix_tree_add_child_def Let_def with_child_def fun_upd_twist)
qed

lemma find_parent_loop_True:
  assumes "rep t at" "at (l, j div 64 ^ Suc l) = Some a"
  shows "\<exists>r t' at'. find_parent_loop (int j) True l (Some a) t = Some (r, t') \<and> rep t' at' \<and>
    leaf t' at' = leaf t at \<and> (if r = None then pool t' = [] else r = at' (0, j div 64)) \<and> height t' = height t"
  using assms
proof (induction l arbitrary: a t at)
  case 0
  then show ?case by auto
next
  case (Suc l)
  let ?i = "(j div 64 ^ Suc l) mod 64" and ?q = "j div 64 ^ Suc (Suc l)"
  obtain nd where nd: "nodes t a = Some nd" using rep_nodeD [OF Suc.prems] by blast
  have pos: "?q * 64 + ?i = j div 64 ^ Suc l" by (rule div_step)
  have slot: "slots nd ?i = at (l, j div 64 ^ Suc l)"
    using rep_slot [OF Suc.prems nd, of ?i] unfolding pos by simp
  show ?case
  proof (cases "at (l, j div 64 ^ Suc l)")
    case (Some c)
    with Suc.IH [OF Suc.prems(1) Some] nd slot show ?thesis by (simp add: level_index_eq)
  next
    case None
    show ?thesis
    proof (cases "pool t")
      case Nil
      with None nd slot Suc.prems(1) show ?thesis
        by (auto simp: level_index_eq radix_tree_node_create_def)
    next
      case (Cons c cs)
      let ?t = "with_child a nd ?i c cs t" and ?at = "at((l, ?q * 64 + ?i) \<mapsto> c)"
      have free: "at (l, ?q * 64 + ?i) = None" "?i < 64" using None pos by simp_all
      note w = rep_with_child [OF Suc.prems nd free Cons]
        leaf_with_child [OF Suc.prems free(1) Cons, of nd] create_and_add [OF Suc.prems nd free Cons]
      have "?at (l, j div 64 ^ Suc l) = Some c" unfolding pos by simp
      from Suc.IH [OF w(1) this] obtain r t' at' where
        f: "find_parent_loop (int j) True l (Some c) ?t = Some (r, t')" and r: "rep t' at'" "leaf t' at' = leaf ?t ?at"
        "if r = None then pool t' = [] else r = at' (0, j div 64)" "height t' = height ?t" by blast
      have "find_parent_loop (int j) True (Suc l) (Some a) t = Some (r, t')"
        using f w(3) None nd slot by (auto simp: level_index_eq)
      moreover have "height ?t = height t" by (simp add: with_child_def)
      ultimately show ?thesis using r w(2) by metis
    qed
  qed
qed

subsection \<open>Adding a level\<close>

definition raised :: "addr \<Rightarrow> addr list \<Rightarrow> rtree \<Rightarrow> rtree" where
  "raised c cs t = t\<lparr>pool := cs, root_node := Some c, height := height t + 1, nodes :=
     (case root_node t of
        None \<Rightarrow> (nodes t)(c \<mapsto> \<lparr>count = 0, parent = None, slots = (\<lambda>_. None)\<rparr>)
      | Some r \<Rightarrow> (nodes t)(c \<mapsto> \<lparr>count = 1, parent = None, slots = [0 \<mapsto> r]\<rparr>,
          r := map_option (\<lambda>nd. nd\<lparr>parent := Some c\<rparr>) (nodes t r)))\<rparr>"

lemma add_level_eq:
  assumes "rep t at"
  shows "radix_tree_add_level t =
    (case pool t of [] \<Rightarrow> Some (ERR_RADIX_TREE_ALLOC, t) | c # cs \<Rightarrow> Some (ERR_OK, raised c cs t))"
proof (cases "pool t")
  case Nil
  then show ?thesis by (simp add: radix_tree_add_level_def radix_tree_node_create_def)
next
  case (Cons c cs)
  show ?thesis
  proof (cases "root_node t")
    case None
    with Cons show ?thesis
      by (simp add: radix_tree_add_level_def radix_tree_node_create_def raised_def)
  next
    case (Some r)
    then have "height t > 0" using rep_0 [OF assms] by (cases "height t") auto
    then have "at (height t - 1, 0) = Some r" using rep_root [OF assms] Some by auto
    then obtain nd where "nodes t r = Some nd" "r \<noteq> c" using rep_nodeD [OF assms] Cons by fastforce
    with Cons Some show ?thesis
      by (simp add: radix_tree_add_level_def radix_tree_node_create_def radix_tree_add_child_def
          raised_def Let_def)
  qed
qed

lemma rep_raised:
  assumes rep: "rep t at" and h: "height t < 5" and pool: "pool t = c # cs"
  shows "rep (raised c cs t) (at((height t, 0) \<mapsto> c))" (is "rep ?t ?at")
proof -
  have old: "?at (l, p) = at (l, p)" if "l < height t" for l p using that by simp
  have low: "l < height t" "b \<notin> set (c # cs)" "(l', p') \<noteq> (l, p) \<Longrightarrow> at (l', p') \<noteq> Some b"
    if "at (l, p) = Some b" for l p b l' p'
    using rep_nodeD [OF rep that] pool rep_inj [OF rep that] by auto
  have top: "p = 0" if "at (height t - 1, p) = Some b" "height t > 0" for p b
    using rep_prefix_bound [OF rep that(1)] that(2) by simp
  show ?thesis
  proof (rule repI)
    show "height ?t \<le> 5" "height ?t \<noteq> 0" "root_node ?t = Some c" "?at (height ?t - 1, 0) = Some c"
      "distinct (pool ?t)"
      using h rep_distinct [OF rep] pool by (simp_all add: raised_def)
    show "x = y" if "?at x = Some a" "?at y = Some a" for x y a
    proof (cases "a = c")
      case True
      then have "z = (height t, 0)" if "?at z = Some a" for z
        using low(2) [of "fst z" "snd z" a] that by (cases z) (auto split: if_splits)
      with that show ?thesis by blast
    next
      case False
      with that have "at x = Some a" "at y = Some a" by (auto split: if_splits)
      then show ?thesis by (rule rep_inj [OF rep])
    qed
    fix l p b
    assume b: "?at (l, p) = Some b"
    show "l < height ?t \<and> b \<notin> set (pool ?t) \<and> (\<exists>nd. nodes ?t b = Some nd \<and> node_ok ?t ?at l p nd)"
    proof (cases "(l, p) = (height t, 0)")
      case True
      then have b: "b = c" using b by simp
      have "\<exists>nd. nodes ?t c = Some nd \<and> node_ok ?t ?at (height t) 0 nd"
      proof (cases "height t")
        case 0
        then show ?thesis using rep_0 [OF rep] by (simp add: raised_def node_ok_def)
      next
        case (Suc h)
        then obtain r where r: "root_node t = Some r" "at (h, 0) = Some r" using rep_root [OF rep] by auto
        have "at (h, k) = None" if "k > 0" for k
          using top [of k] that Suc by (cases "at (h, k)") auto
        then have "([0 \<mapsto> r] :: nat \<Rightarrow> addr option) k = ?at (h, k)" for k
          using r Suc by (cases "k = 0") auto
        moreover have "{i. i < 64 \<and> ([0 \<mapsto> r] :: nat \<Rightarrow> addr option) i \<noteq> None} = {0::nat}" by auto
        moreover have "r \<noteq> c" using low(2) [OF r(2)] by simp
        ultimately show ?thesis using r Suc by (auto simp: raised_def node_ok_def)
      qed
      with True b rep_distinct [OF rep] pool show ?thesis by (simp add: raised_def)
    next
      case False
      then have at: "at (l, p) = Some b" using b by (auto split: if_splits)
      obtain nd where nd: "nodes t b = Some nd" "node_ok t at l p nd" using rep_nodeD [OF rep at] by blast
      have down: "?at (l - 1, q) = at (l - 1, q)" for q using low(1) [OF at] by auto
      obtain r where r: "root_node t = Some r" "at (height t - 1, 0) = Some r"
        using rep_root [OF rep] low(1) [OF at] by fastforce
      show ?thesis
      proof (cases "Suc l = height t")
        case True
        then have [simp]: "p = 0" using top at by (metis diff_Suc_1 zero_less_Suc)
        then have "b = r" using r at True by (metis diff_Suc_1 option.inject)
        moreover have "node_ok ?t ?at l p (nd\<lparr>parent := Some c\<rparr>)"
          using nd(2) True down by (simp add: node_ok_def raised_def)
        ultimately show ?thesis using r nd low(1,2) [OF at] by (simp add: raised_def)
      next
        case False
        have "b \<noteq> r"
          using rep_inj [OF rep at, of "(height t - 1, 0)"] r(2) False low(1) [OF at] by auto
        moreover have "?at (l + 1, p div 64) = at (l + 1, p div 64)" using False by simp
        then have "node_ok ?t ?at l p nd"
          using nd(2) False low(1) [OF at] by (auto simp: node_ok_def raised_def)
        ultimately show ?thesis using r nd low(1,2) [OF at] by (simp add: raised_def)
      qed
    qed
  qed
qed

lemma leaf_raised:
  assumes rep: "rep t at" and pool: "pool t = c # cs"
  shows "leaf (raised c cs t) (at((height t, 0) \<mapsto> c)) = leaf t at"
proof
  fix j
  show "leaf (raised c cs t) (at((height t, 0) \<mapsto> c)) j = leaf t at j"
  proof (cases "height t")
    case 0
    then show ?thesis using rep_0 [OF rep] by (simp add: leaf_def raised_def)
  next
    case (Suc h)
    then obtain r where r: "root_node t = Some r" using rep_root [OF rep] by auto
    have "b \<noteq> c \<and> nodes t b \<noteq> None" if "at (0, j div 64) = Some b" for b
      using rep_nodeD [OF rep that] pool by auto
    with r Suc show ?thesis
      by (cases "at (0, j div 64)") (auto simp: leaf_def raised_def)
  qed
qed

lemma grow_loop_rep:
  assumes "rep t at" "j < 64 ^ 5"
  shows "\<exists>e t' at'. grow_loop (int j) t = Some (e, t') \<and> rep t' at' \<and> leaf t' at' = leaf t at \<and>
    (if e = 0 then 0 < height t' \<and> j < 64 ^ height t' else e = 1 \<and> pool t' = [])"
  using assms
proof (induction "5 - height t" arbitrary: t at)
  case 0
  then have "height t = 5" using rep_height [OF 0(2)] by simp
  then have "\<not> int j > radix_tree_max_index t" using beyond_iff [of t j] 0 by simp
  with 0 \<open>height t = 5\<close> show ?case by (subst grow_loop.simps) auto
next
  case (Suc n)
  show ?case
  proof (cases "int j > radix_tree_max_index t")
    case False
    then have "0 < height t \<and> j < 64 ^ height t" using beyond_iff [OF rep_height [OF Suc.prems(1)]] by auto
    with False Suc.prems show ?thesis by (subst grow_loop.simps) auto
  next
    case True
    show ?thesis
    proof (cases "pool t")
      case Nil
      with True add_level_eq [OF Suc.prems(1)] Suc.prems show ?thesis by (subst grow_loop.simps) auto
    next
      case (Cons c cs)
      let ?t = "raised c cs t" and ?at = "at((height t, 0) \<mapsto> c)"
      have h: "height t < 5" using Suc.hyps(2) by simp
      have "n = 5 - height ?t" using Suc.hyps(2) by (simp add: raised_def)
      from Suc.hyps(1) [OF this rep_raised [OF Suc.prems(1) h Cons] Suc.prems(2)]
      obtain e t' at' where ih: "grow_loop (int j) ?t = Some (e, t')" "rep t' at'" "leaf t' at' = leaf ?t ?at"
        "if e = 0 then 0 < height t' \<and> j < 64 ^ height t' else e = 1 \<and> pool t' = []" by blast
      have "grow_loop (int j) t = grow_loop (int j) ?t"
        using True add_level_eq [OF Suc.prems(1)] Cons by (subst grow_loop.simps) simp
      with ih leaf_raised [OF Suc.prems(1) Cons] show ?thesis by metis
    qed
  qed
qed

subsection \<open>Leaves\<close>

text \<open>The state with one slot of a bottom node changed.\<close>

definition with_slot :: "addr \<Rightarrow> rnode \<Rightarrow> nat \<Rightarrow> addr option \<Rightarrow> int \<Rightarrow> rtree \<Rightarrow> rtree" where
  "with_slot a nd i v n t = t\<lparr>nodes := (nodes t)(a \<mapsto> nd\<lparr>slots := (slots nd)(i := v), count := n\<rparr>)\<rparr>"

lemma rep_with_slot:
  assumes rep: "rep t at" and a: "at (0, p) = Some a" "nodes t a = Some nd" and i: "i < 64"
    and n: "n = int (card {k. k < 64 \<and> ((slots nd)(i := v)) k \<noteq> None})"
  shows "rep (with_slot a nd i v n t) at" (is "rep ?t at")
proof -
  have h: "height t > 0" using rep_nodeD [OF rep a(1)] by auto
  have nodes: "l < height ?t \<and> b \<notin> set (pool ?t) \<and> (\<exists>nd. nodes ?t b = Some nd \<and> node_ok ?t at l q nd)"
    if b: "at (l, q) = Some b" for l q b
  proof (cases "b = a")
    case True
    then have "l = 0" "q = p" using rep_inj [OF rep a(1)] b by auto
    moreover have "node_ok t at 0 p nd" using rep_nodeD [OF rep a(1)] a(2) by auto
    then have "node_ok ?t at 0 p (nd\<lparr>slots := (slots nd)(i := v), count := n\<rparr>)"
      using n i by (simp add: node_ok_def with_slot_def split: if_splits)
    ultimately show ?thesis using True rep_nodeD [OF rep a(1)] by (auto simp: with_slot_def)
  next
    case False
    then show ?thesis
      using rep_nodeD [OF rep b] by (auto simp: with_slot_def node_ok_def)
  qed
  obtain r where "root_node t = Some r" "at (height t - 1, 0) = Some r" using rep_root [OF rep h] by blast
  then show ?thesis
    using rep_height [OF rep] rep_distinct [OF rep] h
    by (intro repI [OF _ _ _ _ nodes rep_inj [OF rep]]) (simp_all add: with_slot_def)
qed

lemma leaf_with_slot:
  assumes rep: "rep t at" and a: "at (0, j div 64) = Some a" "nodes t a = Some nd"
  shows "leaf (with_slot a nd (j mod 64) v n t) at = (leaf t at)(j := v)"
proof
  fix k
  show "leaf (with_slot a nd (j mod 64) v n t) at k = ((leaf t at)(j := v)) k"
  proof (cases "at (0, k div 64) = Some a")
    case True
    then have "k div 64 = j div 64" using rep_inj [OF rep a(1)] by auto
    then have "k = j \<longleftrightarrow> k mod 64 = j mod 64" by (metis div_mult_mod_eq)
    with True a show ?thesis by (simp add: leaf_def with_slot_def)
  next
    case False
    then have "k \<noteq> j" using a(1) by auto
    with False show ?thesis
      by (cases "at (0, k div 64)") (auto simp: leaf_def with_slot_def)
  qed
qed

lemma insert_rep:
  assumes "rep t at" "j < 64 ^ 5"
  shows "\<exists>e t' at'. radix_tree_insert (int j) v t = Some (e, t') \<and> rep t' at' \<and>
    (e = 0 \<and> leaf t at j = None \<and> leaf t' at' = (leaf t at)(j \<mapsto> v) \<or>
     e = 2 \<and> leaf t at j \<noteq> None \<and> leaf t' at' = leaf t at \<or>
     e = 1 \<and> leaf t' at' = leaf t at \<and> pool t' = [])"
proof -
  obtain e1 t1 at1 where g: "grow_loop (int j) t = Some (e1, t1)" "rep t1 at1" "leaf t1 at1 = leaf t at"
    "if e1 = 0 then 0 < height t1 \<and> j < 64 ^ height t1 else e1 = 1 \<and> pool t1 = []"
    using grow_loop_rep [OF assms] by blast
  show ?thesis
  proof (cases "e1 = 0")
    case False
    with g show ?thesis by (auto simp: radix_tree_insert_def)
  next
    case True
    with g have h: "0 < height t1" "j < 64 ^ height t1" by simp_all
    then obtain k where k: "height t1 = Suc k" by (cases "height t1") auto
    obtain r where r: "root_node t1 = Some r" "at1 (k, j div 64 ^ Suc k) = Some r"
      using rep_root [OF g(2) h(1)] h(2) k by auto
    obtain nr t2 at2 where f: "find_parent_loop (int j) True k (Some r) t1 = Some (nr, t2)" "rep t2 at2"
      "leaf t2 at2 = leaf t1 at1" "if nr = None then pool t2 = [] else nr = at2 (0, j div 64)"
      using find_parent_loop_True [OF g(2) r(2)] by blast
    show ?thesis
    proof (cases nr)
      case None
      with f g True k r show ?thesis by (auto simp: radix_tree_insert_def radix_tree_find_parent_def)
    next
      case (Some a)
      with f(4) have a: "at2 (0, j div 64) = Some a" by simp
      obtain nd where nd: "nodes t2 a = Some nd" "node_ok t2 at2 0 (j div 64) nd"
        using rep_nodeD [OF f(2) a] by blast
      have leaf: "leaf t at j = slots nd (j mod 64)" using a nd f(3) g(3) by (simp add: leaf_def flip: f(3) g(3))
      show ?thesis
      proof (cases "slots nd (j mod 64)")
        case None
        let ?t = "with_slot a nd (j mod 64) (Some v) (count nd + 1) t2"
        have "radix_tree_insert (int j) v t = Some (0, ?t)"
          using g(1) True f(1) k r Some nd None count_room [OF nd(2) None]
          by (simp add: radix_tree_insert_def radix_tree_find_parent_def radix_tree_add_child_def
              level_index_eq with_slot_def Let_def)
        moreover have "count nd + 1 = int (card {k. k < 64 \<and> ((slots nd)(j mod 64 := Some v)) k \<noteq> None})"
          using nd(2) card_slots_upd [OF None, of v] by (simp only: node_ok_def)
        from rep_with_slot [OF f(2) a nd(1) _ this] have "rep ?t at2" by simp
        moreover have "leaf ?t at2 = (leaf t at)(j \<mapsto> v)"
          using leaf_with_slot [OF f(2) a nd(1)] f(3) g(3) by simp
        ultimately show ?thesis using leaf None by auto
      next
        case (Some w)
        have "radix_tree_insert (int j) v t = Some (2, t2)"
          using g(1) True f(1) k r \<open>nr = Some a\<close> nd(1) Some
          by (simp add: radix_tree_insert_def radix_tree_find_parent_def radix_tree_add_child_def level_index_eq)
        with f(2,3) g(3) leaf Some show ?thesis by auto
      qed
    qed
  qed
qed

subsection \<open>Removing nodes\<close>

text \<open>The state after an empty node \<open>a\<close>, the \<open>i\<close>-th child of \<open>b\<close>, has been freed.\<close>

definition without_child :: "addr \<Rightarrow> addr \<Rightarrow> rnode \<Rightarrow> nat \<Rightarrow> rtree \<Rightarrow> rtree" where
  "without_child a b ndb i t = t\<lparr>pool := a # pool t, nodes := (nodes t)
     (a := None, b \<mapsto> ndb\<lparr>slots := (slots ndb)(i := None), count := count ndb - 1\<rparr>)\<rparr>"

lemma card_slots_del:
  assumes "slots nd i \<noteq> None" "i < 64"
  shows "int (card {k. k < 64 \<and> ((slots nd)(i := None)) k \<noteq> None}) = int (card {k. k < 64 \<and> slots nd k \<noteq> None}) - 1"
proof -
  have "{k. k < 64 \<and> slots nd k \<noteq> None} = insert i {k. k < 64 \<and> ((slots nd)(i := None)) k \<noteq> None}"
    using assms by auto
  moreover have "i \<notin> {k. k < 64 \<and> ((slots nd)(i := None)) k \<noteq> None}" by simp
  ultimately show ?thesis by (simp only: card_insert_disjoint finite_Collect_conjI finite_Collect_less_nat) simp
qed

lemma rep_without_child:
  assumes rep: "rep t at" and a: "at (l, p) = Some a" "nodes t a = Some nd" and empty: "\<forall>i. slots nd i = None"
    and b: "at (Suc l, p div 64) = Some b" "nodes t b = Some ndb"
  shows "rep (without_child a b ndb (p mod 64) t) (at((l, p) := None))" (is "rep ?t ?at")
proof -
  have ab: "a \<noteq> b" using rep_inj [OF rep a(1), of "(Suc l, p div 64)"] b(1) by auto
  have A: "a \<notin> set (pool t)" using rep_nodeD [OF rep a(1)] by auto
  have B: "node_ok t at (Suc l) (p div 64) ndb" "Suc l < height t" "b \<notin> set (pool t)"
    using rep_nodeD [OF rep b(1)] b(2) by auto
  have pos: "p div 64 * 64 + p mod 64 = p" by simp
  have sb: "slots ndb (p mod 64) = Some a" using rep_slot [OF rep b, of "p mod 64"] a(1) pos by simp
  have nodes: "l' < height ?t \<and> c \<notin> set (pool ?t) \<and> (\<exists>nd. nodes ?t c = Some nd \<and> node_ok ?t ?at l' p' nd)"
    if at': "?at (l', p') = Some c" for l' p' c
  proof -
    have at: "at (l', p') = Some c" and ne: "(l', p') \<noteq> (l, p)" using at' by (auto split: if_splits)
    have ca: "c \<noteq> a" using rep_inj [OF rep a(1)] at ne by metis
    obtain nc where nc: "nodes t c = Some nc" "node_ok t at l' p' nc" "l' < height t" "c \<notin> set (pool t)"
      using rep_nodeD [OF rep at] by blast
    have up: "?at (l' + 1, p' div 64) = at (l' + 1, p' div 64)"
    proof (cases "(l' + 1, p' div 64) = (l, p)")
      case True
      then have l: "l = Suc l'" and "p' = p * 64 + p' mod 64" by auto
      then have "at (l', p') = slots nd (p' mod 64)"
        using rep_slot [OF rep a(1) [unfolded l] a(2), of "p' mod 64"] by simp
      with empty at show ?thesis by simp
    qed (rule fun_upd_other)
    show ?thesis
    proof (cases "c = b")
      case True
      then have [simp]: "l' = Suc l" "p' = p div 64" using rep_inj [OF rep b(1)] at by auto
      have "?at (l, p div 64 * 64 + k) = ((slots ndb)(p mod 64 := None)) k" if "k < 64" for k
      proof (cases "k = p mod 64")
        case False
        then have "p div 64 * 64 + k \<noteq> p" using prefix_split [of k "p mod 64" "p div 64" "p div 64"] that pos
          by (metis mod_less_divisor zero_less_numeral)
        with False rep_slot [OF rep b that] show ?thesis by simp
      qed (simp add: pos)
      moreover have "count ndb - 1 = int (card {k. k < 64 \<and> ((slots ndb)(p mod 64 := None)) k \<noteq> None})"
        using B(1) card_slots_del [of ndb "p mod 64"] sb by (simp only: node_ok_def) simp
      moreover have "if Suc l + 1 = height t then p div 64 = 0 \<and> parent ndb = None
          else ?at (Suc l + 1, p div 64 div 64) \<noteq> None \<and> parent ndb = ?at (Suc l + 1, p div 64 div 64)"
        using B(1) up unfolding node_ok_def by (simp split: if_splits)
      moreover have "\<forall>k\<ge>64. ((slots ndb)(p mod 64 := None)) k = None" using B(1) by (simp add: node_ok_def)
      ultimately have "node_ok ?t ?at (Suc l) (p div 64)
          (ndb\<lparr>slots := (slots ndb)(p mod 64 := None), count := count ndb - 1\<rparr>)"
        unfolding node_ok_def by (simp add: without_child_def split: if_splits)
      with True ab B show ?thesis by (simp add: without_child_def)
    next
      case False
      have "?at (l' - 1, p' * 64 + k) = at (l' - 1, p' * 64 + k)" if "l' > 0" "k < 64" for k
      proof (cases "(l' - 1, p' * 64 + k) = (l, p)")
        case True
        then have "l' = Suc l" "p' = p div 64" using that by auto
        with at b(1) False show ?thesis by simp
      qed (rule fun_upd_other)
      with up have "node_ok ?t ?at l' p' nc"
        by (intro node_ok_cong [OF nc(2)]) (simp_all add: without_child_def)
      with False ca nc show ?thesis by (simp add: without_child_def)
    qed
  qed
  have inj: "x = y" if "?at x = Some c" "?at y = Some c" for x y c
    using that rep_inj [OF rep] by (metis fun_upd_apply option.distinct(1))
  obtain r where "root_node t = Some r" "at (height t - 1, 0) = Some r" using rep_root [OF rep] B(2) by auto
  moreover have "(height t - 1, 0) \<noteq> (l, p)" using B(2) by auto
  ultimately show ?thesis
    using rep_height [OF rep] rep_distinct [OF rep] B(2) A
    by (intro repI [OF _ _ _ _ nodes inj]) (simp_all add: without_child_def)
qed

lemma leaf_without_child:
  assumes rep: "rep t at" and a: "at (l, p) = Some a" "nodes t a = Some nd" and empty: "\<forall>i. slots nd i = None"
    and b: "at (Suc l, p div 64) = Some b" "nodes t b = Some ndb"
  shows "leaf (without_child a b ndb i t) (at((l, p) := None)) = leaf t at"
proof
  fix j
  show "leaf (without_child a b ndb i t) (at((l, p) := None)) j = leaf t at j"
  proof (cases "(0, j div 64) = (l, p)")
    case True
    with a empty show ?thesis by (simp add: leaf_def)
  next
    case False
    then have u: "(at((l, p) := None)) (0, j div 64) = at (0, j div 64)" by (rule fun_upd_other)
    have "c \<noteq> a \<and> c \<noteq> b" if "at (0, j div 64) = Some c" for c
      using rep_inj [OF rep that, of "(l, p)"] rep_inj [OF rep that, of "(Suc l, p div 64)"] a(1) b(1) False
      by auto
    then show ?thesis unfolding leaf_def u
      by (cases "at (0, j div 64)") (simp_all add: without_child_def)
  qed
qed

text \<open>A tree whose root has no children has no leaves.\<close>

lemma leaf_empty_root:
  assumes rep: "rep t at" and a: "at (l, 0) = Some a" "nodes t a = Some nd" and empty: "\<forall>i. slots nd i = None"
    and top: "Suc l = height t"
  shows "leaf t at = (\<lambda>_. None)"
proof
  fix j
  show "leaf t at j = None"
  proof (cases l)
    case 0
    have "j div 64 = 0" if "at (0, j div 64) = Some c" for c
      using rep_prefix_bound [OF rep that] top 0 by simp
    with a empty 0 show ?thesis by (cases "at (0, j div 64)") (auto simp: leaf_def)
  next
    case (Suc m)
    have "at (m, j div 64 ^ Suc m) = None"
    proof (rule ccontr)
      assume "at (m, j div 64 ^ Suc m) \<noteq> None"
      then obtain c where c: "at (m, j div 64 ^ Suc m) = Some c" by blast
      have "j div 64 ^ Suc m < 64" using rep_prefix_bound [OF rep c] unfolding top [symmetric] Suc by simp
      with rep_slot [OF rep a(1) [unfolded Suc] a(2)] empty c show False by simp
    qed
    with rep_below_None [OF rep, of 0 m j] top Suc show ?thesis by (simp add: leaf_def)
  qed
qed

lemma remove_loop_rep:
  assumes "rep (with_slot a nd i None (count nd - 1) t) at" "at (l, j div 64 ^ Suc l) = Some a"
    and "nodes t a = Some nd" "slots nd i \<noteq> None" "i = (j div 64 ^ l) mod 64" "height t = l + k" "k > 0"
  shows "\<exists>t' at'. remove_loop (int j) k l (Some a) t = Some t' \<and> rep t' at' \<and>
    leaf t' at' = leaf (with_slot a nd i None (count nd - 1) t) at"
  using assms
proof (induction k arbitrary: a nd i t at l)
  case (Suc k)
  let ?nd = "nd\<lparr>slots := (slots nd)(i := None), count := count nd - 1\<rparr>"
  let ?T = "with_slot a nd i None (count nd - 1) t" and ?p = "j div 64 ^ Suc l"
  have Ta: "nodes ?T a = Some ?nd" by (simp add: with_slot_def)
  have ok: "node_ok ?T at l ?p ?nd" and ap: "a \<notin> set (pool t)"
    using rep_nodeD [OF Suc.prems(1,2)] Ta by (auto simp: with_slot_def)
  have cnt: "count nd - 1 = int (card {k. k < 64 \<and> ((slots nd)(i := None)) k \<noteq> None})"
    using ok by (simp add: node_ok_def)
  then have pos: "count nd > 0" by linarith
  have up: "if l + 1 = height ?T then ?p = 0 \<and> parent ?nd = None
      else at (l + 1, ?p div 64) \<noteq> None \<and> parent ?nd = at (l + 1, ?p div 64)"
    using ok unfolding node_ok_def by blast
  have ht: "height ?T = height t" by (simp add: with_slot_def)
  have li: "radix_tree_level_index (int j) l = i" using Suc.prems(5) by (simp add: level_index_eq)
  have nd_eq: "nd\<lparr>count := count nd - 1, slots := (slots nd)(i := None)\<rparr> = ?nd" by simp
  show ?case
  proof (cases "count nd = 1")
    case False
    then have "remove_loop (int j) (Suc k) l (Some a) t = Some ?T"
      using Suc.prems(3,4) pos li by (simp add: with_slot_def nd_eq)
    with Suc.prems(1) show ?thesis by blast
  next
    case True
    let ?t = "t\<lparr>nodes := (nodes t)(a := None), pool := a # pool t\<rparr>"
    have step: "remove_loop (int j) (Suc k) l (Some a) t = remove_loop (int j) k (Suc l) (parent nd) ?t"
      using Suc.prems(3,4) True li by simp
    have "{k. k < 64 \<and> ((slots nd)(i := None)) k \<noteq> None} = {}"
      using cnt True by simp
    moreover have "\<forall>k\<ge>64. slots ?nd k = None" using ok unfolding node_ok_def by blast
    ultimately have empty: "\<forall>k. slots ?nd k = None" by (simp, metis not_less)
    show ?thesis
    proof (cases k)
      case 0
      then have top: "Suc l = height ?T" using Suc.prems(6) ht by simp
      then have p0: "?p = 0" and "parent nd = None" using up by simp_all
      then have "remove_loop (int j) (Suc k) l (Some a) t = Some (?t\<lparr>root_node := None, height := 0\<rparr>)"
        using step 0 by simp
      moreover have "rep (?t\<lparr>root_node := None, height := 0\<rparr>) (\<lambda>_. None)"
        using rep_distinct [OF Suc.prems(1)] ap by (simp add: rep_def with_slot_def)
      moreover have "leaf ?T at = (\<lambda>_. None)"
        by (rule leaf_empty_root [OF Suc.prems(1) _ Ta empty top]) (use Suc.prems(2) p0 in simp)
      ultimately show ?thesis by (auto simp: leaf_def)
    next
      case (Suc k')
      then have "l + 1 \<noteq> height ?T" using Suc.prems(6) ht by simp
      then have "at (Suc l, ?p div 64) \<noteq> None \<and> parent nd = at (Suc l, ?p div 64)"
        using up by simp
      then obtain b where b: "at (Suc l, ?p div 64) = Some b" "parent nd = Some b" by auto
      have ba: "b \<noteq> a" using rep_inj [OF Suc.prems(1) b(1), of "(l, ?p)"] Suc.prems(2) by auto
      obtain ndb where ndb: "nodes ?T b = Some ndb" using rep_nodeD [OF Suc.prems(1) b(1)] by blast
      then have ndb_t: "nodes ?t b = Some ndb" using ba by (simp add: with_slot_def)
      let ?U = "without_child a b ndb (?p mod 64) ?T" and ?at = "at((l, ?p) := None)"
      have U: "with_slot b ndb (?p mod 64) None (count ndb - 1) ?t = ?U"
        using ba by (simp add: with_slot_def without_child_def fun_upd_twist)
      have sb: "slots ndb (?p mod 64) = Some a"
        using rep_slot [OF Suc.prems(1) b(1) ndb, of "?p mod 64"] Suc.prems(2) by simp
      have R: "rep (with_slot b ndb (?p mod 64) None (count ndb - 1) ?t) ?at"
        unfolding U by (rule rep_without_child [OF Suc.prems(1,2) Ta empty b(1) ndb])
      have A: "?at (Suc l, j div 64 ^ Suc (Suc l)) = Some b" using b(1) div_up [of j l] by simp
      have "\<exists>t' at'. remove_loop (int j) k (Suc l) (Some b) ?t = Some t' \<and> rep t' at' \<and>
          leaf t' at' = leaf (with_slot b ndb (?p mod 64) None (count ndb - 1) ?t) ?at"
        by (rule Suc.IH [OF R A ndb_t]) (use Suc Suc.prems(6) sb in simp_all)
      then show ?thesis
        unfolding U step b(2) leaf_without_child [OF Suc.prems(1,2) Ta empty b(1) ndb] .
    qed
  qed
qed simp

lemma remove_rep:
  assumes "rep t at" "int j \<le> radix_tree_max_index t"
  shows "\<exists>t' at'. radix_tree_remove (int j) t = Some (leaf t at j, t') \<and> rep t' at' \<and>
    leaf t' at' = (leaf t at)(j := None)"
proof -
  have "\<not> radix_tree_max_index t < int j" using assms(2) by simp
  then have h: "height t > 0" "j < 64 ^ height t" unfolding beyond_iff [OF rep_height [OF assms(1)]] by auto
  note f = find_parent_False [OF assms(1) h]
  show ?thesis
  proof (cases "at (0, j div 64)")
    case None
    then have "leaf t at j = None" by (simp add: leaf_def)
    moreover from this have "(leaf t at)(j := None) = leaf t at" by (simp add: fun_upd_idem)
    ultimately show ?thesis using f None assms(1) by (auto simp: radix_tree_remove_def)
  next
    case (Some a)
    obtain nd where nd: "nodes t a = Some nd" "node_ok t at 0 (j div 64) nd"
      using rep_nodeD [OF assms(1) Some] by blast
    have leaf: "leaf t at j = slots nd (j mod 64)" using Some nd by (simp add: leaf_def)
    show ?thesis
    proof (cases "slots nd (j mod 64)")
      case None
      then have "(leaf t at)(j := None) = leaf t at" using leaf by (simp add: fun_upd_idem)
      with f Some nd None leaf assms(1) show ?thesis by (auto simp: radix_tree_remove_def level_index_eq)
    next
      case (Some v)
      let ?T = "with_slot a nd (j mod 64) None (count nd - 1) t"
      have "count nd - 1 = int (card {k. k < 64 \<and> ((slots nd)(j mod 64 := None)) k \<noteq> None})"
        using nd(2) card_slots_del [of nd "j mod 64"] Some by (simp only: node_ok_def) simp
      then have rep': "rep ?T at"
        using rep_with_slot [OF assms(1) \<open>at (0, j div 64) = Some a\<close> nd(1)] by simp
      have "\<exists>t' at'. remove_loop (int j) (height t) 0 (Some a) t = Some t' \<and> rep t' at' \<and> leaf t' at' = leaf ?T at"
        by (rule remove_loop_rep [OF rep' _ nd(1)]) (use Some \<open>at (0, j div 64) = Some a\<close> h in simp_all)
      then show ?thesis
        using f \<open>at (0, j div 64) = Some a\<close> nd Some leaf
          leaf_with_slot [OF assms(1) \<open>at (0, j div 64) = Some a\<close> nd(1), of None]
        by (auto simp: radix_tree_remove_def level_index_eq)
    qed
  qed
qed

subsection \<open>The interface: a map with integer keys\<close>

text \<open>What the users of a radix tree rely on: a finite map from indices below \<open>lim\<close>. Insertion may
  fail for lack of memory and never overwrites.\<close>

locale index_map =
  fixes inv :: "'t \<Rightarrow> bool" and lookup :: "int \<Rightarrow> 't \<Rightarrow> addr option option"
    and insert :: "int \<Rightarrow> addr \<Rightarrow> 't \<Rightarrow> (err_t \<times> 't) option"
    and remove :: "int \<Rightarrow> 't \<Rightarrow> (addr option \<times> 't) option" and lim :: nat
  assumes lookup_total: "inv t \<Longrightarrow> lookup (int j) t \<noteq> None"
    and lookup_lim: "inv t \<Longrightarrow> lim \<le> j \<Longrightarrow> lookup (int j) t = Some None"
    and insert_law: "inv t \<Longrightarrow> j < lim \<Longrightarrow> \<exists>e t'. insert (int j) v t = Some (e, t') \<and> inv t' \<and>
      (e = 0 \<and> lookup (int j) t = Some None \<and>
         (\<forall>k. lookup (int k) t' = (if k = j then Some (Some v) else lookup (int k) t)) \<or>
       e = 2 \<and> lookup (int j) t \<noteq> Some None \<and> (\<forall>k. lookup (int k) t' = lookup (int k) t) \<or>
       e = 1 \<and> (\<forall>k. lookup (int k) t' = lookup (int k) t))"
    and remove_law: "inv t \<Longrightarrow> lookup (int j) t = Some (Some v) \<Longrightarrow> \<exists>t'. remove (int j) t = Some (Some v, t') \<and> inv t' \<and>
      (\<forall>k. lookup (int k) t' = (if k = j then Some None else lookup (int k) t))"
begin

text \<open>The map that a tree stands for.\<close>

definition absmap :: "'t \<Rightarrow> nat \<Rightarrow> addr option" where
  "absmap t j = the (lookup (int j) t)"

lemma absmap_lookup: "inv t \<Longrightarrow> lookup (int j) t = Some (absmap t j)"
  using lookup_total by (simp add: absmap_def)

lemma insert_absmap:
  assumes "inv t" "j < lim"
  shows "\<exists>e t'. insert (int j) v t = Some (e, t') \<and> inv t' \<and>
    (e = 0 \<and> absmap t j = None \<and> absmap t' = (absmap t)(j \<mapsto> v) \<or>
     e = 2 \<and> absmap t j \<noteq> None \<and> absmap t' = absmap t \<or> e = 1 \<and> absmap t' = absmap t)"
proof -
  obtain e t' where ins: "insert (int j) v t = Some (e, t')" "inv t'"
    and c: "e = 0 \<and> lookup (int j) t = Some None \<and>
        (\<forall>k. lookup (int k) t' = (if k = j then Some (Some v) else lookup (int k) t)) \<or>
      e = 2 \<and> lookup (int j) t \<noteq> Some None \<and> (\<forall>k. lookup (int k) t' = lookup (int k) t) \<or>
      e = 1 \<and> (\<forall>k. lookup (int k) t' = lookup (int k) t)"
    using insert_law [OF assms, of v] by blast
  have L: "lookup (int k) t = Some (absmap t k)" "lookup (int k) t' = Some (absmap t' k)" for k
    using absmap_lookup assms(1) ins(2) by blast+
  have "e = 0 \<and> absmap t j = None \<and> absmap t' = (absmap t)(j \<mapsto> v) \<or>
     e = 2 \<and> absmap t j \<noteq> None \<and> absmap t' = absmap t \<or> e = 1 \<and> absmap t' = absmap t"
    using c unfolding L fun_eq_iff by (auto split: if_splits)
  with ins show ?thesis by blast
qed

lemma remove_absmap:
  assumes "inv t" "absmap t j = Some v"
  shows "\<exists>t'. remove (int j) t = Some (Some v, t') \<and> inv t' \<and> absmap t' = (absmap t)(j := None)"
proof -
  have "lookup (int j) t = Some (Some v)" using absmap_lookup [OF assms(1), of j] assms(2) by simp
  then obtain t' where rem: "remove (int j) t = Some (Some v, t')" "inv t'"
    and c: "\<forall>k. lookup (int k) t' = (if k = j then Some None else lookup (int k) t)"
    using remove_law [OF assms(1)] by blast
  have "absmap t' = (absmap t)(j := None)"
    using c unfolding absmap_lookup [OF assms(1)] absmap_lookup [OF rem(2)] fun_eq_iff
    by (auto split: if_splits)
  with rem show ?thesis by blast
qed

lemma insert_remove:
  assumes "inv t" "j < lim" "insert (int j) v t = Some (0, t')"
  shows "\<exists>t''. remove (int j) t' = Some (Some v, t'') \<and> inv t'' \<and> absmap t'' = absmap t"
proof -
  have t': "inv t'" "absmap t j = None" "absmap t' = (absmap t)(j \<mapsto> v)"
    using insert_absmap [OF assms(1,2), of v] assms(3) by auto
  then show ?thesis using remove_absmap [of t' j v] by (simp add: fun_upd_idem)
qed

end

definition rt_inv :: "rtree \<Rightarrow> bool" where
  "rt_inv t \<longleftrightarrow> (\<exists>at. rep t at)"

lemma rt_lookup: "rep t at \<Longrightarrow> radix_tree_lookup (int j) t = Some (leaf t at j)"
  by (rule lookup_eq)

interpretation radix: index_map rt_inv radix_tree_lookup radix_tree_insert radix_tree_remove "64 ^ 5"
proof
  fix t :: rtree and j v
  assume "rt_inv t"
  then obtain at where rep: "rep t at" by (auto simp: rt_inv_def)
  show "radix_tree_lookup (int j) t \<noteq> None" using rt_lookup [OF rep] by simp
  show beyond: "radix_tree_lookup (int j) t = Some None" if "64 ^ 5 \<le> j"
  proof -
    have "(64::nat) ^ height t \<le> 64 ^ 5" using rep_height [OF rep] by (intro power_increasing) auto
    with that have "at (0, j div 64) = None" by (intro prefix_None [OF rep]) simp
    then show ?thesis using rt_lookup [OF rep] by (simp add: leaf_def)
  qed
  show "\<exists>e t'. radix_tree_insert (int j) v t = Some (e, t') \<and> rt_inv t' \<and>
      (e = 0 \<and> radix_tree_lookup (int j) t = Some None \<and>
         (\<forall>k. radix_tree_lookup (int k) t' = (if k = j then Some (Some v) else radix_tree_lookup (int k) t)) \<or>
       e = 2 \<and> radix_tree_lookup (int j) t \<noteq> Some None \<and>
         (\<forall>k. radix_tree_lookup (int k) t' = radix_tree_lookup (int k) t) \<or>
       e = 1 \<and> (\<forall>k. radix_tree_lookup (int k) t' = radix_tree_lookup (int k) t))" if lim: "j < 64 ^ 5"
  proof -
    obtain e t' at' where "radix_tree_insert (int j) v t = Some (e, t')" "rep t' at'"
      "e = 0 \<and> leaf t at j = None \<and> leaf t' at' = (leaf t at)(j \<mapsto> v) \<or>
       e = 2 \<and> leaf t at j \<noteq> None \<and> leaf t' at' = leaf t at \<or> e = 1 \<and> leaf t' at' = leaf t at"
      using insert_rep [OF rep lim, of v] by blast
    then show ?thesis using rt_lookup [OF rep] rt_lookup [of t' at'] unfolding rt_inv_def
      by (intro exI [of _ e] exI [of _ t']) auto
  qed
  show "\<exists>t'. radix_tree_remove (int j) t = Some (Some v, t') \<and> rt_inv t' \<and>
      (\<forall>k. radix_tree_lookup (int k) t' = (if k = j then Some None else radix_tree_lookup (int k) t))"
    if "radix_tree_lookup (int j) t = Some (Some v)"
  proof -
    have "leaf t at j = Some v" using that rt_lookup [OF rep] by simp
    moreover have "int j \<le> radix_tree_max_index t"
      using that by (auto simp: radix_tree_lookup_def split: if_splits)
    ultimately obtain t' at' where t': "radix_tree_remove (int j) t = Some (Some v, t')" "rep t' at'"
      "leaf t' at' = (leaf t at)(j := None)" using remove_rep [OF rep, of j] by auto
    have "rt_inv t'" using t'(2) unfolding rt_inv_def by blast
    moreover have "radix_tree_lookup (int k) t' = (if k = j then Some None else radix_tree_lookup (int k) t)" for k
      using rt_lookup [OF rep, of k] rt_lookup [OF t'(2), of k] t'(3) by simp
    ultimately show ?thesis using t'(1) by blast
  qed
qed

subsection \<open>Properties\<close>

definition rt_empty :: "addr list \<Rightarrow> rtree" where
  "rt_empty as = \<lparr>height = 0, root_node = None, nodes = (\<lambda>_. None), pool = as\<rparr>"

lemma rt_empty_inv: "distinct as \<Longrightarrow> rt_inv (rt_empty as)" "radix_tree_lookup (int j) (rt_empty as) = Some None"
proof -
  assume "distinct as"
  then have "rep (rt_empty as) (\<lambda>_. None)" by (simp add: rep_def rt_empty_def)
  then show "rt_inv (rt_empty as)" unfolding rt_inv_def by blast
qed (simp add: rt_empty_def radix_tree_lookup_def radix_tree_max_index_def)



text \<open>C27: A leaf that was inserted is removed again by the same index, which gives back the leaf and the
  map from before the insertion.\<close>

theorem radix_tree_insert_remove:
  assumes "rt_inv t" "j < 2 ^ 30" "radix_tree_insert (int j) v t = Some (0, t')"
  shows "\<exists>t''. radix_tree_remove (int j) t' = Some (Some v, t'') \<and>
    (\<forall>k. radix_tree_lookup (int k) t'' = radix_tree_lookup (int k) t)"
proof -
  have "j < 64 ^ 5" using assms(2) by simp
  from radix.insert_remove [OF assms(1) this assms(3)] obtain t'' where
    t'': "radix_tree_remove (int j) t' = Some (Some v, t'')" "rt_inv t''" "radix.absmap t'' = radix.absmap t"
    by blast
  then show ?thesis using radix.absmap_lookup [OF t''(2)] radix.absmap_lookup [OF assms(1)] by simp
qed

lemma insert_5: "\<exists>t'. radix_tree_insert 5 900 (rt_empty [1, 2, 3]) = Some (0, t') \<and> height t' = 1 \<and>
    root_node t' = Some 1 \<and> nodes t' 1 = Some \<lparr>count = 1, parent = None, slots = [5 \<mapsto> 900]\<rparr>"
  by (simp add: radix_tree_insert_def grow_loop.simps radix_tree_max_index_def rt_empty_def
      radix_tree_add_level_def radix_tree_node_create_def radix_tree_find_parent_def
      radix_tree_level_index_def radix_tree_add_child_def)

theorem radix_tree_insert_remove_witness:
  "\<exists>t' t''. radix_tree_insert 5 900 (rt_empty [1, 2, 3]) = Some (0, t') \<and>
     radix_tree_remove 5 t' = Some (Some 900, t'')"
proof -
  obtain t' where t': "radix_tree_insert (int 5) 900 (rt_empty [1, 2, 3]) = Some (0, t')"
    using insert_5 by auto
  from radix_tree_insert_remove [OF rt_empty_inv(1) _ t'] t' show ?thesis by auto
qed

text \<open>C28: \<^verbatim>\<open>radix_tree_remove\<close> does not check its index against the height of the tree, as
  \<^verbatim>\<open>radix_tree_lookup\<close> does: in a tree of one level it removes the leaf whose index agrees modulo 64,
  although a lookup of the index finds nothing.\<close>

theorem radix_tree_remove_aliases:
  assumes "height t = 1" "64 \<le> j"
  shows "radix_tree_remove (int j) t = radix_tree_remove (int (j mod 64)) t \<and>
    radix_tree_lookup (int j) t = Some None"
proof -
  have li: "radix_tree_level_index (int j) 0 = radix_tree_level_index (int (j mod 64)) 0"
    by (simp add: level_index_eq)
  have "int j > radix_tree_max_index t" using assms by (simp add: radix_tree_max_index_def)
  moreover have "remove_loop (int j) (Suc 0) 0 node t = remove_loop (int (j mod 64)) (Suc 0) 0 node t" for node
    using li by (simp add: Let_def cong: if_cong)
  ultimately show ?thesis
    using assms li by (simp add: radix_tree_remove_def radix_tree_lookup_def radix_tree_find_parent_def
        Let_def del: remove_loop.simps cong: if_cong option.case_cong)
qed

theorem radix_tree_remove_aliases_witness:
  "\<exists>t t'. radix_tree_insert 5 900 (rt_empty [1, 2, 3]) = Some (0, t) \<and>
     radix_tree_lookup 69 t = Some None \<and> radix_tree_remove 69 t = Some (Some 900, t')"
proof -
  obtain t where t: "radix_tree_insert 5 900 (rt_empty [1, 2, 3]) = Some (0, t)" "height t = 1"
      "root_node t = Some 1" "nodes t 1 = Some \<lparr>count = 1, parent = None, slots = [5 \<mapsto> 900]\<rparr>"
    using insert_5 by auto
  have "radix_tree_remove 5 t = Some (Some 900, t\<lparr>nodes := (nodes t)(1 := None), pool := 1 # pool t,
      root_node := None, height := 0\<rparr>)"
    using t by (simp add: radix_tree_remove_def radix_tree_find_parent_def radix_tree_level_index_def)
  with radix_tree_remove_aliases [of t 69] t show ?thesis by auto
qed

end
