(* ===== verification/Pmem.thy ===== *)
theory Pmem
  imports LibString
begin

section \<open>Physical memory (kernel/mm/pmem.c)\<close>

text \<open>
  The boot allocator (a bitmap, first fit) and the binary buddy allocator that replaces it. A page is
  named by its number, which is its index in \<^verbatim>\<open>pagemap\<close>; a block is named by its first page. The
  free lists hold page numbers, with the list operations that \<^theory_text>\<open>KList\<close> proves correct for the
  links in \<^verbatim>\<open>page->node\<close>. All operations run under \<^verbatim>\<open>pmem_lock\<close> and are single steps. \<open>None\<close> is a
  panic, a failed assertion or an access beyond \<^verbatim>\<open>pagemap\<close>.
\<close>

abbreviation (input) pg_size :: nat where "pg_size \<equiv> 4096"
abbreviation MAX_ORDER :: nat where "MAX_ORDER \<equiv> 10"

definition pg_round_up :: "nat \<Rightarrow> nat" where
  "pg_round_up a = (a + pg_size - 1) div pg_size * pg_size"

definition pg_aligned :: "nat \<Rightarrow> bool" where
  "pg_aligned a \<longleftrightarrow> a mod pg_size = 0"

record page =
  kmem_cache :: "addr option"
  slab :: "addr option"
  rmap :: "addr option"
  refcnt :: int
  order :: nat
  pg_state :: u32
  blk_headers :: "addr list"

record pmem =
  pmem_start :: nat
  pmem_end :: nat
  bitmap :: "nat \<Rightarrow> u8"
  bitmap_contig_start :: nat
  bitmap_end :: nat
  pages :: "nat \<Rightarrow> page"
  npages :: nat
  pagemap_initialized :: bool
  freeblocks :: "nat \<Rightarrow> nat list"

definition upd_page :: "nat \<Rightarrow> (page \<Rightarrow> page) \<Rightarrow> pmem \<Rightarrow> pmem option" where
  "upd_page p f s =
     do { kassert (p < npages s); Some (s\<lparr>pages := (pages s)(p := f (pages s p))\<rparr>) }"

subsection \<open>Memory map of the machine (arch/x86_64/kernel/mm/pmem.c)\<close>

record e820_entry =
  base_addr :: nat
  e820_len :: nat
  e820_type :: nat

abbreviation (input) E820_TYPE_USABLE :: nat where "E820_TYPE_USABLE \<equiv> 1"
abbreviation (input) MAX_E820_N_ENTRIES :: nat where "MAX_E820_N_ENTRIES \<equiv> 64"
definition e820_end :: "e820_entry \<Rightarrow> nat" where
  "e820_end entry = (base_addr entry + e820_len entry) mod 2 ^ 64"

abbreviation (input) DEVMEM_BASE :: nat where "DEVMEM_BASE \<equiv> 0xFFFFFFFFFE000000"

definition pg_round_down :: "nat \<Rightarrow> nat" where
  "pg_round_down a = a div pg_size * pg_size"

text \<open>\<open>raw\<close> are the entries that the boot loader left, up to and including the one its end pointer names;
  the table keeps one entry less than were copied.\<close>

definition pmem_e820_init :: "e820_entry list \<Rightarrow> e820_entry list" where
  "pmem_e820_init raw = (let copied = take MAX_E820_N_ENTRIES raw in take (length copied - 1) copied)"

fun usable_end :: "nat \<Rightarrow> e820_entry list \<Rightarrow> nat option" where
  "usable_end kend [] = Some 0"
| "usable_end kend (entry # es) =
     (if e820_type entry = E820_TYPE_USABLE \<and> e820_end entry > kend
      then do { kassert (base_addr entry \<le> kend); Some (pg_round_down (e820_end entry)) }
      else usable_end kend es)"

definition pmem_arch_init :: "nat \<Rightarrow> e820_entry list \<Rightarrow> pmem \<Rightarrow> pmem option" where
  "pmem_arch_init kend raw s =
     do { let s = s\<lparr>pmem_start := pg_round_up kend\<rparr>;
          e \<leftarrow> usable_end kend (pmem_e820_init raw);
          kassert (e \<noteq> 0);
          kassert (e < DEVMEM_BASE);
          Some (s\<lparr>pmem_end := e\<rparr>) }"

subsection \<open>Boot allocator\<close>

definition BITMAP_SET :: "nat \<Rightarrow> (nat \<Rightarrow> u8) \<Rightarrow> nat \<Rightarrow> u8" where
  "BITMAP_SET i b = b(i div 8 := b (i div 8) OR push_bit (i mod 8) 1)"

definition BITMAP_UNSET :: "nat \<Rightarrow> (nat \<Rightarrow> u8) \<Rightarrow> nat \<Rightarrow> u8" where
  "BITMAP_UNSET i b = b(i div 8 := b (i div 8) AND NOT (push_bit (i mod 8) 1))"

definition BITMAP_ISSET :: "nat \<Rightarrow> (nat \<Rightarrow> u8) \<Rightarrow> bool" where
  "BITMAP_ISSET i b \<longleftrightarrow> b (i div 8) AND push_bit (i mod 8) 1 \<noteq> 0"

definition BITMAP_ITOP :: "nat \<Rightarrow> pmem \<Rightarrow> nat" where
  "BITMAP_ITOP i s = i * pg_size + pmem_start s"

definition BITMAP_PTOI :: "nat \<Rightarrow> pmem \<Rightarrow> nat" where
  "BITMAP_PTOI p s = (p - pmem_start s) div pg_size"

fun bitmap_alloc_loop :: "nat \<Rightarrow> nat \<Rightarrow> (nat \<Rightarrow> u8) \<Rightarrow> (nat \<Rightarrow> u8) option" where
  "bitmap_alloc_loop i 0 b = Some b"
| "bitmap_alloc_loop i (Suc n) b =
     do { kassert (\<not> BITMAP_ISSET i b); bitmap_alloc_loop (Suc i) n (BITMAP_SET i b) }"

definition bitmap_alloc :: "nat \<Rightarrow> nat \<Rightarrow> pmem \<Rightarrow> pmem option" where
  "bitmap_alloc index n s =
     do { kassert (index + n \<le> bitmap_end s);
          b \<leftarrow> bitmap_alloc_loop index n (bitmap s);
          let s = s\<lparr>bitmap := b\<rparr>;
          Some (if index + n > bitmap_contig_start s then s\<lparr>bitmap_contig_start := index + n\<rparr> else s) }"

fun bitmap_free_loop :: "nat \<Rightarrow> nat \<Rightarrow> (nat \<Rightarrow> u8) \<Rightarrow> (nat \<Rightarrow> u8) option" where
  "bitmap_free_loop i 0 b = Some b"
| "bitmap_free_loop i (Suc n) b =
     do { kassert (BITMAP_ISSET i b); bitmap_free_loop (Suc i) n (BITMAP_UNSET i b) }"

fun bitmap_scan_back :: "nat \<Rightarrow> (nat \<Rightarrow> u8) \<Rightarrow> nat" where
  "bitmap_scan_back 0 b = 0"
| "bitmap_scan_back (Suc i) b = (if BITMAP_ISSET i b then Suc i else bitmap_scan_back i b)"

definition bitmap_free :: "nat \<Rightarrow> nat \<Rightarrow> pmem \<Rightarrow> pmem option" where
  "bitmap_free index n s =
     do { kassert (index + n \<le> bitmap_end s);
          kassert (index + n \<le> bitmap_contig_start s);
          b \<leftarrow> bitmap_free_loop index n (bitmap s);
          let s = s\<lparr>bitmap := b\<rparr>;
          Some (if index + n = bitmap_contig_start s
                then s\<lparr>bitmap_contig_start := bitmap_scan_back index b\<rparr> else s) }"

text \<open>The loop of \<^verbatim>\<open>bitmap_find\<close> at index \<open>i\<close>, with \<open>k\<close> indices to go.\<close>

fun bitmap_find_loop :: "nat \<Rightarrow> nat \<Rightarrow> nat \<Rightarrow> nat \<Rightarrow> nat \<Rightarrow> (nat \<Rightarrow> u8) \<Rightarrow> nat option" where
  "bitmap_find_loop n 0 i first n_free_pages b = None"
| "bitmap_find_loop n (Suc k) i first n_free_pages b =
     (if BITMAP_ISSET i b then bitmap_find_loop n k (Suc i) (Suc first) 0 b
      else if Suc n_free_pages \<ge> n then Some first
      else bitmap_find_loop n k (Suc i) first (Suc n_free_pages) b)"

definition bitmap_find :: "nat \<Rightarrow> pmem \<Rightarrow> nat option option" where
  "bitmap_find n s = do { kassert (n > 0); Some (bitmap_find_loop n (bitmap_end s) 0 0 0 (bitmap s)) }"

definition bitmap_n_pages :: "pmem \<Rightarrow> nat" where
  "bitmap_n_pages s = pg_round_up (((pmem_end s - pmem_start s) div pg_size) div 8) div pg_size"

definition bitmap_init :: "pmem \<Rightarrow> pmem option" where
  "bitmap_init s =
     do { kassert (pmem_start s < pmem_end s);
          kassert (pg_aligned (pmem_start s));
          kassert (pg_aligned (pmem_end s));
          let s = s\<lparr>bitmap_contig_start := 0, bitmap_end := (pmem_end s - pmem_start s) div pg_size\<rparr>;
          kassert (bitmap_n_pages s < bitmap_end s);
          let s = s\<lparr>bitmap := (\<lambda>a. if a < pg_size * bitmap_n_pages s then 0 else bitmap s a)\<rparr>;
          bitmap_alloc 0 (bitmap_n_pages s) s }"

subsection \<open>Page numbers and orders\<close>

definition paddr_to_page :: "nat \<Rightarrow> nat" where
  "paddr_to_page paddr = paddr div pg_size"

definition page_to_paddr :: "nat \<Rightarrow> nat" where
  "page_to_paddr p = p * pg_size"

fun max_order_loop :: "nat \<Rightarrow> nat \<Rightarrow> nat \<Rightarrow> nat" where
  "max_order_loop 0 start_index end_index = 0"
| "max_order_loop (Suc o') start_index end_index =
     (if start_index mod 2 ^ Suc o' = 0 \<and> start_index + 2 ^ Suc o' \<le> end_index then Suc o'
      else max_order_loop o' start_index end_index)"

definition get_max_page_order :: "nat \<Rightarrow> nat \<Rightarrow> nat option" where
  "get_max_page_order start en =
     (let start_index = start div pg_size; end_index = en div pg_size
      in do { kassert (end_index > start_index); Some (max_order_loop MAX_ORDER start_index end_index) })"

fun min_order_loop :: "nat \<Rightarrow> nat \<Rightarrow> nat \<Rightarrow> nat option" where
  "min_order_loop 0 ord n = None"
| "min_order_loop (Suc k) ord n = (if 2 ^ ord \<ge> n then Some ord else min_order_loop k (Suc ord) n)"

definition get_min_page_order :: "nat \<Rightarrow> nat option" where
  "get_min_page_order n = min_order_loop (Suc MAX_ORDER) 0 n"

subsection \<open>Buddy allocator\<close>

definition find_buddy :: "nat \<Rightarrow> pmem \<Rightarrow> nat option option" where
  "find_buddy p s =
     do { let ord = order (pages s p);
          kassert (ord \<le> MAX_ORDER);
          kassert (p mod 2 ^ ord = 0);
          let index = p div 2 ^ ord;
          let buddy = (if odd index then p - 2 ^ ord else p + 2 ^ ord);
          Some (if buddy \<ge> npages s then None else Some buddy) }"

definition freeblocks_insert :: "nat \<Rightarrow> pmem \<Rightarrow> pmem option" where
  "freeblocks_insert p s =
     do { kassert (order (pages s p) \<le> MAX_ORDER);
          s \<leftarrow> upd_page p (refcnt_update (\<lambda>_. 0)) s;
          let ord = order (pages s p);
          Some (s\<lparr>freeblocks := (freeblocks s)(ord := freeblocks s ord @ [p])\<rparr>) }"

definition freeblocks_remove :: "nat \<Rightarrow> pmem \<Rightarrow> pmem option" where
  "freeblocks_remove p s =
     do { kassert (refcnt (pages s p) = 0);
          kassert (order (pages s p) \<le> MAX_ORDER);
          Some (s\<lparr>freeblocks := (\<lambda>ord. remove1 p (freeblocks s ord))\<rparr>) }"

text \<open>The two parts of \<^verbatim>\<open>find_freeblock\<close>: taking a block apart, and the search.\<close>

definition split_block :: "nat \<Rightarrow> nat \<Rightarrow> pmem \<Rightarrow> pmem option" where
  "split_block ord p s =
     do { s \<leftarrow> upd_page p (order_update (\<lambda>_. ord - 1)) s;
          b \<leftarrow> find_buddy p s;
          buddy \<leftarrow> b;
          s \<leftarrow> upd_page buddy (order_update (\<lambda>_. ord - 1)) s;
          freeblocks_insert buddy s }"

function find_freeblock :: "nat \<Rightarrow> bool \<Rightarrow> pmem \<Rightarrow> (nat option \<times> pmem) option" where
  "find_freeblock ord split s =
     (if ord > MAX_ORDER then Some (None, s)
      else do {
        (r, s) \<leftarrow> (case freeblocks s ord of
            p # _ \<Rightarrow> do { s \<leftarrow> freeblocks_remove p s; Some (Some p, s) }
          | [] \<Rightarrow> find_freeblock (Suc ord) True s);
        case r of
            None \<Rightarrow> Some (None, s)
          | Some p \<Rightarrow> if split then do { s \<leftarrow> split_block ord p s; Some (Some p, s) } else Some (Some p, s) })"
  by pat_completeness auto
termination
  by (relation "measure (\<lambda>(ord, split, s). Suc MAX_ORDER - ord)") auto

declare find_freeblock.simps [simp del]

text \<open>\<^verbatim>\<open>merge_block\<close> calls itself for the merged block, of the next order; the first argument bounds
  the depth, and the eleven orders are enough for every call to return.\<close>

fun merge_loop :: "nat \<Rightarrow> nat \<Rightarrow> pmem \<Rightarrow> (nat \<times> pmem) option" where
  "merge_loop 0 p s = None"
| "merge_loop (Suc k) p s =
     do { kassert (p < npages s);
          kassert (refcnt (pages s p) = 0);
          kassert (order (pages s p) \<le> MAX_ORDER);
          if order (pages s p) = MAX_ORDER then Some (p, s)
          else do {
            b \<leftarrow> find_buddy p s;
            case b of
                None \<Rightarrow> Some (p, s)
              | Some buddy \<Rightarrow>
                  if refcnt (pages s buddy) = 0 \<and> order (pages s buddy) = order (pages s p)
                  then do {
                    s \<leftarrow> freeblocks_remove buddy s;
                    if p < buddy
                    then do { s \<leftarrow> upd_page p (order_update Suc) s; merge_loop k p s }
                    else do { s \<leftarrow> upd_page buddy (order_update Suc) s; merge_loop k buddy s } }
                  else Some (p, s) } }"

definition merge_block :: "nat \<Rightarrow> pmem \<Rightarrow> (nat \<times> pmem) option" where
  "merge_block p s = merge_loop (Suc MAX_ORDER) p s"

function freeblocks_insert_range :: "nat \<Rightarrow> nat \<Rightarrow> pmem \<Rightarrow> pmem option" where
  "freeblocks_insert_range start en s =
     (if start < en then
        do { ord \<leftarrow> get_max_page_order start en;
             let p = paddr_to_page start;
             s \<leftarrow> upd_page p (order_update (\<lambda>_. ord)) s;
             s \<leftarrow> freeblocks_insert p s;
             freeblocks_insert_range (start + 2 ^ ord * pg_size) en s }
      else Some s)"
  by pat_completeness auto
termination
  by (relation "measure (\<lambda>(start, en, s). en - start)") (auto intro!: diff_less_mono2)

declare freeblocks_insert_range.simps [simp del]

subsection \<open>Start of the buddy allocator\<close>

text \<open>\<open>szpage\<close> is the size of \<^verbatim>\<open>struct page\<close> in bytes.\<close>

definition bitmap_alloc_pages :: "nat \<Rightarrow> pmem \<Rightarrow> ((err_t \<times> nat) \<times> pmem) option" where
  "bitmap_alloc_pages n s =
     do { r \<leftarrow> bitmap_find n s;
          case r of
              None \<Rightarrow> Some ((ERR_NOMEM, 0), s)
            | Some index \<Rightarrow> do { s \<leftarrow> bitmap_alloc index n s; Some ((ERR_OK, BITMAP_ITOP index s), s) } }"

definition pagemap_init :: "nat \<Rightarrow> pmem \<Rightarrow> pmem option" where
  "pagemap_init szpage s =
     do { let n_pages = pmem_end s div pg_size;
          let pagemap_n_pages = pg_round_up (n_pages * szpage) div pg_size;
          kassert (pagemap_n_pages > 0);
          ((err, paddr), s) \<leftarrow> bitmap_alloc_pages pagemap_n_pages s;
          kassert (err = ERR_OK);
          Some (s\<lparr>npages := n_pages, pages := (\<lambda>_. \<lparr>kmem_cache = None, slab = None, rmap = None,
                   refcnt = 0, order = 0, pg_state = 0, blk_headers = []\<rparr>)\<rparr>) }"

definition mark_allocated :: "nat \<Rightarrow> pmem \<Rightarrow> pmem option" where
  "mark_allocated p s = upd_page p (\<lambda>pg. pg\<lparr>refcnt := 1, order := 0\<rparr>) s"

fun mark_low :: "nat \<Rightarrow> nat \<Rightarrow> pmem \<Rightarrow> pmem option" where
  "mark_low 0 paddr s = Some s"
| "mark_low (Suc k) paddr s =
     (if paddr < pmem_start s
      then do { s \<leftarrow> mark_allocated (paddr_to_page paddr) s; mark_low k (paddr + pg_size) s }
      else Some s)"

fun probe_loop :: "nat \<Rightarrow> nat \<Rightarrow> pmem \<Rightarrow> nat" where
  "probe_loop 0 probe s = probe"
| "probe_loop (Suc k) probe s =
     (if probe < bitmap_contig_start s \<and> \<not> BITMAP_ISSET probe (bitmap s) then probe_loop k (Suc probe) s
      else probe)"

text \<open>The loop over the boot bitmap; \<open>k\<close> bounds the number of rounds, of which there is at most one per
  index.\<close>

fun scan_bitmap :: "nat \<Rightarrow> nat \<Rightarrow> pmem \<Rightarrow> pmem option" where
  "scan_bitmap 0 index s = Some s"
| "scan_bitmap (Suc k) index s =
     (if index < bitmap_contig_start s then
        (if BITMAP_ISSET index (bitmap s)
         then do { s \<leftarrow> mark_allocated (paddr_to_page (BITMAP_ITOP index s)) s; scan_bitmap k (Suc index) s }
         else do { let probe = probe_loop (bitmap_contig_start s) (Suc index) s;
                   s \<leftarrow> freeblocks_insert_range (BITMAP_ITOP index s) (BITMAP_ITOP probe s) s;
                   scan_bitmap k probe s })
      else Some s)"

definition freeblocks_init :: "pmem \<Rightarrow> pmem option" where
  "freeblocks_init s =
     do { kassert (bitmap_n_pages s > 0);
          s \<leftarrow> bitmap_free (BITMAP_PTOI (pmem_start s) s) (bitmap_n_pages s) s;
          let s = s\<lparr>freeblocks := (\<lambda>_. [])\<rparr>;
          s \<leftarrow> mark_low (pmem_start s) 0 s;
          s \<leftarrow> scan_bitmap (bitmap_contig_start s) 0 s;
          freeblocks_insert_range (BITMAP_ITOP (bitmap_contig_start s) s) (pmem_end s) s }"

definition pmem_boot_init :: "pmem \<Rightarrow> pmem option" where
  "pmem_boot_init s = do { s \<leftarrow> bitmap_init s; Some (s\<lparr>pagemap_initialized := False\<rparr>) }"

definition pmem_init :: "nat \<Rightarrow> pmem \<Rightarrow> pmem option" where
  "pmem_init szpage s =
     do { s \<leftarrow> pagemap_init szpage s;
          s \<leftarrow> freeblocks_init s;
          Some (s\<lparr>pagemap_initialized := True\<rparr>) }"

subsection \<open>The operations for the kernel\<close>

definition pmem_is_page_dirty :: "nat \<Rightarrow> pmem \<Rightarrow> bool" where
  "pmem_is_page_dirty p s = get_state_bit (pg_state (pages s p)) 0"

definition pmem_set_page_dirty :: "nat \<Rightarrow> bool \<Rightarrow> pmem \<Rightarrow> pmem option" where
  "pmem_set_page_dirty p dirty s = upd_page p (\<lambda>pg. pg\<lparr>pg_state := set_state_bit (pg_state pg) 0 dirty\<rparr>) s"

definition pmem_nalloc :: "nat \<Rightarrow> pmem \<Rightarrow> ((err_t \<times> nat) \<times> pmem) option" where
  "pmem_nalloc n s =
     do { kassert (n > 0);
          if \<not> pagemap_initialized s then bitmap_alloc_pages n s
          else do {
            ord \<leftarrow> get_min_page_order n;
            (r, s) \<leftarrow> find_freeblock ord False s;
            case r of
                None \<Rightarrow> Some ((ERR_NOMEM, 0), s)
              | Some p \<Rightarrow>
                  do { s \<leftarrow> upd_page p (\<lambda>pg. pg\<lparr>kmem_cache := None, slab := None, rmap := None\<rparr>) s;
                       s \<leftarrow> pmem_set_page_dirty p False s;
                       kassert (refcnt (pages s p) = 0);
                       s \<leftarrow> upd_page p (\<lambda>pg. pg\<lparr>refcnt := 1, blk_headers := []\<rparr>) s;
                       kassert (page_to_paddr p \<noteq> 0);
                       Some ((ERR_OK, page_to_paddr p), s) } } }"

definition pmem_nfree :: "nat \<Rightarrow> nat \<Rightarrow> pmem \<Rightarrow> pmem option" where
  "pmem_nfree paddr n s =
     do { kassert (n > 0);
          if \<not> pagemap_initialized s then bitmap_free (BITMAP_PTOI paddr s) n s
          else do {
            let p = paddr_to_page paddr;
            s \<leftarrow> upd_page p (refcnt_update (\<lambda>_. 0)) s;
            (p, s) \<leftarrow> merge_block p s;
            freeblocks_insert p s } }"

definition pmem_alloc :: "pmem \<Rightarrow> ((err_t \<times> nat) \<times> pmem) option" where
  "pmem_alloc s = pmem_nalloc 1 s"

definition pmem_free :: "nat \<Rightarrow> pmem \<Rightarrow> pmem option" where
  "pmem_free paddr s = pmem_nfree paddr 1 s"

definition pmem_get_refcnt :: "nat \<Rightarrow> pmem \<Rightarrow> int option" where
  "pmem_get_refcnt paddr s =
     do { kassert (paddr_to_page paddr < npages s); Some (refcnt (pages s (paddr_to_page paddr))) }"

definition pmem_inc_refcnt :: "nat \<Rightarrow> int \<Rightarrow> pmem \<Rightarrow> pmem option" where
  "pmem_inc_refcnt paddr n s =
     do { let p = paddr_to_page paddr;
          kassert (refcnt (pages s p) > 0);
          kassert (order (pages s p) = 0);
          upd_page p (\<lambda>pg. pg\<lparr>refcnt := refcnt pg + n\<rparr>) s }"

definition pmem_dec_refcnt :: "nat \<Rightarrow> pmem \<Rightarrow> pmem option" where
  "pmem_dec_refcnt paddr s =
     do { let p = paddr_to_page paddr;
          kassert (refcnt (pages s p) > 0);
          kassert (order (pages s p) = 0);
          s \<leftarrow> upd_page p (\<lambda>pg. pg\<lparr>refcnt := refcnt pg - 1\<rparr>) s;
          if refcnt (pages s p) = 0 then pmem_nfree paddr 1 s else Some s }"

end
