(* ===== verification/Allocator.thy ===== *)
theory Allocator
  imports OSV_Base
begin

section \<open>The interface of an allocator\<close>

text \<open>
  What the kernel's allocators promise to their clients: every object handed out and not yet given back
  owns a region of memory, and the regions of two live objects never overlap. \<open>inv s A\<close> says that the
  allocator's state is consistent and that \<open>A\<close> are the live objects. The lemma of the interface is about
  a client: no sequence of requests makes the allocator panic or hand out overlapping objects. The page
  allocator, the slab allocator and the disk block allocator provide it.
\<close>

datatype 'r request = Alloc 'r | Free nat

locale allocator =
  fixes inv :: "'s \<Rightarrow> 'a set \<Rightarrow> bool"
    and alloc :: "'r \<Rightarrow> 's \<Rightarrow> ('a option \<times> 's) option"
    and free :: "'a \<Rightarrow> 's \<Rightarrow> 's option"
    and region :: "'s \<Rightarrow> 'a \<Rightarrow> nat set"
    and ok :: "'r \<Rightarrow> bool"
  assumes alloc_ok: "inv s A \<Longrightarrow> ok r \<Longrightarrow> \<exists>x s'. alloc r s = Some (x, s') \<and>
      (case x of None \<Rightarrow> inv s' A | Some a \<Rightarrow> a \<notin> A \<and> inv s' (insert a A)) \<and>
      (\<forall>b\<in>A. region s' b = region s b)"
    and free_ok: "inv s A \<Longrightarrow> a \<in> A \<Longrightarrow>
      \<exists>s'. free a s = Some s' \<and> inv s' (A - {a}) \<and> (\<forall>b\<in>A - {a}. region s' b = region s b)"
    and disjoint: "inv s A \<Longrightarrow> a \<in> A \<Longrightarrow> b \<in> A \<Longrightarrow> a \<noteq> b \<Longrightarrow> region s a \<inter> region s b = {}"
begin

text \<open>A client keeps a list of its live objects, newest first.\<close>

fun serve :: "'r request \<Rightarrow> 'a list \<times> 's \<Rightarrow> ('a list \<times> 's) option" where
  "serve (Alloc r) (L, s) =
     do { (x, s) \<leftarrow> alloc r s; Some (case x of None \<Rightarrow> L | Some a \<Rightarrow> a # L, s) }"
| "serve (Free i) (L, s) =
     (if i < length L then do { s \<leftarrow> free (L ! i) s; Some (remove1 (L ! i) L, s) } else Some (L, s))"

fun serve_all :: "'r request list \<Rightarrow> 'a list \<times> 's \<Rightarrow> ('a list \<times> 's) option" where
  "serve_all [] c = Some c"
| "serve_all (r # rs) c = do { c \<leftarrow> serve r c; serve_all rs c }"

fun request_ok :: "'r request \<Rightarrow> bool" where
  "request_ok (Alloc r) = ok r"
| "request_ok (Free i) = True"

definition live :: "'a list \<times> 's \<Rightarrow> bool" where
  "live c \<longleftrightarrow> distinct (fst c) \<and> inv (snd c) (set (fst c))"

lemma serve_live:
  assumes "live c" "request_ok r"
  shows "\<exists>c'. serve r c = Some c' \<and> live c'"
proof -
  obtain L s where c: "c = (L, s)" by (cases c)
  show ?thesis
  proof (cases r)
    case (Alloc q)
    then obtain x s' where "alloc q s = Some (x, s')"
      "case x of None \<Rightarrow> inv s' (set L) | Some a \<Rightarrow> a \<notin> set L \<and> inv s' (insert a (set L))"
      using alloc_ok [of s "set L" q] assms c by (auto simp: live_def)
    then show ?thesis using Alloc assms c by (auto simp: live_def split: option.splits)
  next
    case (Free i)
    show ?thesis
    proof (cases "i < length L")
      case True
      then have "L ! i \<in> set L" by simp
      then obtain s' where "free (L ! i) s = Some s'" "inv s' (set L - {L ! i})"
        using free_ok [of s "set L" "L ! i"] assms c by (auto simp: live_def)
      then show ?thesis using True Free assms c by (auto simp: live_def)
    qed (use Free assms c in auto)
  qed
qed

lemma serve_all_live:
  "live c \<Longrightarrow> \<forall>r\<in>set rs. request_ok r \<Longrightarrow> \<exists>c'. serve_all rs c = Some c' \<and> live c'"
proof (induction rs arbitrary: c)
  case (Cons r rs)
  then obtain c1 where "serve r c = Some c1" "live c1" using serve_live [of c r] by auto
  with Cons show ?case by auto
qed auto

theorem serve_all_disjoint:
  assumes "live c" "\<forall>r\<in>set rs. request_ok r"
  shows "\<exists>L s. serve_all rs c = Some (L, s) \<and> inv s (set L) \<and>
    (\<forall>i j. i < j \<and> j < length L \<longrightarrow> region s (L ! i) \<inter> region s (L ! j) = {})"
proof -
  obtain L s where L: "serve_all rs c = Some (L, s)" "distinct L" "inv s (set L)"
    using serve_all_live [OF assms] by (auto simp: live_def)
  have "region s (L ! i) \<inter> region s (L ! j) = {}" if "i < j" "j < length L" for i j
    by (rule disjoint [OF L(3)]) (use that L(2) nth_eq_iff_index_eq [OF L(2), of i j] in auto)
  with L show ?thesis by blast
qed

end

end
