(* ===== verification/Pmem_Inv.thy ===== *)
theory Pmem_Inv
  imports Pmem Allocator
begin

section \<open>The buddy allocator partitions memory\<close>

text \<open>
  The invariant of \<^theory_text>\<open>Pmem\<close>: at all times the pages are tiled by aligned blocks of a power of two
  of pages, each either on the free list of its order or allocated. The tiling is a partial map from first
  pages to orders; splitting and merging blocks are two operations on it.
\<close>

subsection \<open>Tilings\<close>

type_synonym tiling = "nat \<Rightarrow> nat option"

definition covers :: "tiling \<Rightarrow> nat \<Rightarrow> nat \<Rightarrow> bool" where
  "covers P x h \<longleftrightarrow> (\<exists>ord. P h = Some ord \<and> h \<le> x \<and> x < h + 2 ^ ord)"

definition tiles :: "tiling \<Rightarrow> nat \<Rightarrow> bool" where
  "tiles P k \<longleftrightarrow>
     (\<forall>h ord. P h = Some ord \<longrightarrow> ord \<le> MAX_ORDER \<and> 2 ^ ord dvd h \<and> h + 2 ^ ord \<le> k) \<and>
     (\<forall>x<k. \<exists>!h. covers P x h)"

lemma tilesD:
  assumes "tiles P k" "P h = Some ord"
  shows "ord \<le> MAX_ORDER" "2 ^ ord dvd h" "h + 2 ^ ord \<le> k" "h < k"
proof -
  from assms show 1: "ord \<le> MAX_ORDER" "2 ^ ord dvd h" "h + 2 ^ ord \<le> k" by (auto simp: tiles_def)
  have "(0::nat) < 2 ^ ord" by simp
  with 1(3) show "h < k" by linarith
qed

lemma tiles_unique:
  assumes "tiles P k" "covers P x h" "covers P x h'"
  shows "h = h'"
proof -
  have "x < k" using assms(1,2) tilesD(3) [OF assms(1)] by (fastforce simp: covers_def)
  with assms show ?thesis unfolding tiles_def by blast
qed

lemma tiles_cover: "tiles P k \<Longrightarrow> x < k \<Longrightarrow> \<exists>h. covers P x h"
  unfolding tiles_def by blast

lemma tilesI:
  assumes "\<And>h ord. P h = Some ord \<Longrightarrow> ord \<le> MAX_ORDER \<and> 2 ^ ord dvd h \<and> h + 2 ^ ord \<le> k"
    and "\<And>x. x < k \<Longrightarrow> \<exists>h. covers P x h"
    and "\<And>x h h'. x < k \<Longrightarrow> covers P x h \<Longrightarrow> covers P x h' \<Longrightarrow> h = h'"
  shows "tiles P k"
  using assms unfolding tiles_def by blast

lemma covers_head: "P h = Some ord \<Longrightarrow> covers P h h"
  by (simp add: covers_def)

text \<open>The inner pages of a block start no block.\<close>

lemma inner_None:
  assumes "tiles P k" "P h = Some ord" "h < x" "x < h + 2 ^ ord"
  shows "P x = None"
proof (rule ccontr)
  assume "P x \<noteq> None"
  then have "covers P x x" by (auto simp: covers_def)
  moreover have "covers P x h" using assms by (auto simp: covers_def)
  ultimately show False using tiles_unique [OF assms(1)] assms(3) by blast
qed

lemma tiles_split:
  assumes t: "tiles P k" and h: "P h = Some (Suc ord)"
  shows "tiles (P(h \<mapsto> ord, h + 2 ^ ord \<mapsto> ord)) k" (is "tiles ?P k")
proof (rule tilesI)
  note D = tilesD [OF t h]
  have cov: "covers ?P x g \<longleftrightarrow>
      (if covers P x h then g = (if x < h + 2 ^ ord then h else h + 2 ^ ord) else covers P x g)" for x g
  proof (cases "covers P x h")
    case True
    then have x: "h \<le> x" "x < h + 2 ^ ord + 2 ^ ord" using h by (auto simp: covers_def)
    have "\<not> covers ?P x g" if "g \<noteq> h" "g \<noteq> h + 2 ^ ord"
      using tiles_unique [OF t True, of g] that by (auto simp: covers_def)
    moreover have "covers ?P x h \<longleftrightarrow> x < h + 2 ^ ord" "covers ?P x (h + 2 ^ ord) \<longleftrightarrow> \<not> x < h + 2 ^ ord"
      using x by (auto simp: covers_def)
    ultimately show ?thesis using True by auto
  next
    case False
    then have "\<not> (h \<le> x \<and> x < h + 2 ^ ord + 2 ^ ord)" using h by (auto simp: covers_def)
    moreover have "P (h + 2 ^ ord) = None" by (rule inner_None [OF t h]) simp_all
    ultimately show ?thesis using False h by (auto simp: covers_def)
  qed
  show "\<exists>g. covers ?P x g" if "x < k" for x
    unfolding cov using tiles_cover [OF t that] by (cases "covers P x h") auto
  show "g = g'" if "covers ?P x g" "covers ?P x g'" for x g g'
    using that tiles_unique [OF t] unfolding cov by (auto split: if_splits)
  have "(2::nat) ^ ord dvd h" using D(2) by (rule dvd_trans [rotated]) simp
  then show "ord' \<le> MAX_ORDER \<and> 2 ^ ord' dvd g \<and> g + 2 ^ ord' \<le> k" if "?P g = Some ord'" for g ord'
    using that D tilesD [OF t] by (auto split: if_splits)
qed

lemma tiles_merge:
  assumes t: "tiles P k" and h: "P h = Some ord" "P (h + 2 ^ ord) = Some ord"
    and al: "2 ^ Suc ord dvd h" "ord < MAX_ORDER"
  shows "tiles (P(h + 2 ^ ord := None, h \<mapsto> Suc ord)) k" (is "tiles ?P k")
proof (rule tilesI)
  have pos: "(0::nat) < 2 ^ ord" by simp
  have cov: "covers ?P x g \<longleftrightarrow> (if h \<le> x \<and> x < h + 2 ^ ord + 2 ^ ord then g = h else covers P x g)" for x g
  proof (cases "h \<le> x \<and> x < h + 2 ^ ord + 2 ^ ord")
    case True
    then have "covers P x (if x < h + 2 ^ ord then h else h + 2 ^ ord)" using h by (auto simp: covers_def)
    from tiles_unique [OF t this, of g] True show ?thesis using pos
      by (auto simp: covers_def split: if_splits)
  next
    case False
    then show ?thesis using h pos by (auto simp: covers_def)
  qed
  show "\<exists>g. covers ?P x g" if "x < k" for x
    unfolding cov using tiles_cover [OF t that] by auto
  show "g = g'" if "covers ?P x g" "covers ?P x g'" for x g g'
    using that tiles_unique [OF t] unfolding cov by (auto split: if_splits)
  show "ord' \<le> MAX_ORDER \<and> 2 ^ ord' dvd g \<and> g + 2 ^ ord' \<le> k" if "?P g = Some ord'" for g ord'
    using that al tilesD(3) [OF t h(2)] tilesD [OF t] pos by (auto split: if_splits)
qed

lemma tiles_extend:
  assumes t: "tiles P k" and "2 ^ ord dvd k" "ord \<le> MAX_ORDER"
  shows "tiles (P(k \<mapsto> ord)) (k + 2 ^ ord)" (is "tiles ?P ?k")
proof (rule tilesI)
  have "P k = None" using tilesD(4) [OF t] by (cases "P k") auto
  then have cov: "covers ?P x g \<longleftrightarrow> covers P x g \<or> g = k \<and> k \<le> x \<and> x < ?k" for x g
    by (auto simp: covers_def)
  have low: "x < k" if "covers P x g" for x g
    using that tilesD(3) [OF t] by (fastforce simp: covers_def)
  show "\<exists>g. covers ?P x g" if "x < ?k" for x
    unfolding cov using tiles_cover [OF t, of x] that by (cases "x < k") auto
  show "g = g'" if "covers ?P x g" "covers ?P x g'" for x g g'
    using that tiles_unique [OF t] low unfolding cov by (metis linorder_not_le)
  show "ord' \<le> MAX_ORDER \<and> 2 ^ ord' dvd g \<and> g + 2 ^ ord' \<le> ?k" if "?P g = Some ord'" for g ord'
    using that assms(2,3) tilesD [OF t] by (fastforce split: if_splits)
qed

text \<open>The buddy of a block below the limit starts a block, of the same order or smaller.\<close>

definition buddy_of :: "nat \<Rightarrow> nat \<Rightarrow> nat" where
  "buddy_of p ord = (if odd (p div 2 ^ ord) then p - 2 ^ ord else p + 2 ^ ord)"

lemma buddy_of_pair:
  assumes "2 ^ ord dvd p"
  shows "\<exists>h. 2 ^ Suc ord dvd h \<and> (p = h \<and> buddy_of p ord = h + 2 ^ ord \<or> p = h + 2 ^ ord \<and> buddy_of p ord = h)"
proof -
  obtain i where i: "p = 2 ^ ord * i" using assms by (elim dvdE)
  then have div: "p div 2 ^ ord = i" by simp
  show ?thesis
  proof (cases "odd i")
    case True
    then obtain m where "i = 2 * m + 1" by (elim oddE)
    then have "p = 2 ^ Suc ord * m + 2 ^ ord" using i by (simp add: algebra_simps)
    with True div show ?thesis by (intro exI [of _ "2 ^ Suc ord * m"]) (auto simp: buddy_of_def)
  next
    case False
    then obtain m where "i = 2 * m" by (auto elim: evenE)
    then have "p = 2 ^ Suc ord * m" using i by simp
    with False div show ?thesis by (intro exI [of _ p]) (auto simp: buddy_of_def)
  qed
qed


lemma buddy_of_neq: "2 ^ ord dvd p \<Longrightarrow> buddy_of p ord \<noteq> p"
  using buddy_of_pair [of ord p] by auto

lemma tiles_buddy:
  assumes t: "tiles P k" and p: "P p = Some ord" and q: "buddy_of p ord < k"
  shows "\<exists>ord'. P (buddy_of p ord) = Some ord'"
proof -
  let ?q = "buddy_of p ord"
  obtain h where h: "2 ^ Suc ord dvd h" "p = h \<and> ?q = h + 2 ^ ord \<or> p = h + 2 ^ ord \<and> ?q = h"
    using buddy_of_pair [OF tilesD(2) [OF t p]] by blast
  obtain g ord' where g: "P g = Some ord'" "g \<le> ?q" "?q < g + 2 ^ ord'"
    using tiles_cover [OF t q] by (auto simp: covers_def)
  note al = tilesD(2) [OF t g(1)]
  have "g = ?q"
  proof (cases "ord' \<le> ord")
    case True
    then have "(2::nat) ^ ord' dvd 2 ^ ord" by (rule le_imp_power_dvd)
    moreover have "(2::nat) ^ ord dvd ?q"
      using h by (metis dvd_add dvd_refl dvd_trans le_imp_power_dvd lessI less_imp_le)
    ultimately have d: "2 ^ ord' dvd ?q - g" using al dvd_trans by (metis dvd_diff_nat)
    show ?thesis
    proof (rule ccontr)
      assume "g \<noteq> ?q"
      then have "0 < ?q - g" using g(2) by simp
      from dvd_imp_le [OF d this] g show False by linarith
    qed
  next
    case False
    then have "(2::nat) ^ Suc ord dvd 2 ^ ord'" by (intro le_imp_power_dvd) simp
    with al have d: "2 ^ Suc ord dvd g" by (rule dvd_trans [rotated])
    have "g \<le> p \<and> p < g + 2 ^ ord'"
    proof -
      obtain a where a: "g = 2 ^ Suc ord * a" using d by (elim dvdE)
      obtain b where b: "h = 2 ^ Suc ord * b" using h(1) by (elim dvdE)
      obtain c where c: "(2::nat) ^ ord' = 2 ^ Suc ord * c"
        using \<open>2 ^ Suc ord dvd 2 ^ ord'\<close> by (elim dvdE)
      have hq: "h \<le> ?q" "?q < h + 2 ^ Suc ord" using h(2) by auto
      have "2 ^ Suc ord * a < 2 ^ Suc ord * (b + 1)" using g(2) hq a b by (simp add: algebra_simps)
      then have 1: "a \<le> b" by (simp only: mult_less_cancel1) simp
      have "2 ^ Suc ord * b < 2 ^ Suc ord * (a + c)" using g(3) hq a b c by (simp add: algebra_simps)
      then have 2: "b + 1 \<le> a + c" by (simp only: mult_less_cancel1) simp
      have "g \<le> h" using 1 a b by simp
      moreover have "h + 2 ^ Suc ord \<le> g + 2 ^ ord'"
        using mult_le_mono2 [OF 2, of "2 ^ Suc ord"] a b c by (simp add: algebra_simps)
      moreover have "p < h + 2 ^ Suc ord" "h \<le> p" using h(2) by auto
      ultimately show ?thesis by linarith
    qed
    then have "covers P p g" using g(1) by (auto simp: covers_def)
    from tiles_unique [OF t this covers_head [of P p, OF p]] p g False show ?thesis by simp
  qed
  with g show ?thesis by blast
qed

subsection \<open>The invariant\<close>

text \<open>The free lists, with \<open>X\<close> the blocks that are on none of them, tile the first \<open>k\<close> pages as \<open>P\<close>
  says.\<close>

definition buddy_rep :: "pmem \<Rightarrow> tiling \<Rightarrow> nat set \<Rightarrow> nat \<Rightarrow> bool" where
  "buddy_rep s P X k \<longleftrightarrow> tiles P k \<and> k \<le> npages s \<and> X \<subseteq> dom P \<and>
     (\<forall>ord. distinct (freeblocks s ord) \<and> set (freeblocks s ord) = {h. P h = Some ord \<and> h \<notin> X}) \<and>
     (\<forall>h ord. P h = Some ord \<longrightarrow> order (pages s h) = ord \<and> (h \<notin> X \<longrightarrow> refcnt (pages s h) = 0))"

lemma buddy_repI:
  assumes "tiles P k" "k \<le> npages s" "X \<subseteq> dom P"
    "\<And>ord. distinct (freeblocks s ord)"
    "\<And>ord h. h \<in> set (freeblocks s ord) \<longleftrightarrow> P h = Some ord \<and> h \<notin> X"
    "\<And>h ord. P h = Some ord \<Longrightarrow> order (pages s h) = ord"
    "\<And>h ord. P h = Some ord \<Longrightarrow> h \<notin> X \<Longrightarrow> refcnt (pages s h) = 0"
  shows "buddy_rep s P X k"
  using assms unfolding buddy_rep_def by blast

lemma buddy_repD:
  assumes "buddy_rep s P X k"
  shows "tiles P k" "k \<le> npages s" "X \<subseteq> dom P"
    "distinct (freeblocks s ord)"
    "h \<in> set (freeblocks s ord) \<longleftrightarrow> P h = Some ord \<and> h \<notin> X"
    "P h = Some ord \<Longrightarrow> order (pages s h) = ord"
    "P h = Some ord \<Longrightarrow> h \<notin> X \<Longrightarrow> refcnt (pages s h) = 0"
  using assms unfolding buddy_rep_def by blast+

lemma buddy_rep_bounds:
  assumes "buddy_rep s P X k" "P h = Some ord"
  shows "h < npages s" "order (pages s h) = ord" "ord \<le> MAX_ORDER"
  using tilesD [OF buddy_repD(1) [OF assms(1)] assms(2)] buddy_repD(2,6) [OF assms(1)] assms(2) by auto

definition free_pages :: "pmem \<Rightarrow> nat" where
  "free_pages s = (\<Sum>ord\<le>MAX_ORDER. 2 ^ ord * length (freeblocks s ord))"

text \<open>What an operation leaves alone: the blocks \<open>X\<close> and every page of them.\<close>

definition frame :: "nat set \<Rightarrow> pmem \<Rightarrow> tiling \<Rightarrow> pmem \<Rightarrow> tiling \<Rightarrow> bool" where
  "frame X s P s' P' \<longleftrightarrow> s' = s\<lparr>pages := pages s', freeblocks := freeblocks s'\<rparr> \<and>
     (\<forall>h\<in>X. P' h = P h) \<and> (\<forall>x h. h \<in> X \<and> covers P x h \<longrightarrow> pages s' x = pages s x)"

lemma frame_refl: "frame X s P s P"
  by (simp add: frame_def)

lemma frame_trans: "frame X s P s1 P1 \<Longrightarrow> frame X s1 P1 s2 P2 \<Longrightarrow> frame X s P s2 P2"
proof -
  assume 1: "frame X s P s1 P1" and 2: "frame X s1 P1 s2 P2"
  have "covers P1 x h" if "h \<in> X" "covers P x h" for x h
    using 1 that by (simp add: frame_def covers_def)
  then have "pages s2 x = pages s x" if "h \<in> X" "covers P x h" for x h
    using 1 2 that unfolding frame_def by metis
  moreover have "s2 = s\<lparr>pages := pages s2, freeblocks := freeblocks s2\<rparr>"
    using 1 2 unfolding frame_def by (cases s; cases s1; cases s2) simp
  ultimately show ?thesis using 1 2 unfolding frame_def by auto
qed

lemma frame_mono: "frame X s P s' P' \<Longrightarrow> Y \<subseteq> X \<Longrightarrow> frame Y s P s' P'"
  unfolding frame_def by blast

lemma frame_npages: "frame X s P s' P' \<Longrightarrow> npages s' = npages s"
  unfolding frame_def by (metis pmem.select_convs(7) pmem.surjective pmem.update_convs(6,9))


subsection \<open>Moving a block on and off the free lists\<close>

lemma upd_page_Some: "p < npages s \<Longrightarrow> upd_page p f s = Some (s\<lparr>pages := (pages s)(p := f (pages s p))\<rparr>)"
  by (simp add: upd_page_def)

lemma free_pages_insert:
  assumes "ord \<le> MAX_ORDER" "length (freeblocks s' ord) = Suc (length (freeblocks s ord))"
    "\<And>ord'. ord' \<noteq> ord \<Longrightarrow> length (freeblocks s' ord') = length (freeblocks s ord')"
  shows "free_pages s' = free_pages s + 2 ^ ord"
proof -
  have "free_pages s' = (\<Sum>ord'\<le>MAX_ORDER. 2 ^ ord' * length (freeblocks s ord') + (if ord' = ord then 2 ^ ord else 0))"
    unfolding free_pages_def by (rule sum.cong) (use assms in auto)
  with assms(1) show ?thesis by (simp add: sum.distrib free_pages_def)
qed

lemma freeblocks_remove_rep:
  assumes r: "buddy_rep s P X k" and p: "P p = Some ord" "p \<notin> X"
  shows "\<exists>s'. freeblocks_remove p s = Some s' \<and> buddy_rep s' P (insert p X) k \<and> frame UNIV s P s' P \<and>
           free_pages s' + 2 ^ ord = free_pages s"
proof -
  let ?s = "s\<lparr>freeblocks := (\<lambda>ord. remove1 p (freeblocks s ord))\<rparr>"
  note D = buddy_repD [OF r] and B = buddy_rep_bounds [OF r p(1)]
  have rm: "freeblocks_remove p s = Some ?s"
    using B D(7) [OF p] by (simp add: freeblocks_remove_def)
  have "buddy_rep ?s P (insert p X) k"
  proof (rule buddy_repI)
    show "insert p X \<subseteq> dom P" using D(3) p by auto
    show "h \<in> set (freeblocks ?s o') \<longleftrightarrow> P h = Some o' \<and> h \<notin> insert p X" for o' h
      using D(4) D(5) by auto
  qed (use D in auto)
  moreover have "free_pages s = free_pages ?s + 2 ^ ord"
  proof (rule free_pages_insert [OF B(3)])
    have m: "p \<in> set (freeblocks s o') \<longleftrightarrow> o' = ord" for o' using D(5) p by auto
    show "length (freeblocks s ord) = Suc (length (freeblocks ?s ord))"
      using m [of ord] by (simp add: length_remove1) (metis Suc_pred length_pos_if_in_set)
    show "length (freeblocks s o') = length (freeblocks ?s o')" if "o' \<noteq> ord" for o'
      using m [of o'] that by (simp add: length_remove1)
  qed
  ultimately show ?thesis using rm by (auto simp: frame_def)
qed

lemma freeblocks_insert_rep:
  assumes r: "buddy_rep s P X k" and p: "P p = Some ord" "p \<in> X"
  shows "\<exists>s'. freeblocks_insert p s = Some s' \<and> buddy_rep s' P (X - {p}) k \<and> frame (X - {p}) s P s' P \<and>
           free_pages s' = free_pages s + 2 ^ ord \<and> (\<forall>q. q \<noteq> p \<longrightarrow> pages s' q = pages s q)"
proof -
  note D = buddy_repD [OF r] and B = buddy_rep_bounds [OF r p(1)]
  let ?s = "s\<lparr>pages := (pages s)(p := (pages s p)\<lparr>refcnt := 0\<rparr>),
              freeblocks := (freeblocks s)(ord := freeblocks s ord @ [p])\<rparr>"
  have ins: "freeblocks_insert p s = Some ?s"
    using B by (simp add: freeblocks_insert_def upd_page_Some)
  have "buddy_rep ?s P (X - {p}) k"
  proof (rule buddy_repI)
    show "distinct (freeblocks ?s o')" for o' using D(4) D(5) p by simp
    show "h \<in> set (freeblocks ?s o') \<longleftrightarrow> P h = Some o' \<and> h \<notin> X - {p}" for o' h
      using D(5) p by auto
  qed (use D in auto)
  moreover have "free_pages ?s = free_pages s + 2 ^ ord"
    by (rule free_pages_insert [OF B(3)]) simp_all
  moreover have "frame (X - {p}) s P ?s P"
    using tiles_unique [OF D(1), of p _ p] covers_head [of P p, OF p(1)] by (auto simp: frame_def)
  ultimately show ?thesis using ins by (intro exI [of _ ?s]) simp
qed

subsection \<open>Splitting and merging\<close>

lemma find_buddy_eq:
  assumes "order (pages s p) = ord" "ord \<le> MAX_ORDER" "2 ^ ord dvd p"
  shows "find_buddy p s = Some (if buddy_of p ord \<ge> npages s then None else Some (buddy_of p ord))"
  using assms by (simp add: find_buddy_def buddy_of_def Let_def dvd_eq_mod_eq_0)

lemma split_block_rep:
  assumes r: "buddy_rep s P X (npages s)" and p: "P p = Some (Suc ord)" "p \<in> X"
  shows "\<exists>s' P'. split_block (Suc ord) p s = Some s' \<and> buddy_rep s' P' X (npages s) \<and> P' p = Some ord \<and>
           frame (X - {p}) s P s' P' \<and> free_pages s' = free_pages s + 2 ^ ord \<and>
           refcnt (pages s' p) = refcnt (pages s p)"
proof -
  note D = buddy_repD [OF r] and B = buddy_rep_bounds [OF r p(1)] and T = tilesD [OF D(1) p(1)]
  let ?q = "p + 2 ^ ord" and ?P = "P(p \<mapsto> ord, p + 2 ^ ord \<mapsto> ord)"
  let ?s1 = "s\<lparr>pages := (pages s)(p := (pages s p)\<lparr>order := ord\<rparr>)\<rparr>"
  let ?s2 = "?s1\<lparr>pages := (pages ?s1)(?q := (pages ?s1 ?q)\<lparr>order := ord\<rparr>)\<rparr>"
  have pos: "(0::nat) < 2 ^ ord" by simp
  have al: "2 ^ ord dvd p" using T(2) by (rule dvd_trans [rotated]) simp
  obtain m where "p = 2 ^ Suc ord * m" using T(2) by (elim dvdE)
  then have "p div 2 ^ ord = 2 * m" by simp
  then have q: "buddy_of p ord = ?q" by (simp add: buddy_of_def)
  have qn: "?q < npages s" using T(3) pos unfolding power_Suc by linarith
  have qX: "P ?q = None" by (rule inner_None [OF D(1) p(1)]) simp_all
  have "find_buddy p ?s1 = Some (Some ?q)"
    using find_buddy_eq [of ?s1 p ord] B(3) al q qn by simp
  then have sp: "split_block (Suc ord) p s = freeblocks_insert ?q ?s2"
    using B(1) qn by (simp add: split_block_def upd_page_Some)
  have r2: "buddy_rep ?s2 ?P (insert ?q X) (npages s)"
  proof (rule buddy_repI)
    show "tiles ?P (npages s)" by (rule tiles_split [OF D(1) p(1)])
    show "h \<in> set (freeblocks ?s2 o') \<longleftrightarrow> ?P h = Some o' \<and> h \<notin> insert ?q X" for o' h
      using D(5) [of h o'] p qX by auto
    show "refcnt (pages ?s2 h) = 0" if "?P h = Some o'" "h \<notin> insert ?q X" for h o'
      using that D(7) [of h] p by (auto split: if_splits)
  qed (use D p qX in \<open>auto split: if_splits\<close>)
  have fr: "frame (X - {p}) s P ?s2 ?P"
  proof -
    have "h = p" if "covers P x h" "x = p \<or> x = ?q" for x h
      using tiles_unique [OF D(1) that(1), of p] that(2) p(1) by (auto simp: covers_def)
    then show ?thesis using qX D(3) by (auto simp: frame_def)
  qed
  obtain s3 where s3: "freeblocks_insert ?q ?s2 = Some s3" "buddy_rep s3 ?P (insert ?q X - {?q}) (npages s)"
    "frame (insert ?q X - {?q}) ?s2 ?P s3 ?P" "free_pages s3 = free_pages ?s2 + 2 ^ ord"
    "\<forall>q. q \<noteq> ?q \<longrightarrow> pages s3 q = pages ?s2 q"
    using freeblocks_insert_rep [OF r2, of ?q ord] by auto
  moreover have "insert ?q X - {?q} = X" using qX D(3) by auto
  moreover have "frame (X - {p}) s P s3 ?P"
    using frame_trans [OF fr frame_mono [OF s3(3)]] \<open>insert ?q X - {?q} = X\<close> by auto
  ultimately show ?thesis using sp pos by (intro exI [of _ s3] exI [of _ ?P]) (simp add: free_pages_def)
qed


lemma find_freeblock_rep:
  assumes "buddy_rep s P X (npages s)" "split \<longrightarrow> 0 < ord"
  shows "\<exists>r s'. find_freeblock ord split s = Some (r, s') \<and>
    (case r of None \<Rightarrow> s' = s \<and> (\<forall>o'\<ge>ord. freeblocks s o' = [])
     | Some p \<Rightarrow> p \<notin> X \<and> (\<exists>P'. buddy_rep s' P' (insert p X) (npages s) \<and> frame X s P s' P' \<and>
         P' p = Some (if split then ord - 1 else ord) \<and> refcnt (pages s' p) = 0 \<and>
         free_pages s' + 2 ^ (if split then ord - 1 else ord) = free_pages s))"
  using assms
proof (induction ord split s rule: find_freeblock.induct)
  case (1 ord split s)
  note D = buddy_repD [OF 1(2)]
  show ?case
  proof (cases "ord > MAX_ORDER")
    case True
    then have "set (freeblocks s o') = {}" if "o' \<ge> ord" for o'
      using D(5) [of _ o'] tilesD(1) [OF D(1), of _ o'] that by force
    with True show ?thesis by (simp add: find_freeblock.simps [of ord])
  next
    case False
    let ?whole = "\<lambda>r s1. case r of None \<Rightarrow> s1 = s \<and> (\<forall>o'\<ge>ord. freeblocks s o' = [])
       | Some p \<Rightarrow> p \<notin> X \<and> (\<exists>P1. buddy_rep s1 P1 (insert p X) (npages s) \<and> frame X s P s1 P1 \<and>
           P1 p = Some ord \<and> refcnt (pages s1 p) = 0 \<and> free_pages s1 + 2 ^ ord = free_pages s)"
    obtain r s1 where s1: "(case freeblocks s ord of
            p # _ \<Rightarrow> do { s \<leftarrow> freeblocks_remove p s; Some (Some p, s) }
          | [] \<Rightarrow> find_freeblock (Suc ord) True s) = Some (r, s1)" "?whole r s1"
    proof (cases "freeblocks s ord")
      case Nil
      from 1(1) [OF False Nil 1(2)] obtain r s1 where "find_freeblock (Suc ord) True s = Some (r, s1)"
        "case r of None \<Rightarrow> s1 = s \<and> (\<forall>o'\<ge>Suc ord. freeblocks s o' = [])
          | Some p \<Rightarrow> p \<notin> X \<and> (\<exists>P1. buddy_rep s1 P1 (insert p X) (npages s) \<and> frame X s P s1 P1 \<and>
              P1 p = Some ord \<and> refcnt (pages s1 p) = 0 \<and> free_pages s1 + 2 ^ ord = free_pages s)"
        by (auto cong: option.case_cong)
      moreover from this Nil have "r = None \<Longrightarrow> \<forall>o'\<ge>ord. freeblocks s o' = []"
        by (auto simp: Suc_le_eq) (metis le_neq_implies_less)
      ultimately show ?thesis using Nil by (intro that [of r s1]) (auto split: option.splits)
    next
      case (Cons p ps)
      then have p: "P p = Some ord" "p \<notin> X" using D(5) [of p ord] by simp_all
      obtain s1 where "freeblocks_remove p s = Some s1" "buddy_rep s1 P (insert p X) (npages s)"
        "frame UNIV s P s1 P" "free_pages s1 + 2 ^ ord = free_pages s"
        using freeblocks_remove_rep [OF 1(2) p] by blast
      moreover from this have "refcnt (pages s1 p) = 0"
        using D(7) [OF p] covers_head [of P p, OF p(1)] unfolding frame_def by (metis UNIV_I)
      ultimately show ?thesis using p Cons frame_mono [of UNIV s P s1 P X]
        by (intro that [of "Some p" s1]) auto
    qed
    show ?thesis
    proof (cases "r = None \<or> \<not> split")
      case True
      with s1 False show ?thesis by (auto simp: find_freeblock.simps [of ord] split: option.splits)
    next
      case sp: False
      then obtain p where p: "r = Some p" "split" by auto
      with s1(2) obtain P1 where P1: "p \<notin> X" "buddy_rep s1 P1 (insert p X) (npages s)" "frame X s P s1 P1"
        "P1 p = Some ord" "refcnt (pages s1 p) = 0" "free_pages s1 + 2 ^ ord = free_pages s" by auto
      obtain n where n: "ord = Suc n" using 1(3) p gr0_implies_Suc by blast
      have np: "npages s1 = npages s" by (rule frame_npages [OF P1(3)])
      obtain s2 P2 where s2: "split_block (Suc n) p s1 = Some s2" "buddy_rep s2 P2 (insert p X) (npages s)"
        "P2 p = Some n" "frame (insert p X - {p}) s1 P1 s2 P2" "free_pages s2 = free_pages s1 + 2 ^ n"
        "refcnt (pages s2 p) = refcnt (pages s1 p)"
        using split_block_rep [of s1 P1 "insert p X" p n] P1 np n by auto
      have "frame X s P s2 P2"
        using frame_trans [OF P1(3)] s2(4) P1(1) by simp
      moreover have "find_freeblock ord split s = Some (Some p, s2)"
        using s1(1) s2(1) p n False by (subst find_freeblock.simps) simp
      ultimately show ?thesis using s2 P1 p n by auto
    qed
  qed
qed

lemma merge_tiles:
  assumes t: "tiles P k" and p: "P p = Some ord" "P (buddy_of p ord) = Some ord" "ord < MAX_ORDER"
  shows "tiles (P(max p (buddy_of p ord) := None, min p (buddy_of p ord) \<mapsto> Suc ord)) k"
proof -
  obtain h where h: "2 ^ Suc ord dvd h"
    "p = h \<and> buddy_of p ord = h + 2 ^ ord \<or> p = h + 2 ^ ord \<and> buddy_of p ord = h"
    using buddy_of_pair [OF tilesD(2) [OF t p(1)]] by blast
  then have "max p (buddy_of p ord) = h + 2 ^ ord" "min p (buddy_of p ord) = h" by auto
  with tiles_merge [OF t _ _ h(1) p(3)] p h(2) show ?thesis by auto
qed

lemma order_Suc: "order pg = ord \<Longrightarrow> order_update Suc pg = pg\<lparr>order := Suc ord\<rparr>"
  by (cases pg) simp

lemma merge_step_rep:
  assumes r: "buddy_rep s P X (npages s)" and p: "P p = Some ord" "p \<in> X" "refcnt (pages s p) = 0"
    and o: "ord < MAX_ORDER" and q: "q = buddy_of p ord" "P q = Some ord" "q \<notin> X"
  shows "\<exists>s1 s2 P2. freeblocks_remove q s = Some s1 \<and> upd_page (min p q) (order_update Suc) s1 = Some s2 \<and>
    buddy_rep s2 P2 (insert (min p q) (X - {p})) (npages s) \<and> P2 (min p q) = Some (Suc ord) \<and>
    min p q \<notin> X - {p} \<and> refcnt (pages s2 (min p q)) = 0 \<and> frame (X - {p}) s P s2 P2 \<and>
    free_pages s2 + 2 ^ ord = free_pages s"
proof -
  obtain s1 where s1: "freeblocks_remove q s = Some s1" "buddy_rep s1 P (insert q X) (npages s)"
    "frame UNIV s P s1 P" "free_pages s1 + 2 ^ ord = free_pages s"
    using freeblocks_remove_rep [OF r q(2,3)] by blast
  note D = buddy_repD [OF s1(2)] and N = frame_npages [OF s1(3)]
  define l u where "l = min p q" and "u = max p q"
  let ?P = "P(u := None, l \<mapsto> Suc ord)"
  let ?s2 = "s1\<lparr>pages := (pages s1)(l := (pages s1 l)\<lparr>order := Suc ord\<rparr>)\<rparr>"
  have pq: "p \<noteq> q" "p < npages s" "q < npages s"
    using p q tilesD(4) [OF D(1)] by auto
  have m: "l = p \<and> u = q \<or> l = q \<and> u = p" using pq(1) by (auto simp: l_def u_def)
  have om: "order (pages s1 l) = ord" using D(6) p(1) q(2) m by auto
  have "l < npages s1" using pq N m by auto
  then have up: "upd_page l (order_update Suc) s1 = Some ?s2"
    by (simp add: upd_page_Some order_Suc om)
  have "buddy_rep ?s2 ?P (insert l (X - {p})) (npages s)"
  proof (rule buddy_repI)
    show "tiles ?P (npages s)" using merge_tiles [OF D(1) p(1)] q o by (simp add: l_def u_def)
    show "h \<in> set (freeblocks ?s2 o') \<longleftrightarrow> ?P h = Some o' \<and> h \<notin> insert l (X - {p})" for o' h
      using D(5) [of h o'] p q(3) m pq(1) by auto
    show "insert l (X - {p}) \<subseteq> dom ?P" using D(3) m q(3) by auto
    show "refcnt (pages ?s2 h) = 0" if "?P h = Some o'" "h \<notin> insert l (X - {p})" for h o'
      using that D(7) [of h o'] m pq(1) by (auto split: if_splits)
    show "order (pages ?s2 h) = o'" if "?P h = Some o'" for h o'
      using that D(6) [of h o'] om by (auto split: if_splits)
  qed (use D N in auto)
  moreover have "refcnt (pages s1 l) = 0"
  proof -
    have "pages s1 p = pages s p" "pages s1 q = pages s q"
      using s1(3) p(1) q(2) covers_head [of P] unfolding frame_def by blast+
    with p(3) buddy_repD(7) [OF r q(2,3)] m show ?thesis by auto
  qed
  moreover have "frame (X - {p}) s1 P ?s2 ?P"
  proof -
    have "h = p \<or> h = q" if "covers P l h" for h
      using tiles_unique [OF D(1) that, of p] tiles_unique [OF D(1) that, of q] m p(1) q(2)
        covers_head [of P p] covers_head [of P q] by auto
    then show ?thesis using q(3) m by (auto simp: frame_def)
  qed
  then have "frame (X - {p}) s P ?s2 ?P"
    by (rule frame_trans [OF frame_mono [OF s1(3) subset_UNIV]])
  moreover have "free_pages ?s2 = free_pages s1" by (simp add: free_pages_def)
  moreover have "l \<notin> X - {p}" using m q(3) by auto
  ultimately show ?thesis unfolding l_def [symmetric] using s1 up by (intro exI [of _ s1] exI [of _ ?s2] exI [of _ ?P]) simp
qed


lemma merge_loop_rep:
  assumes "buddy_rep s P X (npages s)" "p \<in> X" "P p = Some ord" "refcnt (pages s p) = 0"
    "\<forall>h\<in>X - {p}. refcnt (pages s h) \<noteq> 0" "MAX_ORDER < ord + k"
  shows "\<exists>p' s' P' ord'. merge_loop k p s = Some (p', s') \<and> p' \<notin> X - {p} \<and>
    buddy_rep s' P' (insert p' (X - {p})) (npages s) \<and> P' p' = Some ord' \<and>
    frame (X - {p}) s P s' P' \<and> free_pages s' + 2 ^ ord' = free_pages s + 2 ^ ord"
  using assms
proof (induction k arbitrary: p s P X ord)
  case 0
  then show ?case using tilesD(1) [OF buddy_repD(1)] by fastforce
next
  case (Suc k)
  note r = Suc.prems(1) and p = Suc.prems(3,2,4) and others = Suc.prems(5)
  note D = buddy_repD [OF r] and B = buddy_rep_bounds [OF r p(1)] and T = tilesD [OF D(1) p(1)]
  let ?q = "buddy_of p ord"
  have stop: ?case if "merge_loop (Suc k) p s = Some (p, s)"
    using that r p(1) frame_refl insert_absorb [OF p(2)]
    by (intro exI [of _ p] exI [of _ s] exI [of _ P] exI [of _ ord]) auto
  have fb: "find_buddy p s = Some (if ?q \<ge> npages s then None else Some ?q)"
    by (rule find_buddy_eq [OF B(2,3) T(2)])
  show ?case
  proof (cases "ord = MAX_ORDER \<or> ?q \<ge> npages s \<or> refcnt (pages s ?q) \<noteq> 0 \<or> order (pages s ?q) \<noteq> ord")
    case True
    then show ?thesis using fb B p by (intro stop) auto
  next
    case False
    then have F: "ord < MAX_ORDER" "?q < npages s" "refcnt (pages s ?q) = 0" "order (pages s ?q) = ord"
      using B(3) by auto
    then have q: "P ?q = Some ord" using tiles_buddy [OF D(1) p(1)] D(6) by fastforce
    have "?q \<noteq> p" by (rule buddy_of_neq [OF T(2)])
    then have qX: "?q \<notin> X" using others F(3) by auto
    obtain s1 s2 P2 where m: "freeblocks_remove ?q s = Some s1"
      "upd_page (min p ?q) (order_update Suc) s1 = Some s2"
      "buddy_rep s2 P2 (insert (min p ?q) (X - {p})) (npages s)" "P2 (min p ?q) = Some (Suc ord)"
      "min p ?q \<notin> X - {p}" "refcnt (pages s2 (min p ?q)) = 0" "frame (X - {p}) s P s2 P2"
      "free_pages s2 + 2 ^ ord = free_pages s"
      using merge_step_rep [OF r p F(1) refl q qX] by blast
    have X: "insert (min p ?q) (X - {p}) - {min p ?q} = X - {p}" using m(5) by auto
    have "\<forall>h\<in>X - {p}. refcnt (pages s2 h) \<noteq> 0"
    proof
      fix h assume h: "h \<in> X - {p}"
      then have "covers P h h" using D(3) by (auto simp: covers_def)
      with m(7) h have "pages s2 h = pages s h" by (auto simp: frame_def)
      with others h show "refcnt (pages s2 h) \<noteq> 0" by simp
    qed
    then obtain p' s' P' ord' where IH: "merge_loop k (min p ?q) s2 = Some (p', s')" "p' \<notin> X - {p}"
      "buddy_rep s' P' (insert p' (X - {p})) (npages s2)" "P' p' = Some ord'" "frame (X - {p}) s2 P2 s' P'"
      "free_pages s' + 2 ^ ord' = free_pages s2 + 2 ^ Suc ord"
      using Suc.IH [of s2 P2 "insert (min p ?q) (X - {p})" "min p ?q" "Suc ord"] m X
        Suc.prems(6) frame_npages [OF m(7)] by auto
    have "merge_loop (Suc k) p s = merge_loop k (min p ?q) s2"
      using fb F B p m(1,2) \<open>?q \<noteq> p\<close> by (cases "p < ?q") (auto simp: min_def)
    with IH m frame_trans [OF m(7) IH(5)] frame_npages [OF m(7)] show ?thesis
      by (intro exI [of _ p'] exI [of _ s'] exI [of _ P'] exI [of _ ord']) auto
  qed
qed


subsection \<open>Allocation and release\<close>

definition block :: "pmem \<Rightarrow> nat \<Rightarrow> nat set" where
  "block s h = {h..<h + 2 ^ order (pages s h)}"

text \<open>\<open>A\<close> are the first pages of the allocated blocks. Page 0 is always among them.\<close>

definition pmem_inv :: "pmem \<Rightarrow> nat set \<Rightarrow> bool" where
  "pmem_inv s A \<longleftrightarrow> pagemap_initialized s \<and> 0 \<in> A \<and> (\<forall>h\<in>A. 0 < refcnt (pages s h)) \<and>
     (\<exists>P. buddy_rep s P A (npages s))"

lemma buddy_rep_upd:
  assumes "buddy_rep s P X k" "p \<in> X" "order pg = order (pages s p)"
  shows "buddy_rep (s\<lparr>pages := (pages s)(p := pg)\<rparr>) P X k"
  using buddy_repD [OF assms(1)] assms(2,3) by (intro buddy_repI) auto

lemma rep_block: "buddy_rep s P X k \<Longrightarrow> P h = Some ord \<Longrightarrow> x \<in> block s h \<longleftrightarrow> covers P x h"
  using buddy_repD(6) [of s P X k h ord] by (auto simp: block_def covers_def)

lemma pmem_inv_disjoint:
  assumes "pmem_inv s A" "h \<in> A" "h' \<in> A" "h \<noteq> h'"
  shows "block s h \<inter> block s h' = {}"
proof -
  obtain P where P: "buddy_rep s P A (npages s)" using assms(1) by (auto simp: pmem_inv_def)
  then obtain o1 o2 where "P h = Some o1" "P h' = Some o2" using buddy_repD(3) assms by blast
  then show ?thesis
    using tiles_unique [OF buddy_repD(1) [OF P]] rep_block [OF P] assms(4) by blast
qed

lemma pmem_inv_bound:
  assumes "pmem_inv s A" "h \<in> A"
  shows "h + 2 ^ order (pages s h) \<le> npages s"
proof -
  obtain P where P: "buddy_rep s P A (npages s)" using assms(1) by (auto simp: pmem_inv_def)
  then obtain ord where ord: "P h = Some ord" using buddy_repD(3) assms(2) by blast
  then show ?thesis using tilesD(3) [OF buddy_repD(1) [OF P] ord] buddy_repD(6) [OF P ord] by simp
qed

lemma get_min_page_order_correct:
  assumes "0 < n" "n \<le> 2 ^ MAX_ORDER"
  shows "\<exists>ord. get_min_page_order n = Some ord \<and> ord \<le> MAX_ORDER \<and> n \<le> 2 ^ ord \<and> 2 ^ ord < 2 * n \<and>
           (\<forall>o'. n \<le> 2 ^ o' \<longrightarrow> ord \<le> o')"
proof -
  have "\<exists>r. min_order_loop k ord n = Some r \<and> ord \<le> r \<and> r \<le> MAX_ORDER \<and> n \<le> 2 ^ r \<and> (\<forall>o'<r. 2 ^ o' < n)"
    if "ord + k = Suc MAX_ORDER" "\<forall>o'<ord. 2 ^ o' < n" "k > 0" for k ord
    using that
  proof (induction k arbitrary: ord)
    case (Suc k)
    show ?case
    proof (cases "n \<le> 2 ^ ord")
      case False
      then have "k > 0" using Suc.prems(1) assms(2) by (cases k) auto
      moreover have "\<forall>o'<Suc ord. 2 ^ o' < n" using Suc.prems(2) False by (auto simp: less_Suc_eq)
      ultimately show ?thesis using Suc.IH [of "Suc ord"] Suc.prems(1) False by auto
    qed (use Suc.prems in auto)
  qed simp
  from this [of 0 "Suc MAX_ORDER"] obtain r where
    r: "get_min_page_order n = Some r" "r \<le> MAX_ORDER" "n \<le> 2 ^ r" "\<forall>o'<r. 2 ^ o' < n"
    by (auto simp: get_min_page_order_def)
  moreover have "2 ^ r < 2 * n" using r(4) assms(1) by (cases r) auto
  ultimately show ?thesis by (metis not_le)
qed

lemma pmem_nalloc_ok:
  assumes inv: "pmem_inv s A" and n: "0 < n" "n \<le> 2 ^ MAX_ORDER"
  shows "pmem_nalloc n s = Some ((ERR_NOMEM, 0), s) \<and> (\<forall>ord. n \<le> 2 ^ ord \<longrightarrow> freeblocks s ord = []) \<or>
    (\<exists>p s'. pmem_nalloc n s = Some ((ERR_OK, p * pg_size), s') \<and> p \<notin> A \<and> pmem_inv s' (insert p A) \<and>
       n \<le> 2 ^ order (pages s' p) \<and> 2 ^ order (pages s' p) < 2 * n \<and> npages s' = npages s \<and>
       refcnt (pages s' p) = 1 \<and>
       (\<forall>h\<in>A. \<forall>x\<in>block s h. pages s' x = pages s x) \<and>
       free_pages s' + 2 ^ order (pages s' p) = free_pages s)"
proof -
  obtain P where P: "buddy_rep s P A (npages s)" using inv by (auto simp: pmem_inv_def)
  obtain ord where ord: "get_min_page_order n = Some ord" "n \<le> 2 ^ ord" "2 ^ ord < 2 * n"
    "\<forall>o'. n \<le> 2 ^ o' \<longrightarrow> ord \<le> o'" using get_min_page_order_correct [OF n] by auto
  obtain r s1 where f: "find_freeblock ord False s = Some (r, s1)"
    "case r of None \<Rightarrow> s1 = s \<and> (\<forall>o'\<ge>ord. freeblocks s o' = [])
     | Some p \<Rightarrow> p \<notin> A \<and> (\<exists>P'. buddy_rep s1 P' (insert p A) (npages s) \<and> frame A s P s1 P' \<and>
         P' p = Some ord \<and> refcnt (pages s1 p) = 0 \<and> free_pages s1 + 2 ^ ord = free_pages s)"
    using find_freeblock_rep [OF P, of False ord] by (auto cong: option.case_cong)
  show ?thesis
  proof (cases r)
    case None
    then show ?thesis using f ord n inv by (auto simp: pmem_nalloc_def pmem_inv_def)
  next
    case (Some p)
    then obtain P' where P': "p \<notin> A" "buddy_rep s1 P' (insert p A) (npages s)" "frame A s P s1 P'"
      "P' p = Some ord" "refcnt (pages s1 p) = 0" "free_pages s1 + 2 ^ ord = free_pages s"
      using f(2) by auto
    note B = buddy_rep_bounds [OF P'(2,4)]
    have p0: "p \<noteq> 0" using P'(1) inv unfolding pmem_inv_def by metis
    have same: "pages s1 x = pages s x" if "h \<in> A" "x \<in> block s h" for x h
      using P'(3) that rep_block [OF P] buddy_repD(3) [OF P] unfolding frame_def by blast
    have self: "h \<in> block s h" for h by (simp add: block_def)
    have pb: "p \<notin> block s h" if "h \<in> A" for h
    proof
      assume "p \<in> block s h"
      then have "covers P p h" using rep_block [OF P] buddy_repD(3) [OF P] that by blast
      then have "covers P' p h" using P'(3) that by (simp add: frame_def covers_def)
      then show False using tiles_unique [OF buddy_repD(1) [OF P'(2)], of p h p] P'(1,4) that
        by (auto simp: covers_def)
    qed
    have ini: "pagemap_initialized s1"
      using P'(3) inv unfolding frame_def pmem_inv_def by (cases s; cases s1) simp
    let ?pg = "(pages s1 p)\<lparr>kmem_cache := None, slab := None, rmap := None,
                  pg_state := set_state_bit (pg_state (pages s1 p)) 0 False, refcnt := 1, blk_headers := []\<rparr>"
    let ?s = "s1\<lparr>pages := (pages s1)(p := ?pg)\<rparr>"
    have "pmem_nalloc n s = Some ((ERR_OK, p * pg_size), ?s)"
      using n inv ord f(1) Some B(1) P'(5) p0
      by (simp add: pmem_nalloc_def pmem_inv_def upd_page_Some pmem_set_page_dirty_def page_to_paddr_def)
    moreover have "buddy_rep ?s P' (insert p A) (npages s)"
      by (rule buddy_rep_upd [OF P'(2)]) simp_all
    then have "pmem_inv ?s (insert p A)"
      using inv ini same self frame_npages [OF P'(3)] unfolding pmem_inv_def by (auto intro: exI [of _ P'])
    moreover have "order (pages ?s p) = ord" "npages ?s = npages s" "free_pages ?s = free_pages s1"
      using B frame_npages [OF P'(3)] by (simp_all add: free_pages_def)
    moreover have "\<forall>h\<in>A. \<forall>x\<in>block s h. pages ?s x = pages s x" using same pb by auto
    ultimately show ?thesis using ord P'(1,6)
      by (intro disjI2 exI [of _ p] exI [of _ ?s]) simp
  qed
qed


lemma pmem_nfree_ok:
  assumes inv: "pmem_inv s A" and h: "h \<in> A" "h \<noteq> 0" "paddr div pg_size = h" and n: "0 < n"
  shows "\<exists>s'. pmem_nfree paddr n s = Some s' \<and> pmem_inv s' (A - {h}) \<and> npages s' = npages s \<and>
    (\<forall>g\<in>A - {h}. \<forall>x\<in>block s g. pages s' x = pages s x) \<and>
    free_pages s' = free_pages s + 2 ^ order (pages s h)"
proof -
  obtain P where P: "buddy_rep s P A (npages s)" using inv by (auto simp: pmem_inv_def)
  then obtain ord where ord: "P h = Some ord" using buddy_repD(3) h(1) by blast
  note B = buddy_rep_bounds [OF P ord]
  let ?s = "s\<lparr>pages := (pages s)(h := (pages s h)\<lparr>refcnt := 0\<rparr>)\<rparr>"
  have R: "buddy_rep ?s P A (npages ?s)" using buddy_rep_upd [OF P h(1)] by simp
  have F0: "frame (A - {h}) s P ?s P"
    using tiles_unique [OF buddy_repD(1) [OF P], of h _ h] covers_head [of P h, OF ord]
    by (auto simp: frame_def)
  have "\<forall>g\<in>A - {h}. refcnt (pages ?s g) \<noteq> 0" using inv by (auto simp: pmem_inv_def)
  then obtain p s1 P1 ord1 where m: "merge_loop (Suc MAX_ORDER) h ?s = Some (p, s1)" "p \<notin> A - {h}"
    "buddy_rep s1 P1 (insert p (A - {h})) (npages s)" "P1 p = Some ord1" "frame (A - {h}) ?s P s1 P1"
    "free_pages s1 + 2 ^ ord1 = free_pages ?s + 2 ^ ord"
    using merge_loop_rep [OF R h(1) ord, of "Suc MAX_ORDER"] by auto
  obtain s2 where i: "freeblocks_insert p s1 = Some s2"
    "buddy_rep s2 P1 (insert p (A - {h}) - {p}) (npages s)" "frame (insert p (A - {h}) - {p}) s1 P1 s2 P1"
    "free_pages s2 = free_pages s1 + 2 ^ ord1"
    using freeblocks_insert_rep [OF m(3,4)] by auto
  have A: "insert p (A - {h}) - {p} = A - {h}" using m(2) by auto
  have F: "frame (A - {h}) s P s2 P1"
    using frame_trans [OF F0 frame_trans [OF m(5) i(3) [unfolded A]]] .
  then have same: "\<forall>g\<in>A - {h}. \<forall>x\<in>block s g. pages s2 x = pages s x"
    using rep_block [OF P] buddy_repD(3) [OF P] unfolding frame_def by blast
  have "pmem_nfree paddr n s = Some s2"
    using inv h n B(1) m(1) i(1)
    by (simp add: pmem_nfree_def pmem_inv_def upd_page_Some paddr_to_page_def merge_block_def)
  moreover have "pagemap_initialized s2"
    using F inv unfolding frame_def pmem_inv_def by (cases s; cases s2) simp
  moreover have "g \<in> block s g" for g by (simp add: block_def)
  ultimately show ?thesis
    using inv h(2) i A same frame_npages [OF F] m(6) B(2)
    by (intro exI [of _ s2]) (auto simp: pmem_inv_def free_pages_def)
qed

lemma block_cong: "pages s' h = pages s h \<Longrightarrow> block s' h = block s h"
  by (simp add: block_def)

text \<open>The live blocks of the clients of the page allocator: \<open>A\<close>, apart from the reserved pages \<open>R\<close>.\<close>

definition page_clients :: "pmem \<Rightarrow> nat set \<Rightarrow> bool" where
  "page_clients s A \<longleftrightarrow> (\<exists>R. 0 \<in> R \<and> R \<inter> A = {} \<and> pmem_inv s (R \<union> A))"

definition page_alloc :: "nat \<Rightarrow> pmem \<Rightarrow> (nat option \<times> pmem) option" where
  "page_alloc n s =
     do { ((err, paddr), s) \<leftarrow> pmem_nalloc n s;
          Some (if err = ERR_OK then Some (paddr_to_page paddr) else None, s) }"

definition page_free :: "nat \<Rightarrow> pmem \<Rightarrow> pmem option" where
  "page_free p s = pmem_nfree (page_to_paddr p) (2 ^ order (pages s p)) s"

lemma self_block: "h \<in> block s h"
  by (simp add: block_def)

lemma page_alloc_ok:
  assumes "page_clients s A" "0 < n \<and> n \<le> 1024"
  shows "\<exists>x s'. page_alloc n s = Some (x, s') \<and>
      (case x of None \<Rightarrow> page_clients s' A | Some a \<Rightarrow> a \<notin> A \<and> page_clients s' (insert a A)) \<and>
      (\<forall>b\<in>A. block s' b = block s b)"
proof -
  obtain R where R: "0 \<in> R" "R \<inter> A = {}" "pmem_inv s (R \<union> A)"
    using assms(1) by (auto simp: page_clients_def)
  have n: "0 < n" "n \<le> 2 ^ MAX_ORDER" using assms(2) by simp_all
  from pmem_nalloc_ok [OF R(3) n] consider
    "pmem_nalloc n s = Some ((ERR_NOMEM, 0), s)"
  | p s' where "pmem_nalloc n s = Some ((ERR_OK, p * pg_size), s')" "p \<notin> R \<union> A"
      "pmem_inv s' (insert p (R \<union> A))" "\<forall>h\<in>R \<union> A. \<forall>x\<in>block s h. pages s' x = pages s x"
    by blast
  then show ?thesis
  proof cases
    case 1
    then show ?thesis using assms(1) by (auto simp: page_alloc_def)
  next
    case 2
    have "page_clients s' (insert p A)"
      using R 2(2,3) unfolding page_clients_def by (intro exI [of _ R]) auto
    moreover have "\<forall>b\<in>A. block s' b = block s b" using 2(4) block_cong self_block by blast
    moreover have "page_alloc n s = Some (Some p, s')"
      using 2(1) by (simp add: page_alloc_def paddr_to_page_def)
    ultimately show ?thesis using 2(2) by auto
  qed
qed

lemma page_free_ok:
  assumes "page_clients s A" "a \<in> A"
  shows "\<exists>s'. page_free a s = Some s' \<and> page_clients s' (A - {a}) \<and> (\<forall>b\<in>A - {a}. block s' b = block s b)"
proof -
  obtain R where R: "0 \<in> R" "R \<inter> A = {}" "pmem_inv s (R \<union> A)"
    using assms(1) by (auto simp: page_clients_def)
  have a: "a \<in> R \<union> A" "a \<noteq> 0" using assms R by auto
  obtain s' where s': "page_free a s = Some s'" "pmem_inv s' (R \<union> A - {a})"
    "\<forall>g\<in>R \<union> A - {a}. \<forall>x\<in>block s g. pages s' x = pages s x"
    using pmem_nfree_ok [OF R(3) a, of "page_to_paddr a" "2 ^ order (pages s a)"]
    by (auto simp: page_free_def page_to_paddr_def)
  have "R \<union> A - {a} = R \<union> (A - {a})" using assms R by auto
  then have "page_clients s' (A - {a})"
    using R s'(2) unfolding page_clients_def by (intro exI [of _ R]) auto
  moreover have "\<forall>b\<in>A - {a}. block s' b = block s b"
    using s'(3) self_block block_cong by blast
  ultimately show ?thesis using s'(1) by blast
qed

interpretation pmem: allocator page_clients page_alloc page_free block "\<lambda>n. 0 < n \<and> n \<le> 1024"
proof
  show "block s a \<inter> block s b = {}" if "page_clients s A" "a \<in> A" "b \<in> A" "a \<noteq> b" for s A a b
    using that pmem_inv_disjoint unfolding page_clients_def by (metis UnI2)
qed (use page_alloc_ok page_free_ok in blast)+

end
