(* ===== verification/Kmalloc.thy ===== *)
theory Kmalloc
  imports Pmem_Inv
begin

section \<open>Kernel memory (kernel/mm/kmalloc.c)\<close>

text \<open>
  The slab allocator on top of the page allocator. Addresses in the kernel map are given as physical
  addresses: \<^verbatim>\<open>kmap_p2v\<close> and \<^verbatim>\<open>kmap_v2p\<close> add and subtract a constant. Slab headers, free index arrays and
  object allocators are typed stores, indexed by the address of the structure; \<open>kmem\<close> holds the bytes of
  the objects. The free and full lists of an allocator are lists of slab addresses. Every operation on an
  allocator runs under its lock.
\<close>

record slab =
  objs :: nat
  slab_free :: int
  n_pages :: nat

record kmem_cache =
  cache_full :: "addr list"
  cache_free :: "addr list"
  obj_size :: nat

record kmalloc_state =
  pm :: pmem
  slabs :: "addr \<Rightarrow> slab"
  freearr :: "addr \<Rightarrow> int list"
  caches :: "addr \<Rightarrow> kmem_cache"
  kmalloc_allocators :: "(addr \<times> nat) list"
  kmem :: mem

text \<open>The szs of \<^verbatim>\<open>struct slab\<close>, \<^verbatim>\<open>int\<close> and \<^verbatim>\<open>struct kmem_cache\<close>, and the static object allocator
  for object allocators, which lies in the kernel image, below all allocatable pages.\<close>

abbreviation (input) sizeof_slab :: nat where "sizeof_slab \<equiv> 40"
abbreviation (input) sizeof_int :: nat where "sizeof_int \<equiv> 4"
abbreviation (input) sizeof_kmem_cache :: nat where "sizeof_kmem_cache \<equiv> 72"
abbreviation (input) MIN_OBJS_PER_SLAB :: nat where "MIN_OBJS_PER_SLAB \<equiv> 128"
abbreviation (input) allocator_cache :: addr where "allocator_cache \<equiv> 0"

subsection \<open>Slabs\<close>

fun link_pages :: "addr \<Rightarrow> addr \<Rightarrow> nat \<Rightarrow> nat \<Rightarrow> pmem \<Rightarrow> pmem option" where
  "link_pages k sl paddr 0 s = Some s"
| "link_pages k sl paddr (Suc n) s =
     do { s \<leftarrow> upd_page (paddr_to_page paddr) (\<lambda>pg. pg\<lparr>kmem_cache := Some k, slab := Some sl\<rparr>) s;
          link_pages k sl (paddr + pg_size) n s }"

definition slab_n_pages :: "nat \<Rightarrow> nat" where
  "slab_n_pages sz = pg_round_up (sizeof_slab + (sz + sizeof_int) * MIN_OBJS_PER_SLAB) div pg_size"

definition slab_n_objs :: "nat \<Rightarrow> nat" where
  "slab_n_objs sz = (slab_n_pages sz * pg_size - sizeof_slab) div (sz + sizeof_int)"

definition slab_create :: "addr \<Rightarrow> kmalloc_state \<Rightarrow> (addr option \<times> kmalloc_state) option" where
  "slab_create k s =
     do { let sz = obj_size (caches s k);
          kassert (sz > 0);
          let npgs = slab_n_pages sz;
          ((err, paddr), p) \<leftarrow> pmem_nalloc npgs (pm s);
          let s = s\<lparr>pm := p\<rparr>;
          if err \<noteq> ERR_OK then Some (None, s)
          else do {
            let n_objs = slab_n_objs sz;
            kassert (n_objs \<ge> MIN_OBJS_PER_SLAB);
            let sl = paddr;
            let s = s\<lparr>slabs := (slabs s)(sl := \<lparr>objs = sl + sizeof_slab + sizeof_int * n_objs,
                                               slab_free = 0, n_pages = npgs\<rparr>)\<rparr>;
            p \<leftarrow> link_pages k sl paddr npgs (pm s);
            let s = s\<lparr>pm := p, freearr := (freearr s)(sl := map (\<lambda>i. int i + 1) [0..<n_objs - 1] @ [-1]),
                      caches := (caches s)(k := (caches s k)\<lparr>cache_free := cache_free (caches s k) @ [sl]\<rparr>)\<rparr>;
            Some (Some sl, s) } }"

definition slab_destroy :: "addr \<Rightarrow> kmalloc_state \<Rightarrow> kmalloc_state option" where
  "slab_destroy sl s = do { p \<leftarrow> pmem_nfree sl (n_pages (slabs s sl)) (pm s); Some (s\<lparr>pm := p\<rparr>) }"

fun slab_list_destroy :: "addr list \<Rightarrow> kmalloc_state \<Rightarrow> kmalloc_state option" where
  "slab_list_destroy [] s = Some s"
| "slab_list_destroy (sl # sls) s = do { s \<leftarrow> slab_destroy sl s; slab_list_destroy sls s }"

subsection \<open>Object allocators\<close>

text \<open>Taking the next free slot of a slab, and giving a slot back.\<close>

definition take_slot :: "addr \<Rightarrow> addr \<Rightarrow> kmalloc_state \<Rightarrow> (addr \<times> kmalloc_state) option" where
  "take_slot k sl s =
     do { let i = slab_free (slabs s sl);
          kassert (i \<noteq> -1);
          let obj = objs (slabs s sl) + obj_size (caches s k) * nat i;
          kassert (0 \<le> i \<and> nat i < length (freearr s sl));
          let i' = freearr s sl ! nat i;
          let s = s\<lparr>slabs := (slabs s)(sl := (slabs s sl)\<lparr>slab_free := i'\<rparr>)\<rparr>;
          Some (obj, if i' = -1
            then s\<lparr>caches := (caches s)(k := (caches s k)\<lparr>cache_free := remove1 sl (cache_free (caches s k)),
                                                           cache_full := cache_full (caches s k) @ [sl]\<rparr>)\<rparr>
            else s) }"

definition kmem_cache_alloc :: "addr \<Rightarrow> kmalloc_state \<Rightarrow> (addr option \<times> kmalloc_state) option" where
  "kmem_cache_alloc k s =
     do { (r, s) \<leftarrow> (case cache_free (caches s k) of [] \<Rightarrow> slab_create k s | sl # _ \<Rightarrow> Some (Some sl, s));
          case r of
              None \<Rightarrow> Some (None, s)
            | Some sl \<Rightarrow>
                do { (obj, s) \<leftarrow> take_slot k sl s;
                     Some (Some obj, s\<lparr>kmem := memset (kmem s) obj 0x2b (obj_size (caches s k))\<rparr>) } }"

definition kmem_cache_free :: "addr \<Rightarrow> addr \<Rightarrow> kmalloc_state \<Rightarrow> kmalloc_state option" where
  "kmem_cache_free k obj s =
     do { let s = s\<lparr>kmem := memset (kmem s) obj 0x2b (obj_size (caches s k))\<rparr>;
          kassert (paddr_to_page obj < npages (pm s));
          sl \<leftarrow> slab (pages (pm s) (paddr_to_page obj));
          let full = (slab_free (slabs s sl) = -1);
          kassert (objs (slabs s sl) \<le> obj \<and> 0 < obj_size (caches s k));
          let index = (obj - objs (slabs s sl)) div obj_size (caches s k);
          kassert (index < length (freearr s sl));
          let s = s\<lparr>freearr := (freearr s)(sl := (freearr s sl)[index := slab_free (slabs s sl)]),
                    slabs := (slabs s)(sl := (slabs s sl)\<lparr>slab_free := int index\<rparr>)\<rparr>;
          Some (if full
            then s\<lparr>caches := (caches s)(k := (caches s k)\<lparr>cache_full := remove1 sl (cache_full (caches s k)),
                                                           cache_free := cache_free (caches s k) @ [sl]\<rparr>)\<rparr>
            else s) }"

definition kmem_cache_create :: "nat \<Rightarrow> kmalloc_state \<Rightarrow> (addr option \<times> kmalloc_state) option" where
  "kmem_cache_create sz s =
     do { (r, s) \<leftarrow> kmem_cache_alloc allocator_cache s;
          Some (case r of
              None \<Rightarrow> (None, s)
            | Some k \<Rightarrow> (Some k, s\<lparr>caches := (caches s)(k := \<lparr>cache_full = [], cache_free = [],
                                                                obj_size = sz\<rparr>)\<rparr>)) }"

definition kmem_cache_destroy :: "addr \<Rightarrow> kmalloc_state \<Rightarrow> kmalloc_state option" where
  "kmem_cache_destroy k s =
     do { s \<leftarrow> slab_list_destroy (cache_free (caches s k)) s;
          s \<leftarrow> slab_list_destroy (cache_full (caches s k)) s;
          kmem_cache_free allocator_cache k s }"

subsection \<open>Memory of any size\<close>

fun create_allocators :: "nat list \<Rightarrow> kmalloc_state \<Rightarrow> kmalloc_state option" where
  "create_allocators [] s = Some s"
| "create_allocators (sz # szs) s =
     do { (r, s) \<leftarrow> kmem_cache_create sz s;
          k \<leftarrow> r;
          create_allocators szs (s\<lparr>kmalloc_allocators := kmalloc_allocators s @ [(k, sz)]\<rparr>) }"

definition kmalloc_init :: "kmalloc_state \<Rightarrow> kmalloc_state option" where
  "kmalloc_init s =
     create_allocators [32, 64, 128, 256, 512, 1024, 2048, 4096]
       (s\<lparr>caches := (caches s)(allocator_cache := \<lparr>cache_full = [], cache_free = [],
                                                     obj_size = sizeof_kmem_cache\<rparr>),
          kmalloc_allocators := []\<rparr>)"

fun find_allocator :: "nat \<Rightarrow> (addr \<times> nat) list \<Rightarrow> addr option" where
  "find_allocator sz [] = None"
| "find_allocator sz ((k, sz') # as) = (if sz' \<ge> sz then Some k else find_allocator sz as)"

definition kmalloc :: "nat \<Rightarrow> kmalloc_state \<Rightarrow> (addr option \<times> kmalloc_state) option" where
  "kmalloc sz s =
     (if sz = 0 then Some (None, s)
      else do {
        kassert (kmalloc_allocators s \<noteq> []);
        if sz > snd (last (kmalloc_allocators s)) then Some (None, s)
        else do { k \<leftarrow> find_allocator sz (kmalloc_allocators s); kmem_cache_alloc k s } })"

definition kfree :: "addr \<Rightarrow> kmalloc_state \<Rightarrow> kmalloc_state option" where
  "kfree ptr s =
     do { kassert (paddr_to_page ptr < npages (pm s));
          k \<leftarrow> kmem_cache (pages (pm s) (paddr_to_page ptr));
          kmem_cache_free k ptr s }"

end
