(* ===== verification/Vpmap.thy ===== *)
theory Vpmap
  imports Kmalloc
begin

section \<open>Page tables (arch/x86_64/kernel/mm/vpmap.c)\<close>

text \<open>
  The four-level page tables of x86-64. A page table is named by its physical address; its 512 entries
  are machine words, kept in a typed store apart from the bytes of the other pages. Virtual addresses and
  entries are 64-bit words, physical addresses are natural numbers where the page allocator uses them.
  The pages come from the model of the page allocator, the \<^verbatim>\<open>vpmap\<close> structures from the slab allocator.
\<close>

abbreviation (input) ERR_VPMAP_NOTPRESENT :: err_t where "ERR_VPMAP_NOTPRESENT \<equiv> 1"
abbreviation (input) ERR_VPMAP_MAP :: err_t where "ERR_VPMAP_MAP \<equiv> 2"

abbreviation (input) PTE_P :: u64 where "PTE_P \<equiv> 1"
abbreviation (input) PTE_W :: u64 where "PTE_W \<equiv> 2"
abbreviation (input) PTE_U :: u64 where "PTE_U \<equiv> 4"
abbreviation (input) PTE_A :: u64 where "PTE_A \<equiv> 0x20"
abbreviation (input) PTE_D :: u64 where "PTE_D \<equiv> 0x40"
abbreviation (input) KMAP_BASE :: u64 where "KMAP_BASE \<equiv> 0xFFFFFFFF80000000"
abbreviation (input) EXTMEM_BASE :: u64 where "EXTMEM_BASE \<equiv> 0x100000"
abbreviation (input) DEVMEM_BASE_V :: u64 where "DEVMEM_BASE_V \<equiv> 0xFFFFFFFFFE000000"
abbreviation (input) USTACK_UPPERBOUND :: u64 where "USTACK_UPPERBOUND \<equiv> 0xFFFFFF7FFFFFF000"
abbreviation (input) PHYS_ADDR_MASK :: u64 where "PHYS_ADDR_MASK \<equiv> NOT 0xFFF8000000000000"

definition vpg_round_down :: "u64 \<Rightarrow> u64" where
  "vpg_round_down a = a AND NOT 0xFFF"

definition vpg_round_up :: "u64 \<Rightarrow> u64" where
  "vpg_round_up a = (a + 0x1000 - 1) AND NOT 0xFFF"

definition vpg_aligned :: "u64 \<Rightarrow> bool" where
  "vpg_aligned a \<longleftrightarrow> a AND 0xFFF = 0"

definition VPN :: "u64 \<Rightarrow> u64" where
  "VPN v = v AND NOT 0xFFF"

definition PPN :: "u64 \<Rightarrow> u64" where
  "PPN p = p AND NOT 0xFFF AND PHYS_ADDR_MASK"

definition ENTRY_IDX :: "u64 \<Rightarrow> nat \<Rightarrow> nat" where
  "ENTRY_IDX v sh = unat (drop_bit sh v AND 0x1FF)"

definition PTX :: "u64 \<Rightarrow> nat" where "PTX v = ENTRY_IDX v 12"
definition PDX :: "u64 \<Rightarrow> nat" where "PDX v = ENTRY_IDX v 21"
definition PDPTX :: "u64 \<Rightarrow> nat" where "PDPTX v = ENTRY_IDX v 30"
definition PML4X :: "u64 \<Rightarrow> nat" where "PML4X v = ENTRY_IDX v 39"

definition ENTRY_ADDR :: "u64 \<Rightarrow> nat" where
  "ENTRY_ADDR e = unat (e AND NOT 0xFFF AND PHYS_ADDR_MASK)"

definition PTE_FLAGS :: "u64 \<Rightarrow> u64" where
  "PTE_FLAGS e = e AND 0xFFF"

datatype memperm = MEMPERM_R | MEMPERM_RW | MEMPERM_UR | MEMPERM_URW

record vpst =
  km :: kmalloc_state
  pt :: "nat \<Rightarrow> nat \<Rightarrow> u64"
  vpmaps :: "addr \<Rightarrow> nat option"
  vpmap_allocator :: "addr option"
  kvpmap :: addr
  cr3 :: nat

definition pt_set :: "nat \<times> nat \<Rightarrow> u64 \<Rightarrow> vpst \<Rightarrow> vpst" where
  "pt_set loc e s = s\<lparr>pt := (pt s)(fst loc := (pt s (fst loc))(snd loc := e))\<rparr>"

definition pt_get :: "nat \<times> nat \<Rightarrow> vpst \<Rightarrow> u64" where
  "pt_get loc s = pt s (fst loc) (snd loc)"

definition present :: "u64 \<Rightarrow> bool" where
  "present e \<longleftrightarrow> e AND PTE_P \<noteq> 0"

definition palloc :: "vpst \<Rightarrow> ((err_t \<times> nat) \<times> vpst) option" where
  "palloc s = do { (r, p) \<leftarrow> pmem_alloc (pm (km s)); Some (r, s\<lparr>km := (km s)\<lparr>pm := p\<rparr>\<rparr>) }"

definition pfree :: "nat \<Rightarrow> vpst \<Rightarrow> vpst option" where
  "pfree a s = do { p \<leftarrow> pmem_free a (pm (km s)); Some (s\<lparr>km := (km s)\<lparr>pm := p\<rparr>\<rparr>) }"

definition pdec :: "nat \<Rightarrow> vpst \<Rightarrow> vpst option" where
  "pdec a s = do { p \<leftarrow> pmem_dec_refcnt a (pm (km s)); Some (s\<lparr>km := (km s)\<lparr>pm := p\<rparr>\<rparr>) }"

subsection \<open>Walking the tables\<close>

text \<open>One level of \<^verbatim>\<open>find_pte\<close>: the table that an entry of table \<open>t\<close> points to, which is allocated
  and cleared if it is missing and \<open>alloc\<close> is set.\<close>

definition next_table :: "bool \<Rightarrow> nat \<Rightarrow> nat \<Rightarrow> vpst \<Rightarrow> (nat option \<times> vpst) option" where
  "next_table alloc t i s =
     (if present (pt s t i) then Some (Some (ENTRY_ADDR (pt s t i)), s)
      else if \<not> alloc then Some (None, s)
      else do {
        ((err, paddr), s) \<leftarrow> palloc s;
        if err \<noteq> ERR_OK then Some (None, s)
        else do {
          let s = s\<lparr>pt := (pt s)(paddr := (\<lambda>_. 0))\<rparr>;
          let s = pt_set (t, i) (of_nat paddr OR PTE_P OR PTE_W OR PTE_U) s;
          Some (Some (ENTRY_ADDR (pt s t i)), s) } })"

definition find_pte :: "nat \<Rightarrow> u64 \<Rightarrow> bool \<Rightarrow> vpst \<Rightarrow> ((nat \<times> nat) option \<times> vpst) option" where
  "find_pte pml4 vaddr alloc s =
     do { (pdpt, s) \<leftarrow> next_table alloc pml4 (PML4X vaddr) s;
          case pdpt of None \<Rightarrow> Some (None, s) | Some pdpt \<Rightarrow> do {
          (pgdir, s) \<leftarrow> next_table alloc pdpt (PDPTX vaddr) s;
          case pgdir of None \<Rightarrow> Some (None, s) | Some pgdir \<Rightarrow> do {
          (pgtab, s) \<leftarrow> next_table alloc pgdir (PDX vaddr) s;
          case pgtab of None \<Rightarrow> Some (None, s) | Some pgtab \<Rightarrow> Some (Some (pgtab, PTX vaddr), s) } } }"

definition clear_pte :: "nat \<times> nat \<Rightarrow> vpst \<Rightarrow> vpst option" where
  "clear_pte loc s =
     do { s \<leftarrow> (if present (pt_get loc s) then pdec (unat (PPN (pt_get loc s))) s else Some s);
          Some (pt_set loc 0 s) }"

text \<open>The loop of \<^verbatim>\<open>map_pages\<close> runs until the address, which may wrap around, equals the end; \<open>n\<close> is
  the number of pages.\<close>

fun map_loop :: "nat \<Rightarrow> nat \<Rightarrow> u64 \<Rightarrow> u64 \<Rightarrow> u64 \<Rightarrow> vpst \<Rightarrow> (err_t \<times> vpst) option" where
  "map_loop 0 pml4 v paddr perm s = Some (ERR_OK, s)"
| "map_loop (Suc n) pml4 v paddr perm s =
     do { (pte, s) \<leftarrow> find_pte pml4 v True s;
          case pte of
              None \<Rightarrow> Some (ERR_VPMAP_MAP, s)
            | Some loc \<Rightarrow> map_loop n pml4 (v + 0x1000) (paddr + 0x1000) perm
                            (pt_set loc (PPN paddr OR PTE_P OR perm) s) }"

definition map_pages :: "nat \<Rightarrow> u64 \<Rightarrow> u64 \<Rightarrow> u64 \<Rightarrow> u64 \<Rightarrow> vpst \<Rightarrow> (err_t \<times> vpst) option" where
  "map_pages pml4 vaddr paddr sz perm s =
     (let v = vpg_round_down vaddr; vend = vpg_round_down (vaddr + sz)
      in map_loop (unat (vend - v) div 0x1000) pml4 v (vpg_round_down paddr) perm s)"

subsection \<open>Unmapping\<close>

fun clear_range :: "nat \<Rightarrow> nat \<Rightarrow> nat \<Rightarrow> vpst \<Rightarrow> vpst option" where
  "clear_range pgtable ptx 0 s = Some s"
| "clear_range pgtable ptx (Suc n) s =
     do { s \<leftarrow> clear_pte (pgtable, ptx) s; clear_range pgtable (Suc ptx) n s }"

fun unmap_pd :: "nat \<Rightarrow> u64 \<Rightarrow> nat \<Rightarrow> nat \<Rightarrow> nat \<Rightarrow> bool \<Rightarrow> vpst \<Rightarrow> vpst option" where
  "unmap_pd pd end_addr pdx ptx 0 free_imm s = Some s"
| "unmap_pd pd end_addr pdx ptx (Suc n) free_imm s =
     do { s \<leftarrow> (if present (pt s pd pdx) then do {
                  let limit = (if ptx < PTX end_addr then 512 else PTX end_addr + 1);
                  let pgtable = ENTRY_ADDR (pt s pd pdx);
                  s \<leftarrow> clear_range pgtable ptx (limit - ptx) s;
                  if free_imm then pfree (ENTRY_ADDR (pt s pd pdx)) s else Some s }
                else Some s);
          unmap_pd pd end_addr (Suc pdx) 0 n free_imm s }"

fun unmap_pdpt :: "nat \<Rightarrow> u64 \<Rightarrow> u64 \<Rightarrow> nat \<Rightarrow> nat \<Rightarrow> nat \<Rightarrow> bool \<Rightarrow> vpst \<Rightarrow> vpst option" where
  "unmap_pdpt pdpt start_addr end_addr pdptx pdx 0 free_imm s = Some s"
| "unmap_pdpt pdpt start_addr end_addr pdptx pdx (Suc n) free_imm s =
     do { s \<leftarrow> (if present (pt s pdpt pdptx) then do {
                  let limit = (if pdx < PDX end_addr then 512 else PDX end_addr + 1);
                  s \<leftarrow> unmap_pd (ENTRY_ADDR (pt s pdpt pdptx)) end_addr pdx (PTX start_addr) (limit - pdx) free_imm s;
                  if free_imm then pfree (ENTRY_ADDR (pt s pdpt pdptx)) s else Some s }
                else Some s);
          unmap_pdpt pdpt start_addr end_addr (Suc pdptx) 0 n free_imm s }"

fun unmap_pml4 :: "nat \<Rightarrow> u64 \<Rightarrow> u64 \<Rightarrow> nat \<Rightarrow> nat \<Rightarrow> nat \<Rightarrow> bool \<Rightarrow> vpst \<Rightarrow> vpst option" where
  "unmap_pml4 pml4 start end_addr pml4x pdptx 0 free_imm s = Some s"
| "unmap_pml4 pml4 start end_addr pml4x pdptx (Suc n) free_imm s =
     do { s \<leftarrow> (if present (pt s pml4 pml4x) then do {
                  let limit = (if pdptx < PDPTX end_addr then 512 else PDPTX end_addr + 1);
                  s \<leftarrow> unmap_pdpt (ENTRY_ADDR (pt s pml4 pml4x)) start end_addr pdptx (PDX start)
                         (limit - pdptx) free_imm s;
                  if free_imm then pfree (ENTRY_ADDR (pt s pml4 pml4x)) s else Some s }
                else Some s);
          unmap_pml4 pml4 start end_addr (Suc pml4x) 0 n free_imm s }"

definition unmap_pages :: "nat \<Rightarrow> u64 \<Rightarrow> u64 \<Rightarrow> bool \<Rightarrow> vpst \<Rightarrow> vpst option" where
  "unmap_pages pml4 start end_addr free_imm s =
     do { kassert (PML4X start \<le> PML4X (end_addr - 1));
          unmap_pml4 pml4 start end_addr (PML4X start) (PDPTX start)
            (PML4X (end_addr - 1) + 1 - PML4X start) free_imm s }"

subsection \<open>Address translations\<close>

fun memperm_to_pteperm :: "memperm \<Rightarrow> u64" where
  "memperm_to_pteperm MEMPERM_R = 0"
| "memperm_to_pteperm MEMPERM_RW = PTE_W"
| "memperm_to_pteperm MEMPERM_UR = PTE_U"
| "memperm_to_pteperm MEMPERM_URW = PTE_U OR PTE_W"

definition kmap_v2p :: "u64 \<Rightarrow> pmem \<Rightarrow> u64 option" where
  "kmap_v2p v p = do { kassert (v \<ge> KMAP_BASE \<and> v < KMAP_BASE + of_nat (pmem_end p)); Some (v - KMAP_BASE) }"

definition kmap_p2v :: "u64 \<Rightarrow> u64" where
  "kmap_p2v p = p + KMAP_BASE"

definition kmap_io2v :: "u64 \<Rightarrow> u64" where
  "kmap_io2v a = a + 0xFFFFFFFF00000000"

definition vpmap_load :: "addr \<Rightarrow> vpst \<Rightarrow> vpst option" where
  "vpmap_load vp s = do { pml4 \<leftarrow> vpmaps s vp; Some (s\<lparr>cr3 := pml4\<rparr>) }"

fun map_all :: "nat \<Rightarrow> (u64 \<times> u64 \<times> u64 \<times> u64) list \<Rightarrow> vpst \<Rightarrow> vpst option" where
  "map_all pml4 [] s = Some s"
| "map_all pml4 ((v, pstart, pend, perm) # ms) s =
     do { (err, s) \<leftarrow> map_pages pml4 v pstart (pend - pstart) perm s;
          kassert (err = ERR_OK);
          map_all pml4 ms s }"

text \<open>\<open>kdata\<close> is the address that the linker gives to \<^verbatim>\<open>_data\<close>.\<close>

definition kernel_mappings :: "u64 \<Rightarrow> pmem \<Rightarrow> (u64 \<times> u64 \<times> u64 \<times> u64) list" where
  "kernel_mappings kdata p =
     [(KMAP_BASE, 0, EXTMEM_BASE, PTE_W),
      (KMAP_BASE + EXTMEM_BASE, EXTMEM_BASE, kdata - KMAP_BASE, 0),
      (kdata, kdata - KMAP_BASE, of_nat (pmem_end p), PTE_W),
      (DEVMEM_BASE_V, 0xFE000000, 0x100000000, PTE_W)]"

definition vpmap_init :: "u64 \<Rightarrow> vpst \<Rightarrow> vpst option" where
  "vpmap_init kdata s =
     do { ((err, paddr), s) \<leftarrow> palloc s;
          kassert (err = ERR_OK);
          let s = s\<lparr>vpmaps := (vpmaps s)(kvpmap s := Some paddr), pt := (pt s)(paddr := (\<lambda>_. 0))\<rparr>;
          s \<leftarrow> map_all paddr (kernel_mappings kdata (pm (km s))) s;
          vpmap_load (kvpmap s) s }"

definition vpmap_create :: "vpst \<Rightarrow> (addr option \<times> vpst) option" where
  "vpmap_create s =
     do { s \<leftarrow> (case vpmap_allocator s of
                 Some _ \<Rightarrow> Some s
               | None \<Rightarrow> do { (r, k) \<leftarrow> kmem_cache_create 8 (km s);
                             kassert (r \<noteq> None);
                             Some (s\<lparr>km := k, vpmap_allocator := r\<rparr>) });
          va \<leftarrow> vpmap_allocator s;
          (r, k) \<leftarrow> kmem_cache_alloc va (km s);
          let s = s\<lparr>km := k\<rparr>;
          case r of
              None \<Rightarrow> Some (None, s)
            | Some vp \<Rightarrow>
                do { ((err, paddr), s) \<leftarrow> palloc s;
                     if err \<noteq> ERR_OK then Some (None, s)
                     else Some (Some vp, s\<lparr>vpmaps := (vpmaps s)(vp := Some paddr), pt := (pt s)(paddr := (\<lambda>_. 0))\<rparr>) } }"

definition vpmap_map :: "addr \<Rightarrow> u64 \<Rightarrow> u64 \<Rightarrow> u64 \<Rightarrow> memperm \<Rightarrow> vpst \<Rightarrow> (err_t \<times> vpst) option" where
  "vpmap_map vp vaddr paddr n perm s =
     (if n = 0 then Some (ERR_OK, s)
      else do { pml4 \<leftarrow> vpmaps s vp;
                map_pages pml4 (vpg_round_down vaddr) (vpg_round_down paddr) (n * 0x1000) (memperm_to_pteperm perm) s })"

definition vpmap_unmap :: "addr option \<Rightarrow> u64 \<Rightarrow> u64 \<Rightarrow> vpst \<Rightarrow> vpst option" where
  "vpmap_unmap vp vaddr n s =
     (case vp of
        None \<Rightarrow> Some s
      | Some vp \<Rightarrow>
         (case vpmaps s vp of
            None \<Rightarrow> Some s
          | Some pml4 \<Rightarrow>
              if n = 0 then Some s
              else do { let start = vpg_round_down vaddr;
                        let end_addr = start + n * 0x1000;
                        kassert (PML4X start \<le> PML4X end_addr);
                        unmap_pages pml4 start end_addr False s }))"

definition vpmap_destroy :: "addr \<Rightarrow> vpst \<Rightarrow> vpst option" where
  "vpmap_destroy vp s =
     (case vpmaps s vp of
        None \<Rightarrow> Some s
      | Some pml4 \<Rightarrow>
          do { kassert (vp \<noteq> kvpmap s);
               s \<leftarrow> unmap_pages pml4 0 USTACK_UPPERBOUND True s;
               s \<leftarrow> pfree pml4 s;
               va \<leftarrow> vpmap_allocator s;
               k \<leftarrow> kmem_cache_free va vp (km s);
               Some (s\<lparr>km := k\<rparr>) })"

fun copy_loop :: "nat \<Rightarrow> nat \<Rightarrow> nat \<Rightarrow> u64 \<Rightarrow> u64 \<Rightarrow> u64 \<Rightarrow> vpst \<Rightarrow> (err_t \<times> vpst) option" where
  "copy_loop 0 srcpml4 dstpml4 srcaddr dstaddr perm s = Some (ERR_OK, s)"
| "copy_loop (Suc n) srcpml4 dstpml4 srcaddr dstaddr perm s =
     do { (src_pte, s) \<leftarrow> find_pte srcpml4 srcaddr False s;
          case src_pte of
              None \<Rightarrow> copy_loop n srcpml4 dstpml4 (srcaddr + 0x1000) (dstaddr + 0x1000) perm s
            | Some src \<Rightarrow>
                if PPN (pt_get src s) = 0
                then copy_loop n srcpml4 dstpml4 (srcaddr + 0x1000) (dstaddr + 0x1000) perm s
                else do {
                  (dst_pte, s) \<leftarrow> find_pte dstpml4 dstaddr True s;
                  case dst_pte of
                      None \<Rightarrow> Some (ERR_VPMAP_MAP, s)
                    | Some dst \<Rightarrow>
                        if PPN (pt_get dst s) \<noteq> 0 then Some (ERR_VPMAP_MAP, s)
                        else do {
                          ((err, paddr), s) \<leftarrow> palloc s;
                          if err \<noteq> ERR_OK then Some (err, s)
                          else do {
                            let s = s\<lparr>km := (km s)\<lparr>kmem := memcpy (kmem (km s)) paddr
                                                            (ENTRY_ADDR (pt_get src s)) pg_size\<rparr>\<rparr>;
                            copy_loop n srcpml4 dstpml4 (srcaddr + 0x1000) (dstaddr + 0x1000) perm
                              (pt_set dst (PPN (of_nat paddr) OR PTE_P OR perm) s) } } } }"

definition vpmap_copy :: "addr \<Rightarrow> addr \<Rightarrow> u64 \<Rightarrow> u64 \<Rightarrow> nat \<Rightarrow> memperm \<Rightarrow> vpst \<Rightarrow> (err_t \<times> vpst) option" where
  "vpmap_copy src dst srcaddr dstaddr n perm s =
     do { sp \<leftarrow> vpmaps s src;
          dp \<leftarrow> vpmaps s dst;
          copy_loop n sp dp (vpg_round_down srcaddr) (vpg_round_down dstaddr) (memperm_to_pteperm perm) s }"

fun copy_kernel_loop :: "nat \<Rightarrow> nat \<Rightarrow> nat \<Rightarrow> nat \<Rightarrow> vpst \<Rightarrow> vpst" where
  "copy_kernel_loop 0 kpml4 dpml4 i s = s"
| "copy_kernel_loop (Suc n) kpml4 dpml4 i s =
     copy_kernel_loop n kpml4 dpml4 (Suc i)
       (if present (pt s kpml4 i) then pt_set (dpml4, i) (pt s kpml4 i) s else s)"

definition vpmap_copy_kernel_mapping :: "addr \<Rightarrow> vpst \<Rightarrow> (err_t \<times> vpst) option" where
  "vpmap_copy_kernel_mapping dst s =
     do { kp \<leftarrow> vpmaps s (kvpmap s);
          dp \<leftarrow> vpmaps s dst;
          Some (ERR_OK, copy_kernel_loop (512 - PML4X KMAP_BASE) kp dp (PML4X KMAP_BASE) s) }"

definition vpmap_lookup_vaddr :: "addr \<Rightarrow> u64 \<Rightarrow> vpst \<Rightarrow> (err_t \<times> u64 option) option" where
  "vpmap_lookup_vaddr vp vaddr s =
     do { pml4 \<leftarrow> vpmaps s vp;
          (pte, s) \<leftarrow> find_pte pml4 vaddr False s;
          Some (case pte of
              None \<Rightarrow> (ERR_VPMAP_NOTPRESENT, None)
            | Some loc \<Rightarrow>
                if present (pt_get loc s) then (ERR_OK, Some (PPN (pt_get loc s) + (vaddr - VPN vaddr)))
                else (ERR_VPMAP_NOTPRESENT, None)) }"

fun set_perm_loop :: "nat \<Rightarrow> nat \<Rightarrow> u64 \<Rightarrow> u64 \<Rightarrow> vpst \<Rightarrow> vpst option" where
  "set_perm_loop 0 pml4 vaddr perm s = Some s"
| "set_perm_loop (Suc n) pml4 vaddr perm s =
     do { (pte, s) \<leftarrow> find_pte pml4 vaddr False s;
          let s = (case pte of
              None \<Rightarrow> s
            | Some loc \<Rightarrow> pt_set loc (PPN (pt_get loc s) OR (PTE_FLAGS (pt_get loc s) AND PTE_P) OR perm) s);
          set_perm_loop n pml4 (vaddr + 0x1000) perm s }"

definition vpmap_set_perm :: "addr \<Rightarrow> u64 \<Rightarrow> nat \<Rightarrow> memperm \<Rightarrow> vpst \<Rightarrow> vpst option" where
  "vpmap_set_perm vp vaddr n perm s =
     do { pml4 \<leftarrow> vpmaps s vp; set_perm_loop n pml4 (vpg_round_down vaddr) (memperm_to_pteperm perm) s }"

definition vpmap_set_dirty :: "addr \<Rightarrow> u64 \<Rightarrow> vpst \<Rightarrow> vpst option" where
  "vpmap_set_dirty vp vaddr s =
     do { pml4 \<leftarrow> vpmaps s vp;
          (pte, s) \<leftarrow> find_pte pml4 vaddr False s;
          Some (case pte of None \<Rightarrow> s | Some loc \<Rightarrow> pt_set loc (pt_get loc s OR PTE_D) s) }"

definition vpmap_get_dirty :: "addr \<Rightarrow> u64 \<Rightarrow> vpst \<Rightarrow> (err_t \<times> u64) option" where
  "vpmap_get_dirty vp vaddr s =
     do { pml4 \<leftarrow> vpmaps s vp;
          (pte, s) \<leftarrow> find_pte pml4 vaddr False s;
          Some (case pte of
              None \<Rightarrow> (ERR_VPMAP_NOTPRESENT, 0)
            | Some loc \<Rightarrow> (ERR_OK, pt_get loc s AND PTE_D)) }"

definition vpmap_get_accessed :: "addr \<Rightarrow> u64 \<Rightarrow> vpst \<Rightarrow> (err_t \<times> u64) option" where
  "vpmap_get_accessed vp vaddr s =
     do { pml4 \<leftarrow> vpmaps s vp;
          (pte, s) \<leftarrow> find_pte pml4 vaddr False s;
          Some (case pte of
              None \<Rightarrow> (ERR_VPMAP_NOTPRESENT, 0)
            | Some loc \<Rightarrow> (ERR_OK, pt_get loc s AND PTE_A)) }"

text \<open>The address space of the running process, if there is one, is loaded again.\<close>

definition vpmap_flush_tlb :: "addr option \<Rightarrow> vpst \<Rightarrow> vpst option" where
  "vpmap_flush_tlb proc_vpmap s =
     do { pml4 \<leftarrow> vpmaps s (case proc_vpmap of None \<Rightarrow> kvpmap s | Some vp \<Rightarrow> vp); Some (s\<lparr>cr3 := pml4\<rparr>) }"

end
