(* ===== verification/Vpmap_Inv.thy ===== *)
theory Vpmap_Inv
  imports Vpmap Pmem_Inv
begin

section \<open>Page tables translate addresses\<close>

text \<open>
  What the page tables of \<^theory_text>\<open>Vpmap\<close> mean: \<open>entry s r v\<close> is the page table entry that the
  processor finds for address \<open>v\<close> from root \<open>r\<close>. The tables form a tree, each allocated from the page
  allocator; mapping a page changes the entry of that page and no other.
\<close>

subsection \<open>Indices\<close>

fun idx :: "u64 \<Rightarrow> nat \<Rightarrow> nat" where
  "idx v 0 = PML4X v"
| "idx v (Suc 0) = PDPTX v"
| "idx v (Suc (Suc 0)) = PDX v"
| "idx v (Suc (Suc (Suc l))) = PTX v"

lemma ENTRY_IDX_eq: "ENTRY_IDX v sh = unat v div 2 ^ sh mod 512"
proof -
  have "drop_bit sh v AND 0x1FF = take_bit 9 (drop_bit sh v)" by (simp add: take_bit_eq_mask mask_eq_exp_minus_1)
  then have "ENTRY_IDX v sh = take_bit 9 (drop_bit sh (unat v))"
    by (simp only: ENTRY_IDX_def unsigned_take_bit_eq unat_drop_bit_eq)
  then show ?thesis by (simp add: drop_bit_eq_div take_bit_eq_mod)
qed

text \<open>The part of an address that the four indices see.\<close>

definition vpage :: "u64 \<Rightarrow> nat" where
  "vpage v = unat v div 2 ^ 12 mod 2 ^ 36"

definition pre :: "u64 \<Rightarrow> u64 \<Rightarrow> nat \<Rightarrow> bool" where
  "pre v v' n \<longleftrightarrow> (\<forall>j<n. idx v j = idx v' j)"

lemma pre_refl [simp]: "pre v v n"
  by (simp add: pre_def)

lemma pre_sym: "pre v v' n \<Longrightarrow> pre v' v n"
  by (simp add: pre_def)

lemma pre_Suc: "pre v v' (Suc n) \<longleftrightarrow> pre v v' n \<and> idx v n = idx v' n"
  by (auto simp: pre_def less_Suc_eq)

lemma digits4: "(x::nat) mod 2 ^ 36 = (x div 2 ^ 27 mod 512 * 512 + x div 2 ^ 18 mod 512) * 2 ^ 18 +
    x div 2 ^ 9 mod 512 * 512 + x mod 512"
proof -
  have "x mod 2 ^ 36 = x div 2 ^ 27 mod 2 ^ 9 * 2 ^ 27 + x mod 2 ^ 27" using mod_mult2_eq [of x "2 ^ 27" "2 ^ 9"] by simp
  moreover have "x mod 2 ^ 27 = x div 2 ^ 18 mod 2 ^ 9 * 2 ^ 18 + x mod 2 ^ 18" using mod_mult2_eq [of x "2 ^ 18" "2 ^ 9"] by simp
  moreover have "x mod 2 ^ 18 = x div 2 ^ 9 mod 2 ^ 9 * 2 ^ 9 + x mod 2 ^ 9" using mod_mult2_eq [of x "2 ^ 9" "2 ^ 9"] by simp
  ultimately show ?thesis by simp
qed

lemma digit_mod:
  assumes "0 < a"
  shows "(z::nat) mod (a * (512 * c)) div a mod 512 = z div a mod 512"
proof -
  have "z mod (a * (512 * c)) = a * (z div a mod (512 * c)) + z mod a" by (rule mod_mult2_eq)
  then have "z mod (a * (512 * c)) div a = z div a mod (512 * c)" using assms by simp
  then show ?thesis by (simp add: mod_mod_cancel)
qed

lemma pre4: "pre v v' 4 \<longleftrightarrow> vpage v = vpage v'"
proof -
  let ?x = "unat v div 2 ^ 12" and ?y = "unat v' div 2 ^ 12"
  have i: "idx w 0 = unat w div 2 ^ 12 div 2 ^ 27 mod 512" "idx w 1 = unat w div 2 ^ 12 div 2 ^ 18 mod 512"
    "idx w 2 = unat w div 2 ^ 12 div 2 ^ 9 mod 512" "idx w 3 = unat w div 2 ^ 12 mod 512" for w
    by (simp_all add: numeral_2_eq_2 numeral_3_eq_3 PML4X_def PDPTX_def PDX_def PTX_def ENTRY_IDX_eq div_mult2_eq [symmetric])
  have p: "pre v v' 4 \<longleftrightarrow> idx v 0 = idx v' 0 \<and> idx v 1 = idx v' 1 \<and> idx v 2 = idx v' 2 \<and> idx v 3 = idx v' 3"
    by (auto simp: pre_def less_Suc_eq numeral_eq_Suc)
  have "vpage v = vpage v' \<longleftrightarrow> ?x mod 2 ^ 36 = ?y mod 2 ^ 36" by (simp add: vpage_def)
  also have "\<dots> \<longleftrightarrow> ?x div 2 ^ 27 mod 512 = ?y div 2 ^ 27 mod 512 \<and> ?x div 2 ^ 18 mod 512 = ?y div 2 ^ 18 mod 512 \<and>
      ?x div 2 ^ 9 mod 512 = ?y div 2 ^ 9 mod 512 \<and> ?x mod 512 = ?y mod 512"
  proof -
    have d: "(z::nat) mod 2 ^ 36 div 2 ^ 27 mod 512 = z div 2 ^ 27 mod 512" "z mod 2 ^ 36 div 2 ^ 18 mod 512 = z div 2 ^ 18 mod 512"
      "z mod 2 ^ 36 div 2 ^ 9 mod 512 = z div 2 ^ 9 mod 512" "z mod 2 ^ 36 mod 512 = z mod 512" for z
      using digit_mod [of "2 ^ 27" z 1] digit_mod [of "2 ^ 18" z 512] digit_mod [of "2 ^ 9" z "2 ^ 18"]
        digit_mod [of 1 z "2 ^ 27"] by simp_all
    show ?thesis using digits4 [of ?x] digits4 [of ?y] d [of ?x] d [of ?y] by metis
  qed
  finally show ?thesis using p i by simp
qed


subsection \<open>The tree of tables\<close>

text \<open>The table that the walk for \<open>v\<close> reads at level \<open>l\<close>, and the entry it ends with.\<close>

fun tab :: "vpst \<Rightarrow> nat \<Rightarrow> nat \<Rightarrow> u64 \<Rightarrow> nat option" where
  "tab s r 0 v = Some r"
| "tab s r (Suc l) v =
     do { t \<leftarrow> tab s r l v; if present (pt s t (idx v l)) then Some (ENTRY_ADDR (pt s t (idx v l))) else None }"

definition entry :: "vpst \<Rightarrow> nat \<Rightarrow> u64 \<Rightarrow> u64" where
  "entry s r v = (case tab s r 3 v of None \<Rightarrow> 0 | Some t \<Rightarrow> pt s t (PTX v))"

lemma idx3 [simp]: "idx v 3 = PTX v"
  by (simp add: numeral_3_eq_3)

lemma tab_pre: "pre v v' l \<Longrightarrow> tab s r l v = tab s r l v'"
  by (induction l) (auto simp: pre_Suc cong: if_cong)

text \<open>\<open>A\<close> are the allocated page blocks. Tables are single pages among them; a table is reached at one
  level and by one prefix only.\<close>

definition tree_ok :: "vpst \<Rightarrow> nat \<Rightarrow> nat set \<Rightarrow> bool" where
  "tree_ok s r A \<longleftrightarrow> pmem_inv (pm (km s)) A \<and> npages (pm (km s)) \<le> 2 ^ 39 \<and>
     (\<forall>l v t. l \<le> 3 \<and> tab s r l v = Some t \<longrightarrow> (\<exists>p\<in>A. t = p * pg_size)) \<and>
     (\<forall>l l' v v' t. l \<le> 3 \<and> l' \<le> 3 \<and> tab s r l v = Some t \<and> tab s r l' v' = Some t \<longrightarrow> l = l' \<and> pre v v' l)"

lemma tree_okD:
  assumes "tree_ok s r A"
  shows "pmem_inv (pm (km s)) A" "npages (pm (km s)) \<le> 2 ^ 39"
    "l \<le> 3 \<Longrightarrow> tab s r l v = Some t \<Longrightarrow> \<exists>p\<in>A. t = p * pg_size"
    "l \<le> 3 \<Longrightarrow> l' \<le> 3 \<Longrightarrow> tab s r l v = Some t \<Longrightarrow> tab s r l' v' = Some t \<Longrightarrow> l = l' \<and> pre v v' l"
  using assms unfolding tree_ok_def by blast+

lemma ENTRY_ADDR_page:
  assumes "p < 2 ^ 39"
  shows "ENTRY_ADDR (of_nat (p * pg_size) OR 1 OR 2 OR 4) = p * pg_size"
    "present (of_nat (p * pg_size) OR 1 OR 2 OR 4)"
proof -
  show "present (of_nat (p * pg_size) OR 1 OR 2 OR 4)"
    by (auto simp: present_def bit_eq_iff bit_simps intro!: exI [of _ 0])
  define w :: u64 where "w = of_nat (p * pg_size)"
  have w: "w = push_bit 12 (of_nat p)" by (simp add: w_def push_bit_eq_mult)
  have b: "bit w n \<longleftrightarrow> 12 \<le> n \<and> n < 51 \<and> bit p (n - 12)" for n
  proof -
    have "\<not> bit p (n - 12)" if "51 \<le> n"
    proof -
      have "p < 2 ^ (n - 12)" using assms that power_increasing [of 39 "n - 12" "2::nat"] by linarith
      then show ?thesis by (simp add: bit_iff_odd)
    qed
    then show ?thesis unfolding w by (cases "51 \<le> n") (auto simp: bit_simps)
  qed
  have c: "(0xFFF :: u64) = mask 12" "NOT (0xFFF8000000000000 :: u64) = mask 51" "(1 OR 2 OR 4 :: u64) = mask 3"
    by (simp_all add: mask_eq_exp_minus_1)
  have "(w OR 1 OR 2 OR 4) AND NOT 0xFFF AND NOT 0xFFF8000000000000 = w"
    unfolding c by (rule bit_eqI) (auto simp: b bit_simps)
  then have "ENTRY_ADDR (w OR 1 OR 2 OR 4) = unat w" by (simp add: ENTRY_ADDR_def)
  also have "unat w = p * pg_size" using assms by (simp add: w_def unat_of_nat del: of_nat_mult)
  finally show "ENTRY_ADDR (of_nat (p * pg_size) OR 1 OR 2 OR 4) = p * pg_size" by (simp add: w_def)
qed


lemma palloc_ok:
  assumes "pmem_inv (pm (km s)) A"
  shows "palloc s = Some ((ERR_NOMEM, 0), s) \<or>
    (\<exists>p m. palloc s = Some ((ERR_OK, p * pg_size), s\<lparr>km := (km s)\<lparr>pm := m\<rparr>\<rparr>) \<and> p \<notin> A \<and>
       pmem_inv m (insert p A) \<and> npages m = npages (pm (km s)))"
  using pmem_nalloc_ok [OF assms, of 1] by (auto simp: palloc_def pmem_alloc_def)

text \<open>Linking a fresh, cleared table into an empty slot changes the walks through that slot only.\<close>

lemma tab_link:
  assumes T: "tree_ok s r A" and l: "l < 3" and t: "tab s r l v = Some t" and np: "\<not> present (pt s t (idx v l))"
    and n: "n \<notin> A" "pt s' = ((pt s)(n * pg_size := (\<lambda>_. 0)))
              (t := (((pt s)(n * pg_size := (\<lambda>_. 0))) t)(idx v l := e))"
    and e: "present e" "ENTRY_ADDR e = n * pg_size" and j: "j \<le> 3"
  shows "tab s' r j w = (if l < j \<and> pre v w (Suc l) then if j = Suc l then Some (n * pg_size) else None else tab s r j w)"
  using j
proof (induction j)
  case (Suc j)
  note S = tree_okD(4) [OF T]
  have fresh: "t' \<noteq> n * pg_size" if "i \<le> 3" "tab s r i x = Some t'" for i x t'
    using tree_okD(3) [OF T that] n(1) by auto
  have tn: "t \<noteq> n * pg_size" using fresh [OF _ t] l by simp
  then have pts: "pt s' t (idx v l) = e" "\<And>i. i \<noteq> idx v l \<Longrightarrow> pt s' t i = pt s t i"
    "pt s' (n * pg_size) = (\<lambda>_. 0)" "\<And>t' i. t' \<noteq> t \<Longrightarrow> t' \<noteq> n * pg_size \<Longrightarrow> pt s' t' i = pt s t' i"
    using n(2) by auto
  have j: "j \<le> 3" using Suc.prems by simp
  note IH = Suc.IH [OF j]
  consider (below) "l < j" "pre v w (Suc l)" | (here) "j = l" "pre v w l" | (other) "\<not> (l < j \<and> pre v w (Suc l))" "\<not> (j = l \<and> pre v w l)"
    by blast
  then show ?case
  proof cases
    case below
    then have "tab s' r (Suc j) w = None" using IH pts(3) by (auto simp: present_def)
    then show ?thesis using below by simp
  next
    case here
    then have tw: "tab s' r j w = Some t" "tab s r j w = Some t" using IH t tab_pre [of v w l s r] by auto
    show ?thesis
    proof (cases "idx w l = idx v l")
      case True
      then show ?thesis using tw here pts(1) e by (simp add: pre_Suc)
    next
      case False
      then show ?thesis using tw here pts(2) by (simp add: pre_Suc)
    qed
  next
    case other
    then have tw: "tab s' r j w = tab s r j w" using IH by auto
    have "pt s' t' (idx w j) = pt s t' (idx w j)" if "tab s r j w = Some t'" for t'
    proof -
      have "t' \<noteq> t" using S [OF j _ that, of l v] t l other(2) pre_sym by fastforce
      then show ?thesis using pts(4) fresh [OF j that] by blast
    qed
    then have "tab s' r (Suc j) w = tab s r (Suc j) w" using tw by (cases "tab s r j w") auto
    moreover have "\<not> (l < Suc j \<and> pre v w (Suc l))" using other by (auto simp: pre_Suc less_Suc_eq)
    ultimately show ?thesis by (auto simp del: tab.simps)
  qed
qed simp

lemma next_table_ok:
  assumes T: "tree_ok s r A" and l: "l < 3" and t: "tab s r l v = Some t"
  shows "\<exists>x s' A'. next_table alloc t (idx v l) s = Some (x, s') \<and> tree_ok s' r A' \<and> A \<subseteq> A' \<and>
    (\<forall>w. entry s' r w = entry s r w) \<and> vpmaps s' = vpmaps s \<and>
    (case x of None \<Rightarrow> s' = s \<and> tab s r (Suc l) v = None | Some t' \<Rightarrow> tab s' r (Suc l) v = Some t')"
proof (cases "present (pt s t (idx v l)) \<or> \<not> alloc")
  case True
  then show ?thesis using T t
    by (intro exI [of _ "tab s r (Suc l) v"] exI [of _ s] exI [of _ A]) (auto simp: next_table_def)
next
  case False
  from palloc_ok [OF tree_okD(1) [OF T]] consider
    "palloc s = Some ((ERR_NOMEM, 0), s)"
  | p m where "palloc s = Some ((ERR_OK, p * pg_size), s\<lparr>km := (km s)\<lparr>pm := m\<rparr>\<rparr>)" "p \<notin> A"
      "pmem_inv m (insert p A)" "npages m = npages (pm (km s))" by blast
  then show ?thesis
  proof cases
    case 1
    then have "next_table alloc t (idx v l) s = Some (None, s)" using False by (simp add: next_table_def)
    then show ?thesis using False t T by (intro exI [of _ None] exI [of _ s] exI [of _ A]) auto
  next
    case 2
    define e :: u64 where "e = of_nat (p * pg_size) OR 1 OR 2 OR 4"
    have "p < npages m" using pmem_inv_bound [OF 2(3), of p] by (metis add_leD1 insertI1 le_neq_implies_less less_add_same_cancel1 linorder_not_less zero_less_numeral zero_less_power)
    then have p39: "p < 2 ^ 39" using 2(4) tree_okD(2) [OF T] by linarith
    note E = ENTRY_ADDR_page [OF p39, folded e_def]
    define s' where "s' = pt_set (t, idx v l) e (s\<lparr>km := (km s)\<lparr>pm := m\<rparr>, pt := (pt s)(p * pg_size := (\<lambda>_. 0))\<rparr>)"
    have nt: "next_table alloc t (idx v l) s = Some (Some (p * pg_size), s')"
    proof -
      have "word_of_nat p * 4096 OR 7 = e" by (simp add: e_def)
      then show ?thesis using False 2(1) E(1) by (simp add: next_table_def s'_def pt_set_def)
    qed
    have pt': "pt s' = ((pt s)(p * pg_size := (\<lambda>_. 0)))(t := (((pt s)(p * pg_size := (\<lambda>_. 0))) t)(idx v l := e))"
      by (simp add: s'_def pt_set_def)
    have np: "\<not> present (pt s t (idx v l))" using False by simp
    have tab': "tab s' r j w = (if l < j \<and> pre v w (Suc l) then if j = Suc l then Some (p * pg_size) else None else tab s r j w)"
      if "j \<le> 3" for j w by (rule tab_link [OF T l t np 2(2) pt' E(2,1) that])
    have old: "tab s r j w = None" if "l < j" "pre v w (Suc l)" for j w
      using that
    proof (induction j)
      case (Suc j)
      show ?case
      proof (cases "l = j")
        case True
        then have "tab s r j w = Some t" "idx w j = idx v j" using t Suc.prems tab_pre [of v w l s r] by (auto simp: pre_Suc)
        then show ?thesis using np True by simp
      qed (use Suc in auto)
    qed simp
    have km': "pm (km s') = m" "vpmaps s' = vpmaps s" by (simp_all add: s'_def pt_set_def)
    have ent: "entry s' r w = entry s r w" for w
    proof (cases "pre v w (Suc l)")
      case True
      then have "entry s r w = 0" using old [of 3 w] l by (simp add: entry_def)
      moreover have "entry s' r w = 0"
      proof (cases "l = 2")
        case True
        have "p * pg_size \<noteq> t" using tree_okD(3) [OF T _ t] l 2(2) by auto
        then show ?thesis using tab' [of 3 w] \<open>pre v w (Suc l)\<close> True pt' by (simp add: entry_def)
      next
        case False
        then show ?thesis using tab' [of 3 w] True l by (simp add: entry_def)
      qed
      ultimately show ?thesis by simp
    next
      case False
      then have "tab s' r 3 w = tab s r 3 w" using tab' [of 3 w] by simp
      moreover have "pt s' t' (PTX w) = pt s t' (PTX w)" if "tab s r 3 w = Some t'" for t'
      proof -
        have "t' \<noteq> t" using tree_okD(4) [OF T _ _ that, of l v] t l by auto
        moreover have "t' \<noteq> p * pg_size" using tree_okD(3) [OF T _ that] 2(2) by auto
        ultimately show ?thesis using pt' by simp
      qed
      ultimately show ?thesis by (cases "tab s r 3 w") (simp_all add: entry_def)
    qed
    have "tree_ok s' r (insert p A)"
      unfolding tree_ok_def km'
    proof (intro conjI allI impI)
      show "npages m \<le> 2 ^ 39" using 2(4) tree_okD(2) [OF T] by simp
      show "\<exists>q\<in>insert p A. t' = q * pg_size" if "j \<le> 3 \<and> tab s' r j w = Some t'" for j w t'
        using that tab' [of j w] tree_okD(3) [OF T, of j w t'] by (auto split: if_splits)
      fix j j' w w' t' assume H: "j \<le> 3 \<and> j' \<le> 3 \<and> tab s' r j w = Some t' \<and> tab s' r j' w' = Some t'"
      have new: "t' = p * pg_size \<longleftrightarrow> l < i \<and> pre v x (Suc l)" if "i \<le> 3" "tab s' r i x = Some t'" for i x
        using that tab' [of i x] tree_okD(3) [OF T, of i x t'] 2(2) by (auto split: if_splits)
      show "j = j'" "pre w w' j"
      proof -
        have "j = j' \<and> pre w w' j"
        proof (cases "t' = p * pg_size")
          case True
          then have "pre v w (Suc l)" "pre v w' (Suc l)" "j = Suc l" "j' = Suc l"
            using H new [of j w] new [of j' w'] tab' [of j w] tab' [of j' w'] by (auto split: if_splits)
          then show ?thesis by (auto simp: pre_def)
        next
          case False
          then have "tab s r j w = Some t'" "tab s r j' w' = Some t'"
            using H new [of j w] new [of j' w'] tab' [of j w] tab' [of j' w'] by (auto split: if_splits)
          then show ?thesis using tree_okD(4) [OF T] H by blast
        qed
        then show "j = j'" "pre w w' j" by auto
      qed
    qed (use 2(3) in simp)
    moreover have "tab s' r (Suc l) v = Some (p * pg_size)" using tab' [of "Suc l" v] l by simp
    ultimately show ?thesis using nt ent km'(2)
      by (intro exI [of _ "Some (p * pg_size)"] exI [of _ s'] exI [of _ "insert p A"]) auto
  qed
qed


subsection \<open>Finding and setting entries\<close>

lemma idx_simps: "idx v 0 = PML4X v" "idx v 1 = PDPTX v" "idx v 2 = PDX v"
  by (simp_all add: numeral_2_eq_2)

lemma tab_simps: "tab s r 0 v = Some r"
  "tab s r 1 v = (if present (pt s r (PML4X v)) then Some (ENTRY_ADDR (pt s r (PML4X v))) else None)"
  "tab s r 2 v = do { t \<leftarrow> tab s r 1 v; if present (pt s t (PDPTX v)) then Some (ENTRY_ADDR (pt s t (PDPTX v))) else None }"
  "tab s r 3 v = do { t \<leftarrow> tab s r 2 v; if present (pt s t (PDX v)) then Some (ENTRY_ADDR (pt s t (PDX v))) else None }"
  by (simp_all add: numeral_2_eq_2 numeral_3_eq_3)

lemma find_pte_lookup: "find_pte r v False s = Some (map_option (\<lambda>t. (t, PTX v)) (tab s r 3 v), s)"
  by (auto simp: find_pte_def next_table_def tab_simps)

lemma vpmap_lookup_entry:
  assumes "vpmaps s vp = Some r"
  shows "vpmap_lookup_vaddr vp v s = Some (if present (entry s r v)
    then (ERR_OK, Some (PPN (entry s r v) + (v - VPN v))) else (ERR_VPMAP_NOTPRESENT, None))"
  using assms by (cases "tab s r 3 v")
    (auto simp: vpmap_lookup_vaddr_def find_pte_lookup entry_def pt_get_def present_def)

lemma find_pte_ok:
  assumes T: "tree_ok s r A"
  shows "\<exists>x s' A'. find_pte r v alloc s = Some (x, s') \<and> tree_ok s' r A' \<and>
    (\<forall>w. entry s' r w = entry s r w) \<and> vpmaps s' = vpmaps s \<and>
    (\<forall>loc. x = Some loc \<longrightarrow> (\<exists>t. loc = (t, PTX v) \<and> tab s' r 3 v = Some t))"
proof -
  obtain x1 s1 A1 where 1: "next_table alloc r (PML4X v) s = Some (x1, s1)" "tree_ok s1 r A1"
    "\<forall>w. entry s1 r w = entry s r w" "vpmaps s1 = vpmaps s" "\<forall>t. x1 = Some t \<longrightarrow> tab s1 r 1 v = Some t"
    using next_table_ok [OF T, of 0 v r alloc] by (auto simp: idx_simps split: option.splits)
  show ?thesis
  proof (cases x1)
    case None
    then show ?thesis using 1 by (intro exI [of _ None] exI [of _ s1] exI [of _ A1]) (simp add: find_pte_def)
  next
    case (Some t1)
    then have t1: "tab s1 r 1 v = Some t1" using 1(5) by simp
    obtain x2 s2 A2 where 2: "next_table alloc t1 (PDPTX v) s1 = Some (x2, s2)" "tree_ok s2 r A2"
      "\<forall>w. entry s2 r w = entry s1 r w" "vpmaps s2 = vpmaps s1" "\<forall>t. x2 = Some t \<longrightarrow> tab s2 r 2 v = Some t"
      using next_table_ok [OF 1(2) _ t1, of alloc] by (auto simp: idx_simps numeral_2_eq_2 split: option.splits)
    show ?thesis
    proof (cases x2)
      case None
      then show ?thesis using 1 2 Some
        by (intro exI [of _ None] exI [of _ s2] exI [of _ A2]) (simp add: find_pte_def)
    next
      case (Some t2)
      then have t2: "tab s2 r 2 v = Some t2" using 2(5) by simp
      obtain x3 s3 A3 where 3: "next_table alloc t2 (PDX v) s2 = Some (x3, s3)" "tree_ok s3 r A3"
        "\<forall>w. entry s3 r w = entry s2 r w" "vpmaps s3 = vpmaps s2" "\<forall>t. x3 = Some t \<longrightarrow> tab s3 r 3 v = Some t"
        using next_table_ok [OF 2(2) _ t2, of alloc]
        by (auto simp: idx_simps numeral_2_eq_2 numeral_3_eq_3 split: option.splits)
      have "find_pte r v alloc s = Some (map_option (\<lambda>t. (t, PTX v)) x3, s3)"
        using 1(1) 2(1) 3(1) \<open>x1 = Some t1\<close> Some by (cases x3) (simp_all add: find_pte_def)
      then show ?thesis using 1 2 3
        by (intro exI [of _ "map_option (\<lambda>t. (t, PTX v)) x3"] exI [of _ s3] exI [of _ A3]) auto
    qed
  qed
qed

lemma set_leaf:
  assumes T: "tree_ok s r A" and t: "tab s r 3 v = Some t" and s': "s' = pt_set (t, PTX v) e s"
  shows "tree_ok s' r A" "entry s' r w = (if vpage w = vpage v then e else entry s r w)"
    "tab s' r 3 v = Some t" "vpmaps s' = vpmaps s"
proof -
  have tab': "tab s' r j x = tab s r j x" if "j \<le> 3" for j x
    using that
  proof (induction j)
    case (Suc j)
    then have IH: "tab s' r j x = tab s r j x" by simp
    have "pt s' t' i = pt s t' i" if "tab s r j x = Some t'" for t' i
    proof -
      have "t' \<noteq> t" using tree_okD(4) [OF T _ _ that, of 3 v] t Suc.prems by auto
      then show ?thesis by (simp add: s' pt_set_def)
    qed
    then show ?case using IH by (cases "tab s r j x") auto
  qed simp
  then show "tab s' r 3 v = Some t" using t by simp
  show "vpmaps s' = vpmaps s" by (simp add: s' pt_set_def)
  have k: "km s' = km s" by (simp add: s' pt_set_def)
  show "tree_ok s' r A" using T tab' k unfolding tree_ok_def by (metis (no_types, lifting))
  show "entry s' r w = (if vpage w = vpage v then e else entry s r w)"
  proof (cases "vpage w = vpage v")
    case True
    then have "pre w v 4" using pre4 by simp
    then have "pre w v 3" "PTX w = PTX v" using pre_Suc [of w v 3] by simp_all
    then show ?thesis using tab_pre [of w v 3 s r] t tab' [of 3 w] True by (simp add: entry_def s' pt_set_def)
  next
    case False
    have "pt s' t' (PTX w) = pt s t' (PTX w)" if "tab s r 3 w = Some t'" for t'
    proof (cases "t' = t")
      case True
      then have "pre w v 3" using tree_okD(4) [OF T _ _ that, of 3 v] t by simp
      then have "PTX w \<noteq> PTX v" using False pre4 [of w v] pre_Suc [of w v 3] by simp
      then show ?thesis using True by (simp add: s' pt_set_def)
    qed (simp add: s' pt_set_def)
    then show ?thesis using False tab' [of 3 w] by (cases "tab s r 3 w") (simp_all add: entry_def)
  qed
qed

end
