(* ===== verification/Kmalloc_Inv.thy ===== *)
theory Kmalloc_Inv
  imports Kmalloc
begin

section \<open>The slab allocator hands out disjoint objects\<close>

text \<open>
  The invariant of \<^theory_text>\<open>Kmalloc\<close>: the slabs of all object allocators are blocks of the page
  allocator, every page of a slab names the slab and its allocator, and the free index array of a slab
  links its free slots. It rests on the page allocator only through \<^theory_text>\<open>pmem_nalloc_ok\<close> and
  \<^theory_text>\<open>pmem_nfree_ok\<close>, and makes \<^verbatim>\<open>kmalloc\<close> and \<^verbatim>\<open>kfree\<close> an instance of the allocator interface.
\<close>

subsection \<open>Geometry of a slab\<close>

lemma round_up_ge: "a \<le> pg_round_up a"
  unfolding pg_round_up_def by linarith

lemma round_up_div: "pg_round_up a div pg_size * pg_size = pg_round_up a"
  by (simp add: pg_round_up_def)

lemma slab_size: "sizeof_slab + (sz + sizeof_int) * MIN_OBJS_PER_SLAB \<le> slab_n_pages sz * pg_size"
  unfolding slab_n_pages_def round_up_div by (rule round_up_ge)

lemma slab_n_objs_min: "MIN_OBJS_PER_SLAB \<le> slab_n_objs sz"
proof -
  have "(sz + sizeof_int) * MIN_OBJS_PER_SLAB \<le> slab_n_pages sz * pg_size - sizeof_slab"
    using slab_size [of sz] by linarith
  then have "MIN_OBJS_PER_SLAB * (sz + sizeof_int) \<le> slab_n_pages sz * pg_size - sizeof_slab"
    by (simp only: mult.commute)
  then show ?thesis unfolding slab_n_objs_def by (subst less_eq_div_iff_mult_less_eq) simp_all
qed

lemma slab_n_pages_pos: "0 < slab_n_pages sz"
  using slab_size [of sz] by (cases "slab_n_pages sz") auto

lemma slot_in_slab:
  assumes "i < slab_n_objs sz"
  shows "sizeof_slab + sizeof_int * slab_n_objs sz + sz * i + sz \<le> slab_n_pages sz * pg_size"
proof -
  have "slab_n_objs sz * (sz + sizeof_int) \<le> slab_n_pages sz * pg_size - sizeof_slab"
    unfolding slab_n_objs_def by simp
  moreover have "sz * Suc i \<le> sz * slab_n_objs sz" using assms by (intro mult_le_mono2) simp
  moreover have "sizeof_slab \<le> slab_n_pages sz * pg_size" using slab_size [of sz] by linarith
  ultimately show ?thesis by (simp add: algebra_simps)
qed

subsection \<open>Free slots\<close>

fun chain :: "int list \<Rightarrow> int \<Rightarrow> nat list \<Rightarrow> bool" where
  "chain a i [] \<longleftrightarrow> i = -1"
| "chain a i (x # xs) \<longleftrightarrow> i = int x \<and> x < length a \<and> chain a (a ! x) xs"

lemma chain_update: "x \<notin> set xs \<Longrightarrow> chain (a[x := v]) i xs = chain a i xs"
  by (induction xs arbitrary: i) auto

lemma chain_Nil_iff: "chain a i xs \<Longrightarrow> i = -1 \<longleftrightarrow> xs = []"
  by (cases xs) auto

lemma chain_upt:
  assumes "\<forall>j<n. a ! j = (if Suc j < n then int (Suc j) else -1)" "length a = n" "j < n"
  shows "chain a (int j) [j..<n]"
  using assms(3)
proof (induction "n - j" arbitrary: j)
  case (Suc m)
  show ?case
  proof (cases "Suc j < n")
    case True
    with Suc.hyps(1) [of "Suc j"] Suc.hyps(2) have "chain a (int (Suc j)) [Suc j..<n]" by simp
    then show ?thesis using assms True Suc.prems by (subst upt_conv_Cons) simp_all
  next
    case False
    then have "n = Suc j" using Suc.prems by simp
    then show ?thesis using assms by simp
  qed
qed simp

lemma chain_init:
  assumes "0 < n"
  shows "chain (map (\<lambda>i. int i + 1) [0..<n - 1] @ [-1]) 0 [0..<n]"
proof -
  let ?a = "map (\<lambda>i. int i + 1) [0..<n - 1] @ [-1 :: int]"
  have "?a ! j = (if Suc j < n then int (Suc j) else -1)" if "j < n" for j
    using that by (cases "Suc j < n") (auto simp: nth_append)
  then have "chain ?a (int 0) [0..<n]" using assms by (intro chain_upt) simp_all
  then show ?thesis by simp
qed

subsection \<open>The invariant\<close>

definition slab_pages :: "nat \<Rightarrow> addr \<Rightarrow> nat set" where
  "slab_pages sz sl = {sl div pg_size..<sl div pg_size + slab_n_pages sz}"

definition slab_ok :: "kmalloc_state \<Rightarrow> (addr \<Rightarrow> nat list) \<Rightarrow> addr \<Rightarrow> addr \<Rightarrow> bool" where
  "slab_ok s F k sl \<longleftrightarrow>
     (let sz = obj_size (caches s k); n = slab_n_objs sz
      in sl mod pg_size = 0 \<and> n_pages (slabs s sl) = slab_n_pages sz \<and>
         objs (slabs s sl) = sl + sizeof_slab + sizeof_int * n \<and> length (freearr s sl) = n \<and>
         distinct (F sl) \<and> chain (freearr s sl) (slab_free (slabs s sl)) (F sl) \<and>
         slab_pages sz sl \<subseteq> block (pm s) (sl div pg_size) \<and>
         (\<forall>p\<in>slab_pages sz sl. kmem_cache (pages (pm s) p) = Some k \<and> slab (pages (pm s) p) = Some sl))"

definition slabs_of :: "kmalloc_state \<Rightarrow> addr \<Rightarrow> addr set" where
  "slabs_of s k = set (cache_free (caches s k)) \<union> set (cache_full (caches s k))"

definition page_of :: "addr \<Rightarrow> nat" where
  "page_of a = a div pg_size"

definition cache_ok :: "kmalloc_state \<Rightarrow> (addr \<Rightarrow> nat list) \<Rightarrow> addr \<Rightarrow> bool" where
  "cache_ok s F k \<longleftrightarrow> 0 < obj_size (caches s k) \<and> slab_n_pages (obj_size (caches s k)) \<le> 2 ^ MAX_ORDER \<and>
     distinct (cache_free (caches s k)) \<and> distinct (cache_full (caches s k)) \<and>
     (\<forall>sl\<in>slabs_of s k. slab_ok s F k sl) \<and>
     (\<forall>sl\<in>set (cache_free (caches s k)). F sl \<noteq> []) \<and> (\<forall>sl\<in>set (cache_full (caches s k)). F sl = [])"

text \<open>\<open>K\<close> are the object allocators, \<open>F\<close> the free slots of their slabs, \<open>R\<close> the page blocks of others.\<close>

definition kinv :: "kmalloc_state \<Rightarrow> addr set \<Rightarrow> (addr \<Rightarrow> nat list) \<Rightarrow> nat set \<Rightarrow> bool" where
  "kinv s K F R \<longleftrightarrow> (\<forall>k\<in>K. cache_ok s F k) \<and> 0 \<in> R \<and> R \<inter> page_of ` (\<Union>k\<in>K. slabs_of s k) = {} \<and>
     pmem_inv (pm s) (R \<union> page_of ` (\<Union>k\<in>K. slabs_of s k))"

definition slot :: "kmalloc_state \<Rightarrow> addr \<Rightarrow> addr \<Rightarrow> nat \<Rightarrow> addr" where
  "slot s k sl i = objs (slabs s sl) + obj_size (caches s k) * i"

definition is_live :: "kmalloc_state \<Rightarrow> addr set \<Rightarrow> (addr \<Rightarrow> nat list) \<Rightarrow> addr \<Rightarrow> addr \<Rightarrow> addr \<Rightarrow> nat \<Rightarrow> bool" where
  "is_live s K F a k sl i \<longleftrightarrow> k \<in> K \<and> sl \<in> slabs_of s k \<and> i < slab_n_objs (obj_size (caches s k)) \<and>
     i \<notin> set (F sl) \<and> a = slot s k sl i"

definition live_objs :: "kmalloc_state \<Rightarrow> addr set \<Rightarrow> (addr \<Rightarrow> nat list) \<Rightarrow> addr set" where
  "live_objs s K F = {a. \<exists>k sl i. is_live s K F a k sl i}"

lemma live_objsD: "a \<in> live_objs s K F \<Longrightarrow> \<exists>k sl i. is_live s K F a k sl i"
  by (simp add: live_objs_def)

text \<open>The free slots that an object allocator has.\<close>

definition free_slots :: "kmalloc_state \<Rightarrow> (addr \<Rightarrow> nat list) \<Rightarrow> addr \<Rightarrow> nat" where
  "free_slots s F k = (\<Sum>sl\<in>set (cache_free (caches s k)). length (F sl))"

lemma slab_okD:
  assumes "slab_ok s F k sl"
  shows "sl mod pg_size = 0" "n_pages (slabs s sl) = slab_n_pages (obj_size (caches s k))"
    "objs (slabs s sl) = sl + sizeof_slab + sizeof_int * slab_n_objs (obj_size (caches s k))"
    "length (freearr s sl) = slab_n_objs (obj_size (caches s k))"
    "distinct (F sl)" "chain (freearr s sl) (slab_free (slabs s sl)) (F sl)"
    "slab_pages (obj_size (caches s k)) sl \<subseteq> block (pm s) (sl div pg_size)"
    "p \<in> slab_pages (obj_size (caches s k)) sl \<Longrightarrow> kmem_cache (pages (pm s) p) = Some k"
    "p \<in> slab_pages (obj_size (caches s k)) sl \<Longrightarrow> slab (pages (pm s) p) = Some sl"
  using assms unfolding slab_ok_def Let_def by blast+

lemma slot_bounds:
  assumes "slab_ok s F k sl" "i < slab_n_objs (obj_size (caches s k))" "0 < obj_size (caches s k)"
    "slot s k sl i \<le> x" "x < slot s k sl i + obj_size (caches s k)"
  shows "x div pg_size \<in> slab_pages (obj_size (caches s k)) sl"
proof -
  note D = slab_okD [OF assms(1)]
  let ?sz = "obj_size (caches s k)"
  obtain p where p: "sl = p * pg_size" using D(1) by (metis mod_0_imp_dvd dvdE mult.commute)
  have "x < sl + slab_n_pages ?sz * pg_size" "sl \<le> x"
    using assms(4,5) slot_in_slab [OF assms(2)] D(3) by (simp_all add: slot_def)
  then have "x < (p + slab_n_pages ?sz) * pg_size" "p * pg_size \<le> x" using p by (simp_all add: algebra_simps)
  then have "x div pg_size < p + slab_n_pages ?sz" "p \<le> x div pg_size"
    by (simp_all add: less_mult_imp_div_less less_eq_div_iff_mult_less_eq)
  then show ?thesis using p by (simp add: slab_pages_def)
qed

lemma live_page:
  assumes "kinv s K F R" "is_live s K F a k sl i"
  shows "a div pg_size \<in> slab_pages (obj_size (caches s k)) sl" "slab_ok s F k sl" "0 < obj_size (caches s k)"
    "kmem_cache (pages (pm s) (a div pg_size)) = Some k" "slab (pages (pm s) (a div pg_size)) = Some sl"
    "(a - objs (slabs s sl)) div obj_size (caches s k) = i" "objs (slabs s sl) \<le> a"
proof -
  have ok: "slab_ok s F k sl" "0 < obj_size (caches s k)"
    using assms by (auto simp: kinv_def cache_ok_def is_live_def)
  then show p: "a div pg_size \<in> slab_pages (obj_size (caches s k)) sl"
    using slot_bounds [OF ok(1), of i a] assms(2) by (auto simp: is_live_def)
  show "slab_ok s F k sl" "0 < obj_size (caches s k)" by (fact ok)+
  show "kmem_cache (pages (pm s) (a div pg_size)) = Some k" "slab (pages (pm s) (a div pg_size)) = Some sl"
    using slab_okD(8,9) [OF ok(1) p] .
  show "(a - objs (slabs s sl)) div obj_size (caches s k) = i" "objs (slabs s sl) \<le> a"
    using assms(2) ok(2) by (simp_all add: is_live_def slot_def)
qed


text \<open>Two slabs have no page in common, and two live objects no byte.\<close>

lemma slab_pages_disjoint:
  assumes "kinv s K F R" "k \<in> K" "sl \<in> slabs_of s k" "k' \<in> K" "sl' \<in> slabs_of s k'"
    "p \<in> slab_pages (obj_size (caches s k)) sl" "p \<in> slab_pages (obj_size (caches s k')) sl'"
  shows "k = k' \<and> sl = sl'"
proof -
  have "slab_ok s F k sl" "slab_ok s F k' sl'" using assms by (auto simp: kinv_def cache_ok_def)
  then show ?thesis using slab_okD(8,9) assms(6,7) by (metis option.inject)
qed

definition obj_region :: "kmalloc_state \<Rightarrow> addr \<Rightarrow> nat set" where
  "obj_region s a = {a..<a + obj_size (caches s (the (kmem_cache (pages (pm s) (a div pg_size)))))}"

lemma live_region: "kinv s K F R \<Longrightarrow> is_live s K F a k sl i \<Longrightarrow> obj_region s a = {a..<a + obj_size (caches s k)}"
  using live_page(4) by (simp add: obj_region_def)

lemma slot_index:
  assumes "o0 + sz * i \<le> x" "x < o0 + sz * i + (sz :: nat)"
  shows "(x - o0) div sz = i"
proof -
  obtain d where d: "x = o0 + sz * i + d" using assms(1) le_Suc_ex by blast
  then have "(x - o0) div sz = (d + sz * i) div sz" by (simp add: add.commute)
  also have "\<dots> = i" using assms(2) d by (subst div_mult_self2) auto
  finally show ?thesis .
qed

lemma live_disjoint:
  assumes "kinv s K F R" "is_live s K F a k sl i" "is_live s K F a' k' sl' i'" "a \<noteq> a'"
  shows "obj_region s a \<inter> obj_region s a' = {}"
proof (rule ccontr)
  assume "obj_region s a \<inter> obj_region s a' \<noteq> {}"
  then obtain x where x: "x \<in> {a..<a + obj_size (caches s k)}" "x \<in> {a'..<a' + obj_size (caches s k')}"
    unfolding live_region [OF assms(1,2)] live_region [OF assms(1,3)] by blast
  note L = live_page [OF assms(1,2)] and L' = live_page [OF assms(1,3)]
  have "x div pg_size \<in> slab_pages (obj_size (caches s k)) sl"
    using slot_bounds [OF L(2), of i x] L(3) x(1) assms(2) by (auto simp: is_live_def)
  moreover have "x div pg_size \<in> slab_pages (obj_size (caches s k')) sl'"
    using slot_bounds [OF L'(2), of i' x] L'(3) x(2) assms(3) by (auto simp: is_live_def)
  ultimately have same: "k = k'" "sl = sl'"
    using slab_pages_disjoint [OF assms(1)] assms(2,3) by (auto simp: is_live_def)
  let ?sz = "obj_size (caches s k)"
  define o0 where "o0 = objs (slabs s sl)"
  have a: "a = o0 + ?sz * i" "a' = o0 + ?sz * i'"
    using assms(2,3) same by (auto simp: is_live_def slot_def o0_def)
  have "(x - o0) div ?sz = i" "(x - o0) div ?sz = i'"
    using slot_index [of o0 ?sz i x] slot_index [of o0 ?sz i' x] a x same by auto
  then show False using a assms(4) by simp
qed

subsection \<open>Creating a slab\<close>

lemma link_pages_ok:
  assumes "p + n \<le> npages s"
  shows "link_pages k sl (p * pg_size) n s = Some (s\<lparr>pages := (\<lambda>q. if p \<le> q \<and> q < p + n
    then (pages s q)\<lparr>kmem_cache := Some k, slab := Some sl\<rparr> else pages s q)\<rparr>)"
  using assms
proof (induction n arbitrary: p s)
  case 0
  have "(\<lambda>q. if p \<le> q \<and> q < p + 0 then (pages s q)\<lparr>kmem_cache := Some k, slab := Some sl\<rparr> else pages s q) = pages s"
    by (rule ext) auto
  then show ?case by simp
next
  case (Suc n)
  let ?s = "s\<lparr>pages := (pages s)(p := (pages s p)\<lparr>kmem_cache := Some k, slab := Some sl\<rparr>)\<rparr>"
  have "p * pg_size + pg_size = Suc p * pg_size" by simp
  with Suc have "link_pages k sl (p * pg_size) (Suc n) s = link_pages k sl (Suc p * pg_size) n ?s"
    by (simp add: upd_page_Some paddr_to_page_def add.commute)
  also have "\<dots> = Some (?s\<lparr>pages := (\<lambda>q. if Suc p \<le> q \<and> q < Suc p + n
    then (pages ?s q)\<lparr>kmem_cache := Some k, slab := Some sl\<rparr> else pages ?s q)\<rparr>)"
    using Suc.IH [of "Suc p" ?s] Suc.prems by simp
  also have "(\<lambda>q. if Suc p \<le> q \<and> q < Suc p + n then (pages ?s q)\<lparr>kmem_cache := Some k, slab := Some sl\<rparr>
      else pages ?s q) = (\<lambda>q. if p \<le> q \<and> q < p + Suc n
      then (pages s q)\<lparr>kmem_cache := Some k, slab := Some sl\<rparr> else pages s q)"
    by (rule ext) auto
  finally show ?case by simp
qed

lemma pmem_inv_cong:
  assumes "pmem_inv s A" "\<And>p. order (f p) = order (pages s p)" "\<And>p. refcnt (f p) = refcnt (pages s p)"
  shows "pmem_inv (s\<lparr>pages := f\<rparr>) A"
  using assms unfolding pmem_inv_def buddy_rep_def by simp


lemma slab_ok_cong:
  assumes "slab_ok s F k sl" "slabs s' sl = slabs s sl" "freearr s' sl = freearr s sl"
    "obj_size (caches s' k) = obj_size (caches s k)" "F' sl = F sl"
    "\<forall>x\<in>block (pm s) (sl div pg_size). pages (pm s') x = pages (pm s) x"
  shows "slab_ok s' F' k sl"
proof -
  note D = slab_okD [OF assms(1)]
  have "block (pm s') (sl div pg_size) = block (pm s) (sl div pg_size)"
    using assms(6) self_block block_cong by blast
  then show ?thesis using D assms(2-6) unfolding slab_ok_def Let_def by auto
qed

text \<open>What allocating and freeing keep: the sizes of the objects, the table of \<^verbatim>\<open>kmalloc\<close>, and the
  slabs.\<close>

definition same_sizes :: "kmalloc_state \<Rightarrow> kmalloc_state \<Rightarrow> bool" where
  "same_sizes s s' \<longleftrightarrow> (\<forall>k. obj_size (caches s' k) = obj_size (caches s k)) \<and>
     kmalloc_allocators s' = kmalloc_allocators s \<and> (\<forall>k. slabs_of s k \<subseteq> slabs_of s' k)"

lemma slab_create_ok:
  assumes inv: "kinv s K F R" and k: "k \<in> K"
  shows "\<exists>r s'. slab_create k s = Some (r, s') \<and> same_sizes s s' \<and>
    kmem s' = kmem s \<and>
    (case r of None \<Rightarrow> s' = s \<and> (\<forall>ord. slab_n_pages (obj_size (caches s k)) \<le> 2 ^ ord \<longrightarrow> freeblocks (pm s) ord = [])
     | Some sl \<Rightarrow> (\<exists>F'. kinv s' K F' R \<and> live_objs s' K F' = live_objs s K F \<and>
         sl \<in> set (cache_free (caches s' k)) \<and>
         free_slots s' F' k = free_slots s F k + slab_n_objs (obj_size (caches s k))))"
proof -
  define sz where "sz = obj_size (caches s k)"
  define S where "S = (\<Union>k\<in>K. slabs_of s k)"
  have C: "cache_ok s F k" and sz: "0 < sz" "slab_n_pages sz \<le> 2 ^ MAX_ORDER"
    using inv k by (auto simp: kinv_def cache_ok_def sz_def)
  have P: "pmem_inv (pm s) (R \<union> page_of ` S)" "0 \<in> R" "R \<inter> page_of ` S = {}"
    using inv by (auto simp: kinv_def S_def)
  from pmem_nalloc_ok [OF P(1) slab_n_pages_pos sz(2)] consider
    "pmem_nalloc (slab_n_pages sz) (pm s) = Some ((ERR_NOMEM, 0), pm s)"
      "\<forall>ord. slab_n_pages sz \<le> 2 ^ ord \<longrightarrow> freeblocks (pm s) ord = []"
  | p m where "pmem_nalloc (slab_n_pages sz) (pm s) = Some ((ERR_OK, p * pg_size), m)"
      "p \<notin> R \<union> page_of ` S" "pmem_inv m (insert p (R \<union> page_of ` S))"
      "slab_n_pages sz \<le> 2 ^ order (pages m p)" "npages m = npages (pm s)"
      "\<forall>h\<in>R \<union> page_of ` S. \<forall>x\<in>block (pm s) h. pages m x = pages (pm s) x"
    by blast
  then show ?thesis
  proof cases
    case 1
    then have "slab_create k s = Some (None, s)" using sz by (simp add: slab_create_def sz_def)
    then show ?thesis using 1(2) by (simp add: sz_def same_sizes_def)
  next
    case 2
    let ?n = "slab_n_objs sz" and ?np = "slab_n_pages sz" and ?sl = "p * pg_size"
    define f where "f = (\<lambda>q. if p \<le> q \<and> q < p + ?np
      then (pages m q)\<lparr>kmem_cache := Some k, slab := Some ?sl\<rparr> else pages m q)"
    let ?c = "(caches s k)\<lparr>cache_free := cache_free (caches s k) @ [?sl]\<rparr>"
    let ?s = "s\<lparr>pm := m\<lparr>pages := f\<rparr>, slabs := (slabs s)(?sl := \<lparr>objs = ?sl + sizeof_slab + sizeof_int * ?n,
                                               slab_free = 0, n_pages = ?np\<rparr>),
      freearr := (freearr s)(?sl := map (\<lambda>i. int i + 1) [0..<?n - 1] @ [-1]),
      caches := (caches s)(k := ?c)\<rparr>"
    have new: "?sl \<notin> S"
    proof
      assume "?sl \<in> S"
      then have "page_of ?sl \<in> page_of ` S" by blast
      then show False using 2(2) by (simp add: page_of_def)
    qed
    have np: "p + ?np \<le> npages m"
      using pmem_inv_bound [OF 2(3), of p] 2(4) by simp
    have cr: "slab_create k s = Some (Some ?sl, ?s)"
      using 2(1) sz slab_n_objs_min [of sz] link_pages_ok [OF np]
      by (simp add: slab_create_def sz_def [symmetric] f_def [symmetric] Let_def)
    define F' where "F' = F(?sl := [0..<?n])"
    define t where "t = ?s"
    have t: "pm t = m\<lparr>pages := f\<rparr>" "kmalloc_allocators t = kmalloc_allocators s" "caches t = (caches s)(k := ?c)"
      "slabs t = (slabs s)(?sl := \<lparr>objs = ?sl + sizeof_slab + sizeof_int * ?n, slab_free = 0, n_pages = ?np\<rparr>)"
      "freearr t = (freearr s)(?sl := map (\<lambda>i. int i + 1) [0..<?n - 1] @ [-1])"
      by (simp_all add: t_def)
    have so: "slabs_of t k' = (if k' = k then insert ?sl (slabs_of s k') else slabs_of s k')" for k'
      by (simp add: slabs_of_def t)
    have S': "(\<Union>k\<in>K. slabs_of t k) = insert ?sl S" using k by (auto simp: so S_def)
    have szs: "obj_size (caches t k') = obj_size (caches s k')" for k' by (simp add: t)
    have old: "slab_ok t F' k' sl" if "k' \<in> K" "sl \<in> slabs_of s k'" for k' sl
    proof (rule slab_ok_cong)
      have sl: "sl \<in> S" "sl \<noteq> ?sl" using that new by (auto simp: S_def)
      then show "slabs t sl = slabs s sl" "freearr t sl = freearr s sl" "F' sl = F sl" by (simp_all add: F'_def t)
      show "slab_ok s F k' sl" using inv that by (auto simp: kinv_def cache_ok_def)
      have h: "page_of sl \<in> R \<union> page_of ` S" "page_of sl \<noteq> p" using sl 2(2) by auto
      have b: "block m (page_of sl) = block (pm s) (page_of sl)"
        using 2(6) h(1) self_block block_cong by blast
      have "block m p \<inter> block m (page_of sl) = {}"
        by (rule pmem_inv_disjoint [OF 2(3)]) (use h in auto)
      moreover have "{p..<p + ?np} \<subseteq> block m p" using 2(4) by (auto simp: block_def)
      ultimately have "f x = pages (pm s) x" if "x \<in> block (pm s) (page_of sl)" for x
        using 2(6) h(1) b that by (auto simp: f_def)
      then show "\<forall>x\<in>block (pm s) (sl div pg_size). pages (pm t) x = pages (pm s) x"
        by (simp add: page_of_def t)
    qed (simp add: szs)
    have fp: "order (f q) = order (pages m q)" "refcnt (f q) = refcnt (pages m q)" for q
      by (simp_all add: f_def)
    have nw: "slab_ok t F' k ?sl"
      using slab_n_objs_min [of sz] chain_init [of ?n] 2(4) fp
      by (auto simp: slab_ok_def Let_def F'_def slab_pages_def block_def szs sz_def [symmetric] t) (simp_all add: f_def)
    have co: "cache_ok t F' k'" if "k' \<in> K" for k'
    proof -
      have "cache_ok s F k'" using inv that by (simp add: kinv_def)
      moreover have "?sl \<notin> slabs_of s k'" using new that by (auto simp: S_def)
      moreover have "?n \<noteq> 0" using slab_n_objs_min [of sz] by simp
      ultimately show ?thesis using old [OF that] nw
        unfolding cache_ok_def so szs by (auto simp: slabs_of_def F'_def t)
    qed
    have "kinv t K F' R"
      unfolding kinv_def S'
      using co P(2,3) 2(2) pmem_inv_cong [OF 2(3), of f] fp by (auto simp: page_of_def t)
    moreover have "is_live t K F' a k' sl i \<longleftrightarrow> is_live s K F a k' sl i" for a k' sl i
    proof (cases "sl = ?sl")
      case True
      moreover have "?sl \<notin> slabs_of s k'" if "k' \<in> K" using new that by (auto simp: S_def)
      ultimately show ?thesis unfolding is_live_def so szs by (auto simp: F'_def sz_def)
    next
      case False
      then show ?thesis unfolding is_live_def so szs by (auto simp: slot_def F'_def t)
    qed
    then have "live_objs t K F' = live_objs s K F" by (simp add: live_objs_def)
    moreover have "free_slots t F' k = free_slots s F k + ?n"
    proof -
      have nf: "?sl \<notin> set (cache_free (caches s k))" using new k by (auto simp: S_def slabs_of_def)
      then have "(\<Sum>y\<in>set (cache_free (caches s k)). length (F' y)) = free_slots s F k"
        unfolding free_slots_def by (intro sum.cong) (auto simp: F'_def)
      with nf show ?thesis by (simp add: free_slots_def t F'_def)
    qed
    ultimately show ?thesis using cr [folded t_def]
      by (intro exI [of _ "Some ?sl"] exI [of _ t]) (auto simp: same_sizes_def szs so sz_def, auto simp: t t_def)
  qed
qed


subsection \<open>Taking and returning a slot\<close>

lemma slab_owner:
  assumes "kinv s K F R" "k \<in> K" "sl \<in> slabs_of s k" "k' \<in> K" "sl \<in> slabs_of s k'"
  shows "k' = k"
proof -
  have "sl div pg_size \<in> slab_pages z sl" for z
    using slab_n_pages_pos [of z] by (simp add: slab_pages_def)
  then show ?thesis using slab_pages_disjoint [OF assms] by blast
qed

lemma kinv_slot:
  assumes inv: "kinv s K F R" and k: "k \<in> K" "sl \<in> slabs_of s k"
    and same: "pm s' = pm s" "same_sizes s s'" "\<forall>k'. slabs_of s' k' = slabs_of s k'"
      "\<forall>k'. k' \<noteq> k \<longrightarrow> caches s' k' = caches s k'"
      "\<forall>sl'. sl' \<noteq> sl \<longrightarrow> slabs s' sl' = slabs s sl' \<and> freearr s' sl' = freearr s sl' \<and> F' sl' = F sl'"
    and slab: "objs (slabs s' sl) = objs (slabs s sl)" "n_pages (slabs s' sl) = n_pages (slabs s sl)"
      "length (freearr s' sl) = length (freearr s sl)" "distinct (F' sl)"
      "chain (freearr s' sl) (slab_free (slabs s' sl)) (F' sl)"
    and lists: "distinct (cache_free (caches s' k))" "distinct (cache_full (caches s' k))"
      "\<forall>x\<in>set (cache_free (caches s' k)). F' x \<noteq> []" "\<forall>x\<in>set (cache_full (caches s' k)). F' x = []"
  shows "kinv s' K F' R \<and> live_objs s' K F' = live_objs s K F'"
proof -
  have sz: "obj_size (caches s' k') = obj_size (caches s k')" for k' using same(2) by (simp add: same_sizes_def)
  have ob: "objs (slabs s' sl') = objs (slabs s sl')" for sl' using same(5) slab(1) by (cases "sl' = sl") auto
  have ok: "slab_ok s' F' k' sl'" if "k' \<in> K" "sl' \<in> slabs_of s k'" for k' sl'
  proof -
    have o: "slab_ok s F k' sl'" using inv that by (auto simp: kinv_def cache_ok_def)
    show ?thesis
    proof (cases "sl' = sl")
      case True
      then show ?thesis using slab_okD [OF o] slab same(1) sz unfolding slab_ok_def Let_def by auto
    next
      case False
      then show ?thesis using same(1,5) sz by (intro slab_ok_cong [OF o]) auto
    qed
  qed
  have other: "sl \<notin> slabs_of s k'" if "k' \<in> K" "k' \<noteq> k" for k'
    using slab_owner [OF inv k that(1)] that(2) by blast
  have "cache_ok s' F' k'" if "k' \<in> K" for k'
  proof (cases "k' = k")
    case True
    have "0 < obj_size (caches s k) \<and> slab_n_pages (obj_size (caches s k)) \<le> 2 ^ MAX_ORDER"
      using inv k by (auto simp: kinv_def cache_ok_def)
    then show ?thesis using True lists ok [OF that] sz same(3) unfolding cache_ok_def by simp
  next
    case False
    then have c: "caches s' k' = caches s k'" using same(4) by simp
    have "F' x = F x" if "x \<in> slabs_of s k'" for x using other [OF \<open>k' \<in> K\<close> False] that same(5) by metis
    then show ?thesis using inv that ok [OF that] same(3) c unfolding kinv_def cache_ok_def by (simp add: slabs_of_def)
  qed
  then have "kinv s' K F' R" using inv same(1,3) by (simp add: kinv_def)
  then show ?thesis using same(3) sz ob by (simp add: live_objs_def is_live_def slot_def)
qed

lemma slot_unique:
  assumes "kinv s K F R" "k \<in> K" "sl \<in> slabs_of s k" "i < slab_n_objs (obj_size (caches s k))"
    "k' \<in> K" "sl' \<in> slabs_of s k'" "i' < slab_n_objs (obj_size (caches s k'))" "slot s k sl i = slot s k' sl' i'"
  shows "k = k' \<and> sl = sl' \<and> i = i'"
proof -
  have ok: "slab_ok s F k sl" "slab_ok s F k' sl'" "0 < obj_size (caches s k)" "0 < obj_size (caches s k')"
    using assms by (auto simp: kinv_def cache_ok_def)
  have "slot s k sl i div pg_size \<in> slab_pages (obj_size (caches s k)) sl"
    "slot s k sl i div pg_size \<in> slab_pages (obj_size (caches s k')) sl'"
    using slot_bounds [OF ok(1) assms(4) ok(3)] slot_bounds [OF ok(2) assms(7) ok(4)] ok(3,4) assms(8) by simp_all
  then have "k = k'" "sl = sl'" using slab_pages_disjoint [OF assms(1-3,5,6)] by auto
  with assms(8) ok(3) show ?thesis by (simp add: slot_def)
qed

lemma live_update:
  assumes inv: "kinv s K F R" and k: "k \<in> K" "sl \<in> slabs_of s k"
  shows "live_objs s K (F(sl := xs)) =
    {a \<in> live_objs s K F. \<forall>i. a \<noteq> slot s k sl i \<or> slab_n_objs (obj_size (caches s k)) \<le> i} \<union>
    slot s k sl ` {i. i < slab_n_objs (obj_size (caches s k)) \<and> i \<notin> set xs}" (is "?l = ?r")
proof (rule set_eqI)
  fix a
  show "a \<in> ?l \<longleftrightarrow> a \<in> ?r"
  proof
    assume "a \<in> ?l"
    then obtain k' sl' i where l: "is_live s K (F(sl := xs)) a k' sl' i" by (auto simp: live_objs_def)
    show "a \<in> ?r"
    proof (cases "sl' = sl")
      case True
      then have "k' = k" using slab_owner [OF inv k] l by (auto simp: is_live_def)
      then show ?thesis using l True by (auto simp: is_live_def)
    next
      case False
      then have 1: "is_live s K F a k' sl' i" using l by (simp add: is_live_def)
      have "a \<noteq> slot s k sl j" if "j < slab_n_objs (obj_size (caches s k))" for j
        using slot_unique [OF inv k that, of k' sl' i] l False by (auto simp: is_live_def)
      then have "\<forall>j. a \<noteq> slot s k sl j \<or> slab_n_objs (obj_size (caches s k)) \<le> j"
        using not_le by blast
      with 1 show ?thesis unfolding live_objs_def by blast
    qed
  next
    assume "a \<in> ?r"
    then show "a \<in> ?l"
    proof
      assume "a \<in> slot s k sl ` {i. i < slab_n_objs (obj_size (caches s k)) \<and> i \<notin> set xs}"
      then show ?thesis using k by (auto simp: live_objs_def is_live_def)
    next
      assume l: "a \<in> {a \<in> live_objs s K F. \<forall>i. a \<noteq> slot s k sl i \<or> slab_n_objs (obj_size (caches s k)) \<le> i}"
      then obtain k' sl' i where i: "is_live s K F a k' sl' i" by (auto simp: live_objs_def)
      have "sl' \<noteq> sl"
      proof
        assume "sl' = sl"
        then have "k' = k" using slab_owner [OF inv k] i by (auto simp: is_live_def)
        then show False using l i \<open>sl' = sl\<close> by (auto simp: is_live_def)
      qed
      then show ?thesis using i by (auto simp: live_objs_def is_live_def)
    qed
  qed
qed


lemma live_take:
  assumes inv: "kinv s K F R" and k: "k \<in> K" "sl \<in> slabs_of s k" and F: "F sl = x # xs" "x \<notin> set xs"
    and x: "x < slab_n_objs (obj_size (caches s k))"
  shows "live_objs s K (F(sl := xs)) = insert (slot s k sl x) (live_objs s K F)"
    and "slot s k sl x \<notin> live_objs s K F"
proof -
  let ?n = "slab_n_objs (obj_size (caches s k))"
  have "{i. i < ?n \<and> i \<notin> set xs} = insert x {i. i < ?n \<and> i \<notin> set (F sl)}" using F x by auto
  with live_update [OF inv k, of xs] live_update [OF inv k, of "F sl"]
  show "live_objs s K (F(sl := xs)) = insert (slot s k sl x) (live_objs s K F)" by auto
  show "slot s k sl x \<notin> live_objs s K F"
  proof
    assume "slot s k sl x \<in> live_objs s K F"
    then obtain k' sl' i where "is_live s K F (slot s k sl x) k' sl' i" by (auto simp: live_objs_def)
    then show False using slot_unique [OF inv k x, of k' sl' i] F by (auto simp: is_live_def)
  qed
qed

lemma live_put:
  assumes inv: "kinv s K F R" and l: "is_live s K F a k sl i"
  shows "live_objs s K (F(sl := i # F sl)) = live_objs s K F - {a}"
proof -
  let ?n = "slab_n_objs (obj_size (caches s k))"
  have k: "k \<in> K" "sl \<in> slabs_of s k" "i < ?n" "a = slot s k sl i" using l by (auto simp: is_live_def)
  have "j = i" if "j < ?n" "slot s k sl j = a" for j
    using slot_unique [OF inv k(1,2) that(1) k(1,2,3)] that(2) k(4) by simp
  then have "slot s k sl ` {j. j < ?n \<and> j \<notin> set (i # F sl)} = slot s k sl ` {j. j < ?n \<and> j \<notin> set (F sl)} - {a}"
    using k(4) by auto
  moreover have "a \<notin> {b \<in> live_objs s K F. \<forall>j. b \<noteq> slot s k sl j \<or> ?n \<le> j}" using k by auto
  ultimately show ?thesis
    using live_update [OF inv k(1,2), of "i # F sl"] live_update [OF inv k(1,2), of "F sl"] by auto
qed

lemma take_slot_ok:
  assumes inv: "kinv s K F R" and k: "k \<in> K" and sl: "sl \<in> set (cache_free (caches s k))"
  shows "\<exists>a s' F'. take_slot k sl s = Some (a, s') \<and> same_sizes s s' \<and>
    a \<notin> live_objs s K F \<and> kinv s' K F' R \<and> live_objs s' K F' = insert a (live_objs s K F) \<and>
    Suc (free_slots s' F' k) = free_slots s F k \<and> (\<exists>sl i. is_live s' K F' a k sl i) \<and> kmem s' = kmem s"
proof -
  have slk: "sl \<in> slabs_of s k" using sl by (simp add: slabs_of_def)
  have co: "cache_ok s F k" and ok: "slab_ok s F k sl" using inv k slk by (auto simp: kinv_def cache_ok_def)
  note D = slab_okD [OF ok]
  obtain x xs where F: "F sl = x # xs" using co sl by (cases "F sl") (auto simp: cache_ok_def)
  have x: "slab_free (slabs s sl) = int x" "x < length (freearr s sl)" "chain (freearr s sl) (freearr s sl ! x) xs"
    "x \<notin> set xs" "distinct xs" using D(5,6) F by auto
  define i' where "i' = freearr s sl ! x"
  define s1 where "s1 = s\<lparr>slabs := (slabs s)(sl := (slabs s sl)\<lparr>slab_free := i'\<rparr>)\<rparr>"
  define s' where "s' = (if i' = -1
    then s1\<lparr>caches := (caches s)(k := (caches s k)\<lparr>cache_free := remove1 sl (cache_free (caches s k)),
                                                   cache_full := cache_full (caches s k) @ [sl]\<rparr>)\<rparr> else s1)"
  have t: "take_slot k sl s = Some (slot s k sl x, s')"
    using x by (simp add: take_slot_def slot_def Let_def s1_def s'_def i'_def)
  have full: "i' = -1 \<longleftrightarrow> xs = []" using chain_Nil_iff [OF x(3)] by (simp add: i'_def)
  have lists: "distinct (cache_free (caches s k))" "distinct (cache_full (caches s k))"
    "\<forall>y\<in>set (cache_free (caches s k)). F y \<noteq> []" "\<forall>y\<in>set (cache_full (caches s k)). F y = []"
    using co by (auto simp: cache_ok_def)
  have nf: "sl \<notin> set (cache_full (caches s k))" using lists(4) F by auto
  have so: "\<forall>k'. slabs_of s' k' = slabs_of s k'"
    using sl lists(1) by (auto simp: slabs_of_def s'_def s1_def)
  then have sz: "same_sizes s s'" by (simp add: same_sizes_def) (simp add: s'_def s1_def)
  have "kinv s' K (F(sl := xs)) R \<and> live_objs s' K (F(sl := xs)) = live_objs s K (F(sl := xs))"
  proof (rule kinv_slot [OF inv k slk _ sz so])
    show "\<forall>y\<in>set (cache_free (caches s' k)). (F(sl := xs)) y \<noteq> []"
      using lists full by (auto simp: s'_def s1_def)
    show "\<forall>y\<in>set (cache_full (caches s' k)). (F(sl := xs)) y = []"
      using lists full nf by (auto simp: s'_def s1_def)
  qed (use lists nf x in \<open>auto simp: s'_def s1_def i'_def\<close>)
  moreover have "Suc (free_slots s' (F(sl := xs)) k) = free_slots s F k"
  proof -
    let ?S = "set (cache_free (caches s k))"
    have "free_slots s F k = Suc (length xs) + (\<Sum>y\<in>?S - {sl}. length (F y))"
      using sl F by (simp add: free_slots_def sum.remove [of ?S sl])
    moreover have "(\<Sum>y\<in>?S - {sl}. length ((F(sl := xs)) y)) = (\<Sum>y\<in>?S - {sl}. length (F y))"
      by (rule sum.cong) auto
    moreover have "set (cache_free (caches s' k)) = (if xs = [] then ?S - {sl} else ?S)"
      using full lists(1) by (auto simp: s'_def s1_def)
    ultimately show ?thesis using sl by (simp add: free_slots_def sum.remove [of ?S sl])
  qed
  moreover have "is_live s' K (F(sl := xs)) (slot s k sl x) k sl x"
    using k slk so sz x(2,4) D(4) by (simp add: is_live_def slot_def same_sizes_def) (simp add: s'_def s1_def)
  moreover have "kmem s' = kmem s" by (simp add: s'_def s1_def)
  ultimately show ?thesis using t sz live_take [OF inv k slk F x(4)] x(2) D(4)
    by (intro exI [of _ "slot s k sl x"] exI [of _ s'] exI [of _ "F(sl := xs)"]) auto
qed

lemma kmem_cache_free_ok:
  assumes inv: "kinv s K F R" and l: "is_live s K F a k sl i"
  shows "\<exists>s' F'. kmem_cache_free k a s = Some s' \<and> same_sizes s s' \<and> kinv s' K F' R \<and>
    live_objs s' K F' = live_objs s K F - {a}"
proof -
  have k: "k \<in> K" "sl \<in> slabs_of s k" "i < slab_n_objs (obj_size (caches s k))" "i \<notin> set (F sl)"
    using l by (auto simp: is_live_def)
  note L = live_page [OF inv l] and D = slab_okD [OF live_page(2) [OF inv l]]
  have co: "cache_ok s F k" using inv k by (auto simp: kinv_def)
  have pg: "paddr_to_page a < npages (pm s)"
  proof -
    have "sl div pg_size \<in> R \<union> page_of ` (\<Union>k\<in>K. slabs_of s k)" using k by (auto simp: page_of_def)
    moreover have "pmem_inv (pm s) (R \<union> page_of ` (\<Union>k\<in>K. slabs_of s k))" using inv by (simp add: kinv_def)
    ultimately have "sl div pg_size + 2 ^ order (pages (pm s) (sl div pg_size)) \<le> npages (pm s)"
      by (rule pmem_inv_bound [rotated])
    moreover have "a div pg_size \<in> block (pm s) (sl div pg_size)" using D(7) L(1) by blast
    ultimately show ?thesis by (simp add: paddr_to_page_def block_def)
  qed
  define full where "full = (slab_free (slabs s sl) = -1)"
  have fl: "full \<longleftrightarrow> F sl = []" using chain_Nil_iff [OF D(6)] by (simp add: full_def)
  let ?F = "F(sl := i # F sl)"
  define s1 where "s1 = s\<lparr>kmem := memset (kmem s) a 0x2b (obj_size (caches s k)),
    freearr := (freearr s)(sl := (freearr s sl)[i := slab_free (slabs s sl)]),
    slabs := (slabs s)(sl := (slabs s sl)\<lparr>slab_free := int i\<rparr>)\<rparr>"
  define s' where "s' = (if full
    then s1\<lparr>caches := (caches s)(k := (caches s k)\<lparr>cache_full := remove1 sl (cache_full (caches s k)),
                                                   cache_free := cache_free (caches s k) @ [sl]\<rparr>)\<rparr> else s1)"
  have t: "kmem_cache_free k a s = Some s'"
    using pg L(3,5,6,7) k(3) D(4)
    by (simp add: kmem_cache_free_def paddr_to_page_def Let_def s'_def s1_def full_def)
  have lists: "distinct (cache_free (caches s k))" "distinct (cache_full (caches s k))"
    "\<forall>y\<in>set (cache_free (caches s k)). F y \<noteq> []" "\<forall>y\<in>set (cache_full (caches s k)). F y = []"
    using co by (auto simp: cache_ok_def)
  have wh: "sl \<in> set (cache_full (caches s k)) \<longleftrightarrow> full" "sl \<in> set (cache_free (caches s k)) \<longleftrightarrow> \<not> full"
    using lists fl k(2) by (auto simp: slabs_of_def)
  have so: "\<forall>k'. slabs_of s' k' = slabs_of s k'"
    using wh lists(2) by (auto simp: slabs_of_def s'_def s1_def)
  then have sz: "same_sizes s s'" by (simp add: same_sizes_def) (simp add: s'_def s1_def)
  have "kinv s' K ?F R \<and> live_objs s' K ?F = live_objs s K ?F"
  proof (rule kinv_slot [OF inv k(1,2) _ sz so])
    show "chain (freearr s' sl) (slab_free (slabs s' sl)) (?F sl)"
      using chain_update [OF k(4)] D(4,6) k(3) by (auto simp: s'_def s1_def)
    show "\<forall>y\<in>set (cache_full (caches s' k)). ?F y = []"
      using lists wh by (auto simp: s'_def s1_def)
  qed (use lists wh k D(5) in \<open>auto simp: s'_def s1_def\<close>)
  then show ?thesis using t sz live_put [OF inv l] by auto
qed


subsection \<open>The interface\<close>

lemma kinv_kmem: "kinv (s\<lparr>kmem := m\<rparr>) K F R = kinv s K F R" "live_objs (s\<lparr>kmem := m\<rparr>) K F = live_objs s K F"
  by (simp_all add: kinv_def cache_ok_def slabs_of_def slab_ok_def live_objs_def is_live_def slot_def)

lemma same_sizes_trans: "same_sizes s s1 \<Longrightarrow> same_sizes s1 s2 \<Longrightarrow> same_sizes s s2"
  unfolding same_sizes_def by (metis subset_trans)

lemma same_sizes_kmem: "same_sizes s (s'\<lparr>kmem := m\<rparr>) = same_sizes s s'"
  by (simp add: same_sizes_def slabs_of_def)

lemma kmem_cache_alloc_ok:
  assumes inv: "kinv s K F R" and k: "k \<in> K"
  shows "\<exists>x s' F'. kmem_cache_alloc k s = Some (x, s') \<and> same_sizes s s' \<and> kinv s' K F' R \<and>
    (case x of None \<Rightarrow> live_objs s' K F' = live_objs s K F \<and> free_slots s F k = 0 \<and>
        (\<forall>ord. slab_n_pages (obj_size (caches s k)) \<le> 2 ^ ord \<longrightarrow> freeblocks (pm s) ord = [])
     | Some a \<Rightarrow> a \<notin> live_objs s K F \<and> live_objs s' K F' = insert a (live_objs s K F) \<and>
        (\<exists>sl i. is_live s' K F' a k sl i) \<and> kmem s' = memset (kmem s) a 0x2b (obj_size (caches s k)) \<and>
        Suc (free_slots s' F' k) = (if free_slots s F k = 0 then slab_n_objs (obj_size (caches s k)) else free_slots s F k))"
proof -
  have pos: "cache_free (caches s k) \<noteq> [] \<Longrightarrow> free_slots s F k > 0"
    using inv k unfolding kinv_def cache_ok_def free_slots_def
    by (metis (no_types, lifting) List.finite_set bot_nat_0.not_eq_extremum length_0_conv list.set_intros(1) neq_Nil_conv sum_eq_0_iff)
  let ?get = "case cache_free (caches s k) of [] \<Rightarrow> slab_create k s | sl # _ \<Rightarrow> Some (Some sl, s)"
  obtain r s1 F1 where r: "?get = Some (r, s1)" "same_sizes s s1" "kinv s1 K F1 R"
    "live_objs s1 K F1 = live_objs s K F" "\<forall>sl. r = Some sl \<longrightarrow> sl \<in> set (cache_free (caches s1 k))"
    "kmem s1 = kmem s" "r = None \<longrightarrow> free_slots s F k = 0 \<and>
      (\<forall>ord. slab_n_pages (obj_size (caches s k)) \<le> 2 ^ ord \<longrightarrow> freeblocks (pm s) ord = [])"
    "r \<noteq> None \<longrightarrow> free_slots s1 F1 k =
      (if free_slots s F k = 0 then slab_n_objs (obj_size (caches s k)) else free_slots s F k)"
  proof (cases "cache_free (caches s k)")
    case Nil
    obtain r s1 where c: "slab_create k s = Some (r, s1)" "same_sizes s s1" "kmem s1 = kmem s"
      "case r of None \<Rightarrow> s1 = s \<and> (\<forall>ord. slab_n_pages (obj_size (caches s k)) \<le> 2 ^ ord \<longrightarrow> freeblocks (pm s) ord = [])
       | Some sl \<Rightarrow> (\<exists>F'. kinv s1 K F' R \<and> live_objs s1 K F' = live_objs s K F \<and>
         sl \<in> set (cache_free (caches s1 k)) \<and>
         free_slots s1 F' k = free_slots s F k + slab_n_objs (obj_size (caches s k)))"
      using slab_create_ok [OF inv k] by blast
    have z: "free_slots s F k = 0" using Nil by (simp add: free_slots_def)
    show ?thesis
    proof (cases r)
      case None
      then show ?thesis using c Nil inv z by (intro that [of r s1 F]) simp_all
    next
      case (Some sl)
      then obtain F' where "kinv s1 K F' R" "live_objs s1 K F' = live_objs s K F"
        "sl \<in> set (cache_free (caches s1 k))" "free_slots s1 F' k = slab_n_objs (obj_size (caches s k))"
        using c(4) z by auto
      then show ?thesis using c Nil Some z by (intro that [of r s1 F']) simp_all
    qed
  next
    case (Cons sl sls)
    then show ?thesis using inv pos by (intro that [of "Some sl" s F]) (simp_all add: same_sizes_def)
  qed
  show ?thesis
  proof (cases r)
    case None
    then show ?thesis using r by (intro exI [of _ None] exI [of _ s1] exI [of _ F1]) (simp add: kmem_cache_alloc_def)
  next
    case (Some sl)
    obtain a s2 F2 where t: "take_slot k sl s1 = Some (a, s2)" "same_sizes s1 s2" "a \<notin> live_objs s1 K F1"
      "kinv s2 K F2 R" "live_objs s2 K F2 = insert a (live_objs s1 K F1)"
      "Suc (free_slots s2 F2 k) = free_slots s1 F1 k" "\<exists>sl i. is_live s2 K F2 a k sl i" "kmem s2 = kmem s1"
      using take_slot_ok [OF r(3) k, of sl] r(5) Some by blast
    let ?s = "s2\<lparr>kmem := memset (kmem s2) a 0x2b (obj_size (caches s2 k))\<rparr>"
    have "kmem_cache_alloc k s = Some (Some a, ?s)" using r(1) Some t(1) by (simp add: kmem_cache_alloc_def)
    moreover have "same_sizes s ?s" using same_sizes_trans [OF r(2) t(2)] by (simp add: same_sizes_kmem)
    moreover have "free_slots ?s F2 k = free_slots s2 F2 k" by (simp add: free_slots_def)
    moreover have "is_live ?s K F2 a k = is_live s2 K F2 a k"
      by (intro ext) (simp add: is_live_def slabs_of_def slot_def)
    moreover have "obj_size (caches s2 k) = obj_size (caches s k)"
      using same_sizes_trans [OF r(2) t(2)] by (simp add: same_sizes_def)
    ultimately show ?thesis using t r(4,6,8) Some
      by (intro exI [of _ "Some a"] exI [of _ ?s] exI [of _ F2]) (simp add: kinv_kmem)
  qed
qed

text \<open>\<open>A\<close> are the live objects of the clients of \<^verbatim>\<open>kmalloc\<close>; the live object allocators are among the
  others.\<close>

definition kclients :: "kmalloc_state \<Rightarrow> addr set \<Rightarrow> bool" where
  "kclients s A \<longleftrightarrow> (\<exists>K F R B. kinv s K F R \<and> live_objs s K F = A \<union> B \<and> A \<inter> B = {} \<and>
     kmalloc_allocators s \<noteq> [] \<and> (\<forall>(k, sz)\<in>set (kmalloc_allocators s). k \<in> K \<and> obj_size (caches s k) = sz))"

lemma find_allocator_ok:
  assumes "as \<noteq> []" "sz \<le> snd (last as)"
  shows "\<exists>k sz'. find_allocator sz as = Some k \<and> (k, sz') \<in> set as \<and> sz \<le> sz'"
  using assms
proof (induction sz as rule: find_allocator.induct)
  case (2 sz k sz' as)
  then show ?case by (cases "as = []") (auto split: if_splits)
qed simp

lemma obj_region_same:
  assumes "kinv s K F R" "kinv s' K F' R" "same_sizes s s'" "a \<in> live_objs s K F" "a \<in> live_objs s' K F'"
  shows "obj_region s' a = obj_region s a"
proof -
  obtain k sl i where l: "is_live s K F a k sl i" using assms(4) by (auto simp: live_objs_def)
  obtain k' sl' i' where l': "is_live s' K F' a k' sl' i'" using assms(5) by (auto simp: live_objs_def)
  have sz: "obj_size (caches s' x) = obj_size (caches s x)" for x using assms(3) by (simp add: same_sizes_def)
  have "k \<in> K" "sl \<in> slabs_of s' k" using l assms(3) by (auto simp: is_live_def same_sizes_def)
  moreover have "a div pg_size \<in> slab_pages (obj_size (caches s' k)) sl" using live_page(1) [OF assms(1) l] sz by simp
  ultimately have "k = k'"
    using slab_pages_disjoint [OF assms(2), of k sl k' sl' "a div pg_size"] l' live_page(1) [OF assms(2) l']
    by (auto simp: is_live_def)
  then show ?thesis using live_region [OF assms(1) l] live_region [OF assms(2) l'] sz by simp
qed


lemma kclientsI:
  assumes "kinv s' K F' R" "live_objs s' K F' = A \<union> B" "A \<inter> B = {}" "same_sizes s s'"
    "kmalloc_allocators s \<noteq> []" "\<forall>(k, sz)\<in>set (kmalloc_allocators s). k \<in> K \<and> obj_size (caches s k) = sz"
  shows "kclients s' A"
  using assms unfolding kclients_def same_sizes_def
  by (intro exI [of _ K] exI [of _ F'] exI [of _ R] exI [of _ B]) auto

lemma kmalloc_ok:
  assumes "kclients s A"
  shows "\<exists>x s'. kmalloc sz s = Some (x, s') \<and>
      (case x of None \<Rightarrow> kclients s' A
       | Some a \<Rightarrow> a \<notin> A \<and> kclients s' (insert a A) \<and>
           sz \<le> card (obj_region s' a) \<and> kmem s' = memset (kmem s) a 0x2b (card (obj_region s' a))) \<and>
      (\<forall>b\<in>A. obj_region s' b = obj_region s b)"
proof -
  obtain K F R B where inv: "kinv s K F R" "live_objs s K F = A \<union> B" "A \<inter> B = {}"
    and tab: "kmalloc_allocators s \<noteq> []" "\<forall>(k, sz)\<in>set (kmalloc_allocators s). k \<in> K \<and> obj_size (caches s k) = sz"
    using assms unfolding kclients_def by blast
  show ?thesis
  proof (cases "sz = 0 \<or> sz > snd (last (kmalloc_allocators s))")
    case True
    then have "kmalloc sz s = Some (None, s)" using tab(1) by (auto simp: kmalloc_def)
    then show ?thesis using assms by simp
  next
    case False
    then obtain k sz' where k: "find_allocator sz (kmalloc_allocators s) = Some k" "(k, sz') \<in> set (kmalloc_allocators s)" "sz \<le> sz'"
      using find_allocator_ok [OF tab(1), of sz] by auto
    then have kK: "k \<in> K" "sz \<le> obj_size (caches s k)" using tab(2) by auto
    obtain x s' F' where x: "kmem_cache_alloc k s = Some (x, s')" "same_sizes s s'" "kinv s' K F' R"
      "case x of None \<Rightarrow> live_objs s' K F' = live_objs s K F
       | Some a \<Rightarrow> a \<notin> live_objs s K F \<and> live_objs s' K F' = insert a (live_objs s K F) \<and>
          (\<exists>sl i. is_live s' K F' a k sl i) \<and> kmem s' = memset (kmem s) a 0x2b (obj_size (caches s k))"
      using kmem_cache_alloc_ok [OF inv(1) kK(1)] by (fastforce split: option.splits)
    have eq: "kmalloc sz s = Some (x, s')" using False tab(1) k(1) x(1) by (simp add: kmalloc_def)
    have reg: "\<forall>b\<in>A. obj_region s' b = obj_region s b"
      using obj_region_same [OF inv(1) x(3,2)] x(4) inv(2) by (auto split: option.splits)
    show ?thesis
    proof (cases x)
      case None
      then have "kclients s' A" using x inv tab by (intro kclientsI [OF x(3) _ inv(3) x(2) tab]) simp
      then show ?thesis using eq reg None by simp
    next
      case (Some a)
      then have "live_objs s' K F' = insert a A \<union> B" "insert a A \<inter> B = {}" "a \<notin> A" using x(4) inv(2,3) by auto
      then have "kclients s' (insert a A)" "a \<notin> A" using kclientsI [OF x(3) _ _ x(2) tab] by blast+
      moreover have "card (obj_region s' a) = obj_size (caches s k)"
        using x(2,4) Some live_region [OF x(3)] by (auto simp: same_sizes_def)
      ultimately show ?thesis using eq reg Some x(4) kK(2) by simp
    qed
  qed
qed

lemma kfree_ok:
  assumes "kclients s A" "a \<in> A"
  shows "\<exists>s'. kfree a s = Some s' \<and> kclients s' (A - {a}) \<and> (\<forall>b\<in>A - {a}. obj_region s' b = obj_region s b)"
proof -
  obtain K F R B where inv: "kinv s K F R" "live_objs s K F = A \<union> B" "A \<inter> B = {}"
    and tab: "kmalloc_allocators s \<noteq> []" "\<forall>(k, sz)\<in>set (kmalloc_allocators s). k \<in> K \<and> obj_size (caches s k) = sz"
    using assms(1) unfolding kclients_def by blast
  obtain k sl i where l: "is_live s K F a k sl i" using assms(2) inv(2) live_objsD by blast
  obtain s' F' where f: "kmem_cache_free k a s = Some s'" "same_sizes s s'" "kinv s' K F' R"
    "live_objs s' K F' = live_objs s K F - {a}" using kmem_cache_free_ok [OF inv(1) l] by blast
  have "paddr_to_page a < npages (pm s)"
    using f(1) by (auto simp: kmem_cache_free_def Let_def split: if_splits)
  then have "kfree a s = Some s'"
    using f(1) live_page(4) [OF inv(1) l] by (simp add: kfree_def paddr_to_page_def)
  moreover have "kclients s' (A - {a})"
    by (rule kclientsI [OF f(3) _ _ f(2) tab, of _ B]) (use f(4) inv(2,3) assms(2) in auto)
  moreover have "\<forall>b\<in>A - {a}. obj_region s' b = obj_region s b"
    using obj_region_same [OF inv(1) f(3,2)] f(4) inv(2) by auto
  ultimately show ?thesis by blast
qed

interpretation km: allocator kclients kmalloc kfree obj_region "\<lambda>sz. True"
proof
  show "obj_region s a \<inter> obj_region s b = {}" if c: "kclients s A" "a \<in> A" "b \<in> A" "a \<noteq> b" for s A a b
  proof -
    obtain K F R B where inv: "kinv s K F R" "live_objs s K F = A \<union> B"
      using c(1) unfolding kclients_def by blast
    then obtain k sl i k' sl' i' where "is_live s K F a k sl i" "is_live s K F b k' sl' i'"
      using c live_objsD by (metis UnI1)
    then show ?thesis using live_disjoint [OF inv(1)] c(4) by blast
  qed
  show "\<exists>x s'. kmalloc r s = Some (x, s') \<and>
      (case x of None \<Rightarrow> kclients s' A | Some a \<Rightarrow> a \<notin> A \<and> kclients s' (insert a A)) \<and>
      (\<forall>b\<in>A. obj_region s' b = obj_region s b)" if "kclients s A" for s A r
    using kmalloc_ok [OF that, of r] by (fastforce split: option.splits)
qed (use kfree_ok in blast)

end
