(* ===== verification/Pmem_Init.thy ===== *)
theory Pmem_Init
  imports Pmem_Inv
begin

section \<open>From the boot allocator to the buddy allocator\<close>

text \<open>
  \<^verbatim>\<open>pmem_init\<close> hands the memory over: it allocates \<^verbatim>\<open>pagemap\<close> from the boot allocator, gives the pages of
  the boot bitmap back, and builds the free lists from the bitmap. The lemmas follow the three loops of
  \<^verbatim>\<open>freeblocks_init\<close>, each of which extends a tiling of the pages below some address.
\<close>

subsection \<open>Bitmap bits\<close>

lemma isset_bit: "BITMAP_ISSET i b \<longleftrightarrow> bit (b (i div 8)) (i mod 8)"
  by (simp add: BITMAP_ISSET_def bit_iff_and_push_bit_not_eq_0)

lemma isset_set: "BITMAP_ISSET i (BITMAP_SET j b) \<longleftrightarrow> i = j \<or> BITMAP_ISSET i b"
proof -
  have "i mod 8 < 8" by simp
  then have *: "i mod 8 < LENGTH(8)" by simp
  have "i = j \<longleftrightarrow> i div 8 = j div 8 \<and> i mod 8 = j mod 8" by (metis div_mult_mod_eq)
  with * show ?thesis
    by (auto simp: isset_bit BITMAP_SET_def bit_simps)
qed

lemma isset_unset: "BITMAP_ISSET i (BITMAP_UNSET j b) \<longleftrightarrow> i \<noteq> j \<and> BITMAP_ISSET i b"
proof -
  have "i mod 8 < 8" by simp
  then have *: "i mod 8 < LENGTH(8)" by simp
  have "i = j \<longleftrightarrow> i div 8 = j div 8 \<and> i mod 8 = j mod 8" by (metis div_mult_mod_eq)
  with * show ?thesis
    by (auto simp: isset_bit BITMAP_UNSET_def bit_simps)
qed

lemma bitmap_alloc_loop_ok:
  assumes "\<forall>j. i \<le> j \<and> j < i + n \<longrightarrow> \<not> BITMAP_ISSET j b"
  shows "\<exists>b'. bitmap_alloc_loop i n b = Some b' \<and>
           (\<forall>j. BITMAP_ISSET j b' \<longleftrightarrow> BITMAP_ISSET j b \<or> i \<le> j \<and> j < i + n)"
  using assms
proof (induction n arbitrary: i b)
  case (Suc n)
  have "\<forall>j. Suc i \<le> j \<and> j < Suc i + n \<longrightarrow> \<not> BITMAP_ISSET j (BITMAP_SET i b)"
    using Suc.prems by (simp add: isset_set)
  then obtain b' where "bitmap_alloc_loop (Suc i) n (BITMAP_SET i b) = Some b'"
    "\<forall>j. BITMAP_ISSET j b' \<longleftrightarrow> BITMAP_ISSET j (BITMAP_SET i b) \<or> Suc i \<le> j \<and> j < Suc i + n"
    using Suc.IH by blast
  with Suc.prems show ?case by (auto simp: isset_set)
qed auto

lemma bitmap_free_loop_ok:
  assumes "\<forall>j. i \<le> j \<and> j < i + n \<longrightarrow> BITMAP_ISSET j b"
  shows "\<exists>b'. bitmap_free_loop i n b = Some b' \<and>
           (\<forall>j. BITMAP_ISSET j b' \<longleftrightarrow> BITMAP_ISSET j b \<and> \<not> (i \<le> j \<and> j < i + n))"
  using assms
proof (induction n arbitrary: i b)
  case (Suc n)
  have "\<forall>j. Suc i \<le> j \<and> j < Suc i + n \<longrightarrow> BITMAP_ISSET j (BITMAP_UNSET i b)"
    using Suc.prems by (simp add: isset_unset)
  then obtain b' where "bitmap_free_loop (Suc i) n (BITMAP_UNSET i b) = Some b'"
    "\<forall>j. BITMAP_ISSET j b' \<longleftrightarrow> BITMAP_ISSET j (BITMAP_UNSET i b) \<and> \<not> (Suc i \<le> j \<and> j < Suc i + n)"
    using Suc.IH by blast
  with Suc.prems show ?case by (auto simp: isset_unset)
qed auto

subsection \<open>The boot allocator\<close>

text \<open>While the kernel boots, nothing is given back: the first \<open>m\<close> pages are allocated, the rest is
  free.\<close>

definition boot_state :: "pmem \<Rightarrow> nat \<Rightarrow> bool" where
  "boot_state s m \<longleftrightarrow> pg_aligned (pmem_start s) \<and> pg_aligned (pmem_end s) \<and> pmem_start s < pmem_end s \<and>
     bitmap_end s = (pmem_end s - pmem_start s) div pg_size \<and> bitmap_contig_start s = m \<and>
     m \<le> bitmap_end s \<and> (\<forall>i<bitmap_end s. BITMAP_ISSET i (bitmap s) \<longleftrightarrow> i < m)"

lemma bitmap_find_loop_prefix:
  assumes "\<forall>i<i0 + k. BITMAP_ISSET i b \<longleftrightarrow> i < m" "0 < n"
    "i0 \<le> m \<and> first = i0 \<and> c = 0 \<or> m \<le> i0 \<and> first = m \<and> c = i0 - m \<and> c < n"
  shows "bitmap_find_loop n k i0 first c b = (if m + n \<le> i0 + k then Some m else None)"
  using assms
proof (induction k arbitrary: i0 first c)
  case 0
  then show ?case by auto
next
  case (Suc k)
  have i0: "BITMAP_ISSET i0 b \<longleftrightarrow> i0 < m" using Suc.prems(1) by simp
  have all: "\<forall>i<Suc i0 + k. BITMAP_ISSET i b \<longleftrightarrow> i < m" using Suc.prems(1) by simp
  show ?case
  proof (cases "i0 < m")
    case True
    with Suc.IH [OF all Suc.prems(2), of "Suc first" 0] i0 Suc.prems(3) show ?thesis by auto
  next
    case False
    with Suc.prems(3) have c: "first = m" "c = i0 - m" "m \<le> i0" "c < n" using Suc.prems(2) by auto
    show ?thesis
    proof (cases "Suc c \<ge> n")
      case True
      with c False i0 show ?thesis by auto
    next
      case nf: False
      have "Suc c = Suc i0 - m" using c by simp
      with nf Suc.IH [OF all Suc.prems(2), of first "Suc c"] c False i0 show ?thesis by auto
    qed
  qed
qed

lemma boot_alloc_ok:
  assumes "boot_state s m" "0 < n" "m + n \<le> bitmap_end s"
  shows "\<exists>s'. bitmap_alloc_pages n s = Some ((ERR_OK, BITMAP_ITOP m s'), s') \<and> boot_state s' (m + n) \<and>
    s' = s\<lparr>bitmap := bitmap s', bitmap_contig_start := m + n\<rparr>"
proof -
  have f: "bitmap_find n s = Some (Some m)"
    using bitmap_find_loop_prefix [of 0 "bitmap_end s" "bitmap s" m n 0 0] assms
    by (simp add: bitmap_find_def boot_state_def)
  obtain b' where b': "bitmap_alloc_loop m n (bitmap s) = Some b'"
    "\<forall>j. BITMAP_ISSET j b' \<longleftrightarrow> BITMAP_ISSET j (bitmap s) \<or> m \<le> j \<and> j < m + n"
    using bitmap_alloc_loop_ok [of m n "bitmap s"] assms by (auto simp: boot_state_def)
  let ?s = "s\<lparr>bitmap := b', bitmap_contig_start := m + n\<rparr>"
  have "bitmap_alloc_pages n s = Some ((ERR_OK, BITMAP_ITOP m ?s), ?s)"
    using f b'(1) assms by (simp add: bitmap_alloc_pages_def bitmap_alloc_def boot_state_def)
  moreover have "boot_state ?s (m + n)" using assms b'(2) by (auto simp: boot_state_def)
  ultimately show ?thesis by (intro exI [of _ ?s]) simp
qed

lemma boot_alloc_nomem:
  assumes "boot_state s m" "0 < n" "bitmap_end s < m + n"
  shows "bitmap_alloc_pages n s = Some ((ERR_NOMEM, 0), s)"
  using bitmap_find_loop_prefix [of 0 "bitmap_end s" "bitmap s" m n 0 0] assms
  by (simp add: bitmap_alloc_pages_def bitmap_find_def boot_state_def)

text \<open>The bitmap has a bit for every page, unless the number of pages leaves a remainder of one to seven
  when divided by the bits of a page.\<close>

definition bitmap_fits :: "pmem \<Rightarrow> bool" where
  "bitmap_fits s \<longleftrightarrow> (pmem_end s - pmem_start s) div pg_size \<le> 8 * pg_size * bitmap_n_pages s"

lemma pmem_boot_init_ok:
  assumes "pg_aligned (pmem_start s)" "pg_aligned (pmem_end s)" "pmem_start s < pmem_end s" "bitmap_fits s"
    "bitmap_n_pages s < (pmem_end s - pmem_start s) div pg_size"
  shows "\<exists>s'. pmem_boot_init s = Some s' \<and> boot_state s' (bitmap_n_pages s) \<and> \<not> pagemap_initialized s' \<and>
    pmem_start s' = pmem_start s \<and> pmem_end s' = pmem_end s"
proof -
  define N where "N = (pmem_end s - pmem_start s) div pg_size"
  define b0 where "b0 = (\<lambda>a. if a < pg_size * bitmap_n_pages s then 0 else bitmap s a)"
  have z: "\<not> BITMAP_ISSET i b0" if "i < N" for i
  proof -
    have "i div 8 < pg_size * bitmap_n_pages s" using that assms(4) by (simp add: bitmap_fits_def N_def)
    then show ?thesis by (simp add: isset_bit b0_def)
  qed
  obtain b' where b': "bitmap_alloc_loop 0 (bitmap_n_pages s) b0 = Some b'"
    "\<forall>j. BITMAP_ISSET j b' \<longleftrightarrow> BITMAP_ISSET j b0 \<or> j < bitmap_n_pages s"
    using bitmap_alloc_loop_ok [of 0 "bitmap_n_pages s" b0] z assms(5) by (auto simp: N_def)
  have bn: "bitmap_n_pages (s\<lparr>bitmap_contig_start := x, bitmap_end := y\<rparr>) = bitmap_n_pages s"
    "bitmap_n_pages (s\<lparr>bitmap_contig_start := x, bitmap_end := y, bitmap := b\<rparr>) = bitmap_n_pages s" for x y b
    by (simp_all add: bitmap_n_pages_def)
  let ?s = "s\<lparr>bitmap := b', bitmap_contig_start := bitmap_n_pages s, bitmap_end := N, pagemap_initialized := False\<rparr>"
  have "pmem_boot_init s = Some ?s"
    using assms b'(1)
    by (auto simp: pmem_boot_init_def bitmap_init_def bitmap_alloc_def bn Let_def N_def [symmetric]
        b0_def [symmetric] cong: if_cong intro!: pmem.equality)
  moreover have "boot_state ?s (bitmap_n_pages s)"
    using assms b'(2) z by (auto simp: boot_state_def N_def)
  ultimately show ?thesis by (intro exI [of _ ?s]) simp
qed


subsection \<open>Building the free lists\<close>

lemma rep_extend_free:
  assumes r: "buddy_rep s P X k" and k: "k + 2 ^ ord \<le> npages s" "2 ^ ord dvd k" "ord \<le> MAX_ORDER"
  shows "\<exists>s'. do { s \<leftarrow> upd_page k (order_update (\<lambda>_. ord)) s; freeblocks_insert k s } = Some s' \<and>
    buddy_rep s' (P(k \<mapsto> ord)) X (k + 2 ^ ord) \<and> free_pages s' = free_pages s + 2 ^ ord \<and>
    s' = s\<lparr>pages := pages s', freeblocks := freeblocks s'\<rparr> \<and> (\<forall>x<k. pages s' x = pages s x)"
proof -
  note D = buddy_repD [OF r]
  let ?s = "s\<lparr>pages := (pages s)(k := (pages s k)\<lparr>order := ord, refcnt := 0\<rparr>),
              freeblocks := (freeblocks s)(ord := freeblocks s ord @ [k])\<rparr>"
  have pos: "(0::nat) < 2 ^ ord" by simp
  have Pk: "P k = None" using tilesD(4) [OF D(1)] by (cases "P k") auto
  have "k < npages s" using k(1) pos by linarith
  then have "do { s \<leftarrow> upd_page k (order_update (\<lambda>_. ord)) s; freeblocks_insert k s } = Some ?s"
    using k(3) by (simp add: upd_page_Some freeblocks_insert_def Let_def)
  moreover have "buddy_rep ?s (P(k \<mapsto> ord)) X (k + 2 ^ ord)"
  proof (rule buddy_repI)
    show "tiles (P(k \<mapsto> ord)) (k + 2 ^ ord)" by (rule tiles_extend [OF D(1) k(2,3)])
    show "distinct (freeblocks ?s o')" for o' using D(4) D(5) Pk by simp
    show "h \<in> set (freeblocks ?s o') \<longleftrightarrow> (P(k \<mapsto> ord)) h = Some o' \<and> h \<notin> X" for o' h
      using D(3) D(5) Pk by auto
  qed (use D k Pk in \<open>auto split: if_splits\<close>)
  moreover have "free_pages ?s = free_pages s + 2 ^ ord"
    by (rule free_pages_insert [OF k(3)]) simp_all
  ultimately show ?thesis by (intro exI [of _ ?s]) simp
qed

lemma rep_extend_alloc:
  assumes r: "buddy_rep s P X k" and k: "k < npages s"
  shows "\<exists>s'. mark_allocated k s = Some s' \<and> buddy_rep s' (P(k \<mapsto> 0)) (insert k X) (Suc k) \<and>
    free_pages s' = free_pages s \<and> s' = s\<lparr>pages := pages s'\<rparr> \<and> (\<forall>x. x \<noteq> k \<longrightarrow> pages s' x = pages s x) \<and>
    refcnt (pages s' k) = 1"
proof -
  note D = buddy_repD [OF r]
  let ?s = "s\<lparr>pages := (pages s)(k := (pages s k)\<lparr>refcnt := 1, order := 0\<rparr>)\<rparr>"
  have Pk: "P k = None" using tilesD(4) [OF D(1)] by (cases "P k") auto
  have "buddy_rep ?s (P(k \<mapsto> 0)) (insert k X) (Suc k)"
  proof (rule buddy_repI)
    show "tiles (P(k \<mapsto> 0)) (Suc k)" using tiles_extend [OF D(1), of 0] by simp
    show "h \<in> set (freeblocks ?s o') \<longleftrightarrow> (P(k \<mapsto> 0)) h = Some o' \<and> h \<notin> insert k X" for o' h
      using D(5) Pk by auto
  qed (use D k in \<open>auto split: if_splits\<close>)
  then show ?thesis using k
    by (intro exI [of _ ?s]) (simp add: mark_allocated_def upd_page_Some free_pages_def)
qed

text \<open>Boot-time extension: the pages below \<open>k\<close> are tiled, the allocated ones have a reference.\<close>

definition tiled_upto :: "pmem \<Rightarrow> nat set \<Rightarrow> nat \<Rightarrow> bool" where
  "tiled_upto s A k \<longleftrightarrow> (\<exists>P. buddy_rep s P A k) \<and> (\<forall>h\<in>A. 0 < refcnt (pages s h)) \<and> A \<subseteq> {..<k}"

definition same_boot :: "pmem \<Rightarrow> pmem \<Rightarrow> bool" where
  "same_boot s s' \<longleftrightarrow> s' = s\<lparr>pages := pages s', freeblocks := freeblocks s'\<rparr>"

lemma same_bootD:
  assumes "same_boot s s'"
  shows "bitmap s' = bitmap s" "bitmap_contig_start s' = bitmap_contig_start s" "npages s' = npages s"
    "pmem_start s' = pmem_start s" "pmem_end s' = pmem_end s" "BITMAP_ITOP i s' = BITMAP_ITOP i s"
  using assms unfolding same_boot_def BITMAP_ITOP_def by (cases s; cases s'; simp)+

lemma same_boot_trans: "same_boot s s1 \<Longrightarrow> same_boot s1 s2 \<Longrightarrow> same_boot s s2"
  unfolding same_boot_def by (cases s; cases s1; cases s2) simp

lemma max_order_loop_correct:
  assumes "a < b"
  shows "2 ^ max_order_loop m a b dvd a \<and> a + 2 ^ max_order_loop m a b \<le> b \<and> max_order_loop m a b \<le> m"
  using assms by (induction m) (auto simp: dvd_eq_mod_eq_0 le_Suc_eq)

lemma insert_range_upto:
  assumes "tiled_upto s A a" "a \<le> b" "b \<le> npages s"
  shows "\<exists>s'. freeblocks_insert_range (a * pg_size) (b * pg_size) s = Some s' \<and> tiled_upto s' A b \<and>
    free_pages s' = free_pages s + (b - a) \<and> same_boot s s'"
  using assms
proof (induction "b - a" arbitrary: a s rule: less_induct)
  case less
  show ?case
  proof (cases "a < b")
    case False
    then have "freeblocks_insert_range (a * pg_size) (b * pg_size) s = Some s"
      by (subst freeblocks_insert_range.simps) simp
    then show ?thesis using less.prems False by (intro exI [of _ s]) (simp add: same_boot_def)
  next
    case True
    define ord where "ord = max_order_loop MAX_ORDER a b"
    have o: "2 ^ ord dvd a" "a + 2 ^ ord \<le> b" "ord \<le> MAX_ORDER"
      using max_order_loop_correct [OF True] by (simp_all add: ord_def)
    obtain P where P: "buddy_rep s P A a" using less.prems(1) by (auto simp: tiled_upto_def)
    obtain s1 where s1: "do { s \<leftarrow> upd_page a (order_update (\<lambda>_. ord)) s; freeblocks_insert a s } = Some s1"
      "buddy_rep s1 (P(a \<mapsto> ord)) A (a + 2 ^ ord)" "free_pages s1 = free_pages s + 2 ^ ord"
      "s1 = s\<lparr>pages := pages s1, freeblocks := freeblocks s1\<rparr>" "\<forall>x<a. pages s1 x = pages s x"
      using rep_extend_free [OF P _ o(1,3)] o(2) less.prems(3) by auto
    have u: "tiled_upto s1 A (a + 2 ^ ord)" using s1(2,5) less.prems(1) unfolding tiled_upto_def by fastforce
    have sb: "same_boot s s1" using s1(4) by (simp add: same_boot_def)
    have "b - (a + 2 ^ ord) < b - a" using True by (simp add: diff_less_mono2)
    then obtain s' where s': "freeblocks_insert_range ((a + 2 ^ ord) * pg_size) (b * pg_size) s1 = Some s'"
      "tiled_upto s' A b" "free_pages s' = free_pages s1 + (b - (a + 2 ^ ord))" "same_boot s1 s'"
      using less.hyps [OF _ u o(2)] less.prems(3) same_bootD(3) [OF sb] by auto
    have "freeblocks_insert_range (a * pg_size) (b * pg_size) s =
      freeblocks_insert_range ((a + 2 ^ ord) * pg_size) (b * pg_size) s1"
      using True s1(1)
      by (simp add: freeblocks_insert_range.simps [of "a * pg_size"] get_max_page_order_def Let_def
          paddr_to_page_def ord_def [symmetric] algebra_simps bind_eq_Some_conv) auto
    then show ?thesis using s' s1(3) o(2) same_boot_trans [OF sb s'(4)] by (intro exI [of _ s']) simp
  qed
qed


lemma mark_upto:
  assumes "tiled_upto s A k" "k < npages s"
  shows "\<exists>s'. mark_allocated k s = Some s' \<and> tiled_upto s' (insert k A) (Suc k) \<and>
    free_pages s' = free_pages s \<and> same_boot s s'"
proof -
  obtain P where P: "buddy_rep s P A k" using assms(1) by (auto simp: tiled_upto_def)
  obtain s' where s': "mark_allocated k s = Some s'" "buddy_rep s' (P(k \<mapsto> 0)) (insert k A) (Suc k)"
    "free_pages s' = free_pages s" "s' = s\<lparr>pages := pages s'\<rparr>" "\<forall>x. x \<noteq> k \<longrightarrow> pages s' x = pages s x"
    "refcnt (pages s' k) = 1" using rep_extend_alloc [OF P assms(2)] by blast
  have "\<forall>h\<in>insert k A. 0 < refcnt (pages s' h)"
  proof
    fix h assume "h \<in> insert k A"
    then show "0 < refcnt (pages s' h)"
      using s'(5,6) assms(1) by (cases "h = k") (auto simp: tiled_upto_def)
  qed
  moreover have "insert k A \<subseteq> {..<Suc k}" using assms(1) by (auto simp: tiled_upto_def)
  moreover have "same_boot s s'" using s'(4) unfolding same_boot_def by (cases s; cases s') simp
  ultimately show ?thesis using s'(1,2,3) unfolding tiled_upto_def by blast
qed

lemma mark_low_upto:
  assumes "tiled_upto s {..<j} j" "pmem_start s = S * pg_size" "j \<le> S" "S \<le> npages s" "S - j \<le> k"
  shows "\<exists>s'. mark_low k (j * pg_size) s = Some s' \<and> tiled_upto s' {..<S} S \<and>
    free_pages s' = free_pages s \<and> same_boot s s'"
  using assms
proof (induction k arbitrary: j s)
  case 0
  then show ?case by (auto simp: same_boot_def)
next
  case (Suc k)
  show ?case
  proof (cases "j < S")
    case True
    then obtain s1 where s1: "mark_allocated j s = Some s1" "tiled_upto s1 (insert j {..<j}) (Suc j)"
      "free_pages s1 = free_pages s" "same_boot s s1" using mark_upto [OF Suc.prems(1)] Suc.prems by auto
    have A: "insert j {..<j} = {..<Suc j}" "S - Suc j \<le> k" using Suc.prems(5) by auto
    obtain s' where s': "mark_low k (Suc j * pg_size) s1 = Some s'" "tiled_upto s' {..<S} S"
      "free_pages s' = free_pages s1" "same_boot s1 s'"
      using Suc.IH [OF s1(2) [unfolded A(1)]] Suc.prems A(2) True same_bootD [OF s1(4)] by auto
    have "Suc j * pg_size = j * pg_size + pg_size" by simp
    with s' s1 True Suc.prems(2) same_boot_trans [OF s1(4) s'(4)] show ?thesis
      by (intro exI [of _ s']) (simp add: paddr_to_page_def add.commute)
  next
    case False
    then show ?thesis using Suc.prems by (auto simp: same_boot_def)
  qed
qed

lemma probe_loop_correct:
  assumes "p \<le> bitmap_contig_start s"
  shows "p \<le> probe_loop k p s \<and> probe_loop k p s \<le> bitmap_contig_start s \<and>
    (\<forall>i. p \<le> i \<and> i < probe_loop k p s \<longrightarrow> \<not> BITMAP_ISSET i (bitmap s))"
  using assms
proof (induction k arbitrary: p)
  case (Suc k)
  show ?case
  proof (cases "p < bitmap_contig_start s \<and> \<not> BITMAP_ISSET p (bitmap s)")
    case True
    with Suc.IH [of "Suc p"] show ?thesis by (auto simp: Suc_le_eq) (metis le_neq_implies_less)
  qed (use Suc.prems in auto)
qed auto

text \<open>The pages that the boot bitmap marks in a range of indices.\<close>

definition marked :: "(nat \<Rightarrow> u8) \<Rightarrow> nat \<Rightarrow> nat \<Rightarrow> nat set" where
  "marked b i m = {j. i \<le> j \<and> j < m \<and> BITMAP_ISSET j b}"

lemma scan_bitmap_upto:
  assumes "tiled_upto s A (S + i)" "pmem_start s = S * pg_size" "i \<le> bitmap_contig_start s"
    "S + bitmap_contig_start s \<le> npages s" "bitmap_contig_start s - i \<le> k"
  shows "\<exists>s'. scan_bitmap k i s = Some s' \<and>
    tiled_upto s' (A \<union> (+) S ` marked (bitmap s) i (bitmap_contig_start s)) (S + bitmap_contig_start s) \<and>
    free_pages s' + card (marked (bitmap s) i (bitmap_contig_start s)) =
      free_pages s + (bitmap_contig_start s - i) \<and> same_boot s s'"
  using assms
proof (induction k arbitrary: i s A)
  case 0
  then have "marked (bitmap s) i (bitmap_contig_start s) = {}" by (auto simp: marked_def)
  with 0 show ?case by (auto simp: same_boot_def)
next
  case (Suc k)
  let ?m = "bitmap_contig_start s" and ?b = "bitmap s"
  have itop: "BITMAP_ITOP j s = (S + j) * pg_size" for j
    using Suc.prems(2) by (simp add: BITMAP_ITOP_def algebra_simps)
  consider "i = ?m" | "i < ?m" "BITMAP_ISSET i ?b" | "i < ?m" "\<not> BITMAP_ISSET i ?b"
    using Suc.prems(3) by linarith
  then show ?case
  proof cases
    case 1
    then have "marked ?b i ?m = {}" by (auto simp: marked_def)
    with 1 show ?thesis using Suc.prems by (auto simp: same_boot_def)
  next
    case 2
    obtain s1 where s1: "mark_allocated (S + i) s = Some s1" "tiled_upto s1 (insert (S + i) A) (Suc (S + i))"
      "free_pages s1 = free_pages s" "same_boot s s1" using mark_upto [OF Suc.prems(1)] Suc.prems 2 by auto
    note B = same_bootD [OF s1(4)]
    have k: "?m - Suc i \<le> k" using Suc.prems(5) by simp
    obtain s' where s': "scan_bitmap k (Suc i) s1 = Some s'"
      "tiled_upto s' (insert (S + i) A \<union> (+) S ` marked ?b (Suc i) ?m) (S + ?m)"
      "free_pages s' + card (marked ?b (Suc i) ?m) = free_pages s1 + (?m - Suc i)" "same_boot s1 s'"
      using Suc.IH [of s1 "insert (S + i) A" "Suc i"] s1(2) Suc.prems 2 B k by auto
    have M: "marked ?b i ?m = insert i (marked ?b (Suc i) ?m)" using 2 by (auto simp: marked_def Suc_le_eq)
    have fin: "finite (marked ?b (Suc i) ?m)" "i \<notin> marked ?b (Suc i) ?m" by (auto simp: marked_def)
    show ?thesis
      using s1 s' 2 M fin same_boot_trans [OF s1(4) s'(4)]
      by (intro exI [of _ s']) (auto simp: itop paddr_to_page_def)
  next
    case 3
    define q where "q = probe_loop ?m (Suc i) s"
    have q: "Suc i \<le> q" "q \<le> ?m" "\<forall>j. Suc i \<le> j \<and> j < q \<longrightarrow> \<not> BITMAP_ISSET j ?b"
      using probe_loop_correct [of "Suc i" s ?m] 3 by (auto simp: q_def)
    obtain s1 where s1: "freeblocks_insert_range ((S + i) * pg_size) ((S + q) * pg_size) s = Some s1"
      "tiled_upto s1 A (S + q)" "free_pages s1 = free_pages s + (S + q - (S + i))" "same_boot s s1"
      using insert_range_upto [OF Suc.prems(1), of "S + q"] q Suc.prems by auto
    note B = same_bootD [OF s1(4)]
    have k: "?m - q \<le> k" using Suc.prems(5) q by simp
    obtain s' where s': "scan_bitmap k q s1 = Some s'"
      "tiled_upto s' (A \<union> (+) S ` marked ?b q ?m) (S + ?m)"
      "free_pages s' + card (marked ?b q ?m) = free_pages s1 + (?m - q)" "same_boot s1 s'"
      using Suc.IH [of s1 A q] s1(2) Suc.prems q B k by auto
    have M: "marked ?b i ?m = marked ?b q ?m" using 3 q by (auto simp: marked_def) (metis Suc_leI le_neq_implies_less not_le)
    show ?thesis
      using s1 s' 3 M q same_boot_trans [OF s1(4) s'(4)]
      by (intro exI [of _ s']) (auto simp: itop q_def [symmetric])
  qed
qed


lemma tiled_upto_0: "freeblocks s = (\<lambda>_. []) \<Longrightarrow> tiled_upto s {} 0"
  unfolding tiled_upto_def buddy_rep_def tiles_def by (auto intro!: exI [of _ "\<lambda>_. None"])

lemma freeblocks_init_ok:
  assumes b: "boot_state s m" and S: "pmem_start s = S * pg_size" and E: "pmem_end s = npages s * pg_size"
    and n: "bitmap_n_pages s = nb" "0 < nb" "nb < m"
  shows "\<exists>s'. freeblocks_init s = Some s' \<and> tiled_upto s' ({..<S} \<union> {S + nb..<S + m}) (npages s) \<and>
    free_pages s' = nb + (npages s - (S + m)) \<and> npages s' = npages s"
proof -
  have be: "bitmap_end s = npages s - S" "S < npages s" "m \<le> npages s - S"
    using b S E by (auto simp: boot_state_def diff_mult_distrib [symmetric])
  obtain b1 where b1: "bitmap_free_loop 0 nb (bitmap s) = Some b1"
    "\<forall>j. BITMAP_ISSET j b1 \<longleftrightarrow> BITMAP_ISSET j (bitmap s) \<and> \<not> j < nb"
    using bitmap_free_loop_ok [of 0 nb "bitmap s"] b n by (auto simp: boot_state_def)
  define s1 where "s1 = s\<lparr>bitmap := b1, freeblocks := \<lambda>_. []\<rparr>"
  have f: "do { s \<leftarrow> bitmap_free (BITMAP_PTOI (pmem_start s) s) nb s; Some (s\<lparr>freeblocks := (\<lambda>_. [])\<rparr>) } = Some s1"
    using b b1(1) n be by (simp add: bitmap_free_def BITMAP_PTOI_def boot_state_def s1_def)
  have f0: "free_pages s1 = 0" by (simp add: free_pages_def s1_def)
  obtain s2 where s2: "mark_low (pmem_start s1) (0 * pg_size) s1 = Some s2" "tiled_upto s2 {..<S} S"
    "free_pages s2 = free_pages s1" "same_boot s1 s2"
    using mark_low_upto [of s1 0 S "pmem_start s1"] tiled_upto_0 [of s1] S be by (auto simp: s1_def)
  note B2 = same_bootD [OF s2(4)]
  have c2: "bitmap_contig_start s2 = m" "pmem_start s2 = S * pg_size" "npages s2 = npages s"
    using B2 b S by (simp_all add: s1_def boot_state_def)
  have mk: "marked (bitmap s2) 0 m = {nb..<m}"
    using B2(1) b1(2) b be by (auto simp: marked_def s1_def boot_state_def)
  have Sm: "S + m \<le> npages s" using be by simp
  then obtain s3 where s3: "scan_bitmap (bitmap_contig_start s2) 0 s2 = Some s3"
    "tiled_upto s3 ({..<S} \<union> (+) S ` {nb..<m}) (S + m)" "free_pages s3 + (m - nb) = free_pages s2 + m"
    "same_boot s2 s3"
    using scan_bitmap_upto [of s2 "{..<S}" S 0 m] s2(2) c2 be mk by auto
  note B3 = same_bootD [OF s3(4)]
  have A: "(+) S ` {nb..<m} = {S + nb..<S + m}" by (simp add: add.commute)
  obtain s4 where s4: "freeblocks_insert_range ((S + m) * pg_size) (npages s * pg_size) s3 = Some s4"
    "tiled_upto s4 ({..<S} \<union> {S + nb..<S + m}) (npages s)"
    "free_pages s4 = free_pages s3 + (npages s - (S + m))" "same_boot s3 s4"
    using insert_range_upto [OF s3(2) Sm] c2 B3(3) A by auto
  have "BITMAP_ITOP (bitmap_contig_start s3) s3 = (S + m) * pg_size" "pmem_end s3 = npages s * pg_size"
    using B2 B3 c2 E by (simp_all add: BITMAP_ITOP_def s1_def algebra_simps)
  then have "freeblocks_init s = Some s4"
    using f s2(1) s3(1) s4(1) n unfolding freeblocks_init_def
    by (auto simp: bind_eq_Some_conv Let_def)
  moreover have "free_pages s4 = nb + (npages s - (S + m))" using s4(3) s3(3) s2(3) f0 n by simp
  ultimately show ?thesis using s4(2) B3(3) c2(3) same_bootD(3) [OF s4(4)] by auto
qed

lemma pmem_init_ok:
  assumes b: "boot_state s m" and S: "0 < pmem_start s" and n: "0 < bitmap_n_pages s" "bitmap_n_pages s \<le> m"
    and pm: "pm = pg_round_up (pmem_end s div pg_size * szpage) div pg_size" "0 < pm" "m + pm \<le> bitmap_end s"
  shows "\<exists>s'. pmem_init szpage s = Some s' \<and>
    pmem_inv s' ({..<pmem_start s div pg_size} \<union>
      {pmem_start s div pg_size + bitmap_n_pages s..<pmem_start s div pg_size + m + pm}) \<and>
    npages s' = pmem_end s div pg_size \<and>
    free_pages s' = (pmem_end s - pmem_start s) div pg_size - (m - bitmap_n_pages s) - pm"
proof -
  define S E where "S = pmem_start s div pg_size" and "E = pmem_end s div pg_size"
  have SE: "pmem_start s = S * pg_size" "pmem_end s = E * pg_size"
    using b by (auto simp: boot_state_def pg_aligned_def S_def E_def)
  have be: "bitmap_end s = E - S" using b SE by (simp add: boot_state_def diff_mult_distrib [symmetric])
  obtain s1 where s1: "bitmap_alloc_pages pm s = Some ((ERR_OK, BITMAP_ITOP m s1), s1)"
    "boot_state s1 (m + pm)" "s1 = s\<lparr>bitmap := bitmap s1, bitmap_contig_start := m + pm\<rparr>"
    using boot_alloc_ok [OF b pm(2,3)] by blast
  let ?s2 = "s1\<lparr>npages := E, pages := (\<lambda>_. \<lparr>kmem_cache = None, slab = None, rmap = None,
                   refcnt = 0, order = 0, pg_state = 0, blk_headers = []\<rparr>)\<rparr>"
  have i1: "pagemap_init szpage s = Some ?s2"
    using s1(1) pm(1,2) by (simp add: pagemap_init_def E_def [symmetric])
  have p1: "pmem_start s1 = S * pg_size" "pmem_end s1 = E * pg_size"
    using SE by (subst s1(3), simp)+
  have b2: "boot_state ?s2 (m + pm)" using s1(2) by (simp add: boot_state_def)
  have n2: "bitmap_n_pages ?s2 = bitmap_n_pages s" using p1 SE by (simp add: bitmap_n_pages_def)
  obtain s3 where s3: "freeblocks_init ?s2 = Some s3"
    "tiled_upto s3 ({..<S} \<union> {S + bitmap_n_pages s..<S + (m + pm)}) E"
    "free_pages s3 = bitmap_n_pages s + (E - (S + (m + pm)))" "npages s3 = E"
    using freeblocks_init_ok [OF b2, of S "bitmap_n_pages s"] p1 n2 n pm(2) by auto
  have "0 < S" using S SE by simp
  then have "pmem_inv (s3\<lparr>pagemap_initialized := True\<rparr>) ({..<S} \<union> {S + bitmap_n_pages s..<S + m + pm})"
    using s3(2,4) by (auto simp: pmem_inv_def tiled_upto_def buddy_rep_def add.assoc)
  moreover have "bitmap_n_pages s + (E - (S + (m + pm))) = E - S - (m - bitmap_n_pages s) - pm"
    using n pm(3) be by simp
  ultimately show ?thesis
    using i1 s3(1,3,4) SE by (simp add: pmem_init_def free_pages_def S_def [symmetric] E_def [symmetric]
        diff_mult_distrib [symmetric])
qed


subsection \<open>Properties\<close>

text \<open>A small memory for the witnesses: page 0 is reserved, page 1 and the pair 2, 3 are free.\<close>

definition small_pmem :: pmem where
  "small_pmem = \<lparr>pmem_start = pg_size, pmem_end = 4 * pg_size, bitmap = (\<lambda>_. 0), bitmap_contig_start = 0,
     bitmap_end = 3,
     pages = (\<lambda>p. \<lparr>kmem_cache = None, slab = None, rmap = None, refcnt = (if p = 0 then 1 else 0),
                order = (if p = 2 then 1 else 0), pg_state = 0, blk_headers = []\<rparr>),
     npages = 4, pagemap_initialized = True, freeblocks = (\<lambda>_. [])(0 := [1], 1 := [2])\<rparr>"

lemma small_pmem_inv: "pmem_inv small_pmem {0}"
proof -
  have "tiles (\<lambda>_. None) 0" by (simp add: tiles_def)
  from tiles_extend [OF tiles_extend [OF tiles_extend [OF this, of 0], of 0], of 1]
  have "tiles [0 \<mapsto> 0, 1 \<mapsto> 0, 2 \<mapsto> 1] 4" by (simp add: numeral_eq_Suc)
  then have "buddy_rep small_pmem [0 \<mapsto> 0, 1 \<mapsto> 0, 2 \<mapsto> 1] {0} (npages small_pmem)"
    by (intro buddy_repI) (auto simp: small_pmem_def split: if_splits)
  then show ?thesis unfolding pmem_inv_def by (auto simp: small_pmem_def)
qed

text \<open>C1: \<^verbatim>\<open>pmem_nalloc\<close> never panics. It fails with \<^verbatim>\<open>ERR_NOMEM\<close>, changing nothing, only when no block of
  at least \<open>n\<close> pages is free; otherwise it returns an aligned block of at least \<open>n\<close> and less than \<open>2n\<close>
  pages with one reference, disjoint from every allocated block, takes exactly its pages from the free
  memory, and leaves the page data of all allocated blocks alone.\<close>

theorem pmem_nalloc_correct:
  assumes "pmem_inv s A" "0 < n" "n \<le> 2 ^ MAX_ORDER"
  shows "pmem_nalloc n s = Some ((ERR_NOMEM, 0), s) \<and> (\<forall>ord. n \<le> 2 ^ ord \<longrightarrow> freeblocks s ord = []) \<or>
    (\<exists>p s'. pmem_nalloc n s = Some ((ERR_OK, p * pg_size), s') \<and> p \<notin> A \<and> pmem_inv s' (insert p A) \<and>
       n \<le> card (block s' p) \<and> card (block s' p) < 2 * n \<and> refcnt (pages s' p) = 1 \<and>
       (\<forall>h\<in>A. block s' p \<inter> block s h = {} \<and> (\<forall>x\<in>block s h. pages s' x = pages s x)) \<and>
       free_pages s' + card (block s' p) = free_pages s)"
  using pmem_nalloc_ok [OF assms]
proof (elim disjE)
  assume "\<exists>p s'. pmem_nalloc n s = Some ((ERR_OK, p * pg_size), s') \<and> p \<notin> A \<and> pmem_inv s' (insert p A) \<and>
       n \<le> 2 ^ order (pages s' p) \<and> 2 ^ order (pages s' p) < 2 * n \<and> npages s' = npages s \<and>
       refcnt (pages s' p) = 1 \<and> (\<forall>h\<in>A. \<forall>x\<in>block s h. pages s' x = pages s x) \<and>
       free_pages s' + 2 ^ order (pages s' p) = free_pages s"
  then obtain p s' where *: "pmem_nalloc n s = Some ((ERR_OK, p * pg_size), s')" "p \<notin> A"
    "pmem_inv s' (insert p A)" "n \<le> 2 ^ order (pages s' p)" "2 ^ order (pages s' p) < 2 * n"
    "refcnt (pages s' p) = 1" "\<forall>h\<in>A. \<forall>x\<in>block s h. pages s' x = pages s x"
    "free_pages s' + 2 ^ order (pages s' p) = free_pages s" by blast
  have "card (block s' p) = 2 ^ order (pages s' p)" by (simp add: block_def)
  moreover have "block s' p \<inter> block s h = {}" if "h \<in> A" for h
    using pmem_inv_disjoint [OF *(3), of p h] that *(2,7) self_block [of h s] block_cong [of s' h s] by auto
  ultimately show ?thesis using * by (intro disjI2 exI [of _ p] exI [of _ s']) simp
qed simp

theorem pmem_nalloc_correct_witness:
  "\<exists>s'. pmem_nalloc 2 small_pmem = Some ((ERR_OK, 2 * pg_size), s') \<and> pmem_inv s' {2, 0} \<and> free_pages s' = 1"
proof -
  have f: "find_freeblock 1 False small_pmem = Some (Some 2, small_pmem\<lparr>freeblocks := (\<lambda>_. [])(0 := [1])\<rparr>)"
    by (subst find_freeblock.simps) (auto simp: small_pmem_def freeblocks_remove_def fun_eq_iff)
  have g: "get_min_page_order 2 = Some 1" by (simp add: get_min_page_order_def numeral_eq_Suc)
  have "freeblocks small_pmem = (\<lambda>_. [])(0 := [1], 1 := [2])" by (simp add: small_pmem_def)
  then have fp: "free_pages small_pmem = 3" by (simp add: free_pages_def numeral_eq_Suc)
  have "\<exists>s'. pmem_nalloc 2 small_pmem = Some ((ERR_OK, 2 * pg_size), s') \<and> order (pages s' 2) = 1"
    using f g by (simp add: pmem_nalloc_def upd_page_def pmem_set_page_dirty_def page_to_paddr_def)
      (simp add: small_pmem_def)
  then obtain s' where s': "pmem_nalloc 2 small_pmem = Some ((ERR_OK, 2 * pg_size), s')" "order (pages s' 2) = 1"
    by blast
  then have "pmem_inv s' {2, 0} \<and> free_pages s' + card (block s' 2) = free_pages small_pmem"
    using pmem_nalloc_correct [OF small_pmem_inv, of 2] by auto
  then show ?thesis using s' fp by (auto simp: block_def)
qed

lemma pmem_dec_refcnt_ok:
  assumes "pmem_inv s A" "h \<in> A" "h \<noteq> 0" "paddr div pg_size = h" "order (pages s h) = 0"
  shows "\<exists>s'. pmem_dec_refcnt paddr s = Some s' \<and>
    (if refcnt (pages s h) = 1 then pmem_inv s' (A - {h}) \<and> free_pages s' = free_pages s + 1
     else pmem_inv s' A \<and> free_pages s' = free_pages s \<and> refcnt (pages s' h) = refcnt (pages s h) - 1) \<and>
    (\<forall>g\<in>A - {h}. \<forall>x\<in>block s g. pages s' x = pages s x)"
proof -
  obtain P where P: "buddy_rep s P A (npages s)" using assms(1) by (auto simp: pmem_inv_def)
  then obtain ord where ord: "P h = Some ord" using buddy_repD(3) assms(2) by blast
  have hn: "h < npages s" by (rule buddy_rep_bounds [OF P ord])
  have pos: "0 < refcnt (pages s h)" using assms(1,2) by (auto simp: pmem_inv_def)
  let ?s = "s\<lparr>pages := (pages s)(h := (pages s h)\<lparr>refcnt := refcnt (pages s h) - 1\<rparr>)\<rparr>"
  have d: "pmem_dec_refcnt paddr s = (if refcnt (pages s h) = 1 then pmem_nfree paddr 1 ?s else Some ?s)"
    using assms(4,5) pos hn by (simp add: pmem_dec_refcnt_def paddr_to_page_def upd_page_Some)
  show ?thesis
  proof (cases "refcnt (pages s h) = 1")
    case True
    have "pmem_nfree paddr 1 ?s = pmem_nfree paddr 1 s"
      using hn assms(1,4) by (simp add: pmem_nfree_def paddr_to_page_def upd_page_Some pmem_inv_def)
    then show ?thesis using d True pmem_nfree_ok [OF assms(1-4), of 1] assms(5) by auto
  next
    case False
    have "buddy_rep ?s P A (npages ?s)" using buddy_rep_upd [OF P assms(2)] by simp
    then have "pmem_inv ?s A" using assms(1) False pos unfolding pmem_inv_def by auto
    moreover have "pages ?s x = pages s x" if "g \<in> A - {h}" "x \<in> block s g" for g x
      using pmem_inv_disjoint [OF assms(1,2), of g] that self_block [of h s] by auto
    ultimately show ?thesis using d False by (auto simp: free_pages_def)
  qed
qed


text \<open>C13: Dropping a reference to an allocated page counts down, and exactly the drop of the last reference
  frees the page: it leaves the allocated set, the free memory grows by one page, and no panic happens on
  the way through merging with its buddies.\<close>

theorem pmem_dec_refcnt_correct:
  assumes "pmem_inv s A" "h \<in> A" "h \<noteq> 0" "paddr div pg_size = h" "order (pages s h) = 0"
  shows "\<exists>s'. pmem_dec_refcnt paddr s = Some s' \<and>
    (if refcnt (pages s h) = 1 then pmem_inv s' (A - {h}) \<and> free_pages s' = free_pages s + 1
     else pmem_inv s' A \<and> free_pages s' = free_pages s \<and> refcnt (pages s' h) = refcnt (pages s h) - 1) \<and>
    (\<forall>g\<in>A - {h}. \<forall>x\<in>block s g. pages s' x = pages s x)"
  by (rule pmem_dec_refcnt_ok [OF assms])

theorem pmem_dec_refcnt_correct_witness:
  "\<exists>s s' s''. pmem_inv s {2, 0} \<and> pmem_inc_refcnt 8192 1 s = Some s' \<and> pmem_inv s' {2, 0} \<and>
     pmem_dec_refcnt 8192 s' = Some s'' \<and> refcnt (pages s'' 2) = 1"
proof -
  let ?pg = "\<lparr>kmem_cache = None, slab = None, rmap = None, refcnt = 1, order = 0, pg_state = 0, blk_headers = []\<rparr>"
  let ?s = "\<lambda>r. small_pmem\<lparr>pages := (pages small_pmem)(2 := ?pg\<lparr>refcnt := r\<rparr>), freeblocks := (\<lambda>_. [])(0 := [1, 3])\<rparr>"
  have "tiles (\<lambda>_. None) 0" by (simp add: tiles_def)
  from tiles_extend [OF tiles_extend [OF tiles_extend [OF tiles_extend [OF this, of 0], of 0], of 0], of 0]
  have t: "tiles [0 \<mapsto> 0, 1 \<mapsto> 0, 2 \<mapsto> 0, 3 \<mapsto> 0] 4" by (simp add: numeral_eq_Suc)
  have inv: "pmem_inv (?s r) {2, 0}" if "0 < r" for r
  proof -
    have "buddy_rep (?s r) [0 \<mapsto> 0, 1 \<mapsto> 0, 2 \<mapsto> 0, 3 \<mapsto> 0] {2, 0} (npages (?s r))"
      using t by (intro buddy_repI) (auto simp: small_pmem_def split: if_splits)
    then show ?thesis using that unfolding pmem_inv_def by (auto simp: small_pmem_def)
  qed
  have "pmem_inc_refcnt 8192 1 (?s 1) = Some (?s 2)"
    by (simp add: pmem_inc_refcnt_def paddr_to_page_def upd_page_def small_pmem_def)
  moreover obtain s'' where "pmem_dec_refcnt 8192 (?s 2) = Some s''" "refcnt (pages s'' 2) = 1"
    using pmem_dec_refcnt_correct [OF inv, of 2 2 8192] by (auto simp: small_pmem_def)
  ultimately show ?thesis using inv [of 1] inv [of 2] by (intro exI [of _ "?s 1"] exI [of _ "?s 2"] exI [of _ s'']) simp
qed

text \<open>C2: No sequence of requests to the page allocator makes it panic, and the live blocks of its clients
  never overlap, whatever the order of allocations and releases.\<close>

theorem pmem_clients_disjoint:
  assumes "distinct L" "page_clients s (set L)"
    "\<forall>n. Alloc n \<in> set rs \<longrightarrow> 0 < n \<and> n \<le> 1024"
  shows "\<exists>L' s'. pmem.serve_all rs (L, s) = Some (L', s') \<and> page_clients s' (set L') \<and>
    (\<forall>i j. i < j \<and> j < length L' \<longrightarrow> block s' (L' ! i) \<inter> block s' (L' ! j) = {})"
proof (rule pmem.serve_all_disjoint)
  show "pmem.live (L, s)" using assms(1,2) by (simp add: pmem.live_def)
  show "\<forall>r\<in>set rs. pmem.request_ok r"
  proof
    fix r assume r: "r \<in> set rs"
    show "pmem.request_ok r" by (cases r) (use r assms(3) in auto)
  qed
qed

theorem pmem_clients_disjoint_witness:
  "\<exists>L' s'. pmem.serve_all [Alloc 1, Alloc 2, Free 0, Alloc 1, Alloc 1024] ([], small_pmem) = Some (L', s') \<and>
    (\<forall>i j. i < j \<and> j < length L' \<longrightarrow> block s' (L' ! i) \<inter> block s' (L' ! j) = {})"
proof -
  have "page_clients small_pmem (set [])"
    using small_pmem_inv unfolding page_clients_def by (intro exI [of _ "{0}"]) auto
  then show ?thesis
    using pmem_clients_disjoint [of "[]" small_pmem "[Alloc 1, Alloc 2, Free 0, Alloc 1, Alloc 1024]"] by auto
qed

text \<open>C3: Starting the memory system hands over every page: after \<^verbatim>\<open>pmem_boot_init\<close> and
  \<^verbatim>\<open>pmem_init\<close> the buddy allocator's invariant holds with exactly the pages below the start of free memory and
  the pages of \<^verbatim>\<open>pagemap\<close> allocated, and all other pages are free, the boot bitmap's included.\<close>

theorem pmem_init_correct:
  assumes "pg_aligned (pmem_start s)" "pg_aligned (pmem_end s)" "0 < pmem_start s" "pmem_start s < pmem_end s"
    and "bitmap_fits s" "bn = bitmap_n_pages s" "0 < bn"
    and "pm = pg_round_up (pmem_end s div pg_size * szpage) div pg_size" "0 < pm"
    and "N = (pmem_end s - pmem_start s) div pg_size" "bn + pm \<le> N" "S = pmem_start s div pg_size"
  shows "\<exists>s'. do { s \<leftarrow> pmem_boot_init s; pmem_init szpage s } = Some s' \<and>
    pmem_inv s' ({..<S} \<union> {S + bn..<S + bn + pm}) \<and> npages s' = S + N \<and> free_pages s' = N - pm"
proof -
  obtain s1 where s1: "pmem_boot_init s = Some s1" "boot_state s1 bn" "pmem_start s1 = pmem_start s"
    "pmem_end s1 = pmem_end s"
    using pmem_boot_init_ok [of s] assms by auto
  have "bitmap_n_pages s1 = bn" using s1 assms(6) by (simp add: bitmap_n_pages_def)
  moreover have "bitmap_end s1 = N" using s1 assms by (simp add: boot_state_def)
  ultimately obtain s2 where "pmem_init szpage s1 = Some s2"
    "pmem_inv s2 ({..<S} \<union> {S + bn..<S + bn + pm})" "npages s2 = pmem_end s div pg_size"
    "free_pages s2 = N - (bn - bn) - pm"
    using pmem_init_ok [OF s1(2), of pm szpage] s1 assms by auto
  moreover have "pmem_end s div pg_size = S + N"
  proof -
    obtain a b where ab: "pmem_start s = a * pg_size" "pmem_end s = b * pg_size"
      using assms(1,2) unfolding pg_aligned_def by (metis mod_0_imp_dvd dvdE mult.commute)
    then have "S = a" "N = b - a" using assms(10,12) by (simp_all add: diff_mult_distrib [symmetric])
    then show ?thesis using ab assms(4) by simp
  qed
  ultimately show ?thesis using s1(1) by auto
qed

theorem pmem_init_correct_witness:
  "\<exists>s'. do { s \<leftarrow> pmem_boot_init (small_pmem\<lparr>pmem_end := 33 * pg_size\<rparr>); pmem_init 144 s } = Some s' \<and>
    pmem_inv s' {0, 2, 3} \<and> npages s' = 33 \<and> free_pages s' = 30"
proof -
  let ?s = "small_pmem\<lparr>pmem_end := 33 * pg_size\<rparr>"
  have "pmem_start ?s = 4096" "pmem_end ?s = 135168" by (simp_all add: small_pmem_def)
  moreover from this have "bitmap_n_pages ?s = 1" by (simp add: bitmap_n_pages_def pg_round_up_def)
  ultimately have "\<exists>s'. do { s \<leftarrow> pmem_boot_init ?s; pmem_init 144 s } = Some s' \<and>
    pmem_inv s' ({..<1} \<union> {1 + 1..<1 + 1 + 2}) \<and> npages s' = 1 + 32 \<and> free_pages s' = 32 - 2"
    by (intro pmem_init_correct) (simp_all add: pg_aligned_def bitmap_fits_def pg_round_up_def)
  moreover have "{..<1} \<union> {1 + 1..<1 + 1 + 2} = {0, 2, 3::nat}" by auto
  ultimately show ?thesis by simp
qed



end
