(* ===== verification/Kmalloc_Init.thy ===== *)
theory Kmalloc_Init
  imports Kmalloc_Inv Pmem_Init
begin

section \<open>Starting the slab allocator\<close>

text \<open>
  \<^verbatim>\<open>kmalloc_init\<close> builds the eight allocators of \<^verbatim>\<open>kmalloc\<close> as objects of the static allocator. It
  establishes the invariant of \<^theory_text>\<open>Kmalloc_Inv\<close>, and with it the properties of \<^verbatim>\<open>kmalloc\<close> and
  \<^verbatim>\<open>kfree\<close> hold for every later sequence of requests.
\<close>

lemma kinv_new_cache:
  assumes inv: "kinv s K F R" and k: "k \<notin> K" and sz: "0 < sz" "slab_n_pages sz \<le> 2 ^ MAX_ORDER"
    and s': "s' = s\<lparr>caches := (caches s)(k := \<lparr>cache_full = [], cache_free = [], obj_size = sz\<rparr>)\<rparr>"
  shows "kinv s' (insert k K) F R" "live_objs s' (insert k K) F = live_objs s K F"
proof -
  have c: "caches s' x = caches s x" if "x \<in> K" for x using that k by (auto simp: s')
  have so: "slabs_of s' x = slabs_of s x" if "x \<in> K" for x using c [OF that] by (simp add: slabs_of_def)
  have e: "slabs_of s' k = {}" by (simp add: slabs_of_def s')
  have "(\<Union>x\<in>K. slabs_of s' x) = (\<Union>x\<in>K. slabs_of s x)" using so by simp
  then have U: "(\<Union>x\<in>insert k K. slabs_of s' x) = (\<Union>x\<in>K. slabs_of s x)" by (simp add: e)
  have same: "pm s' = pm s" "slabs s' = slabs s" "freearr s' = freearr s" by (simp_all add: s')
  have "cache_ok s' F x" if "x \<in> K" for x
    using inv that c [OF that] so [OF that] same by (simp add: kinv_def cache_ok_def slab_ok_def)
  moreover have "cache_ok s' F k" using sz e by (simp add: cache_ok_def) (simp add: s')
  ultimately show "kinv s' (insert k K) F R" using inv same(1) U by (simp add: kinv_def)
  have "is_live s' (insert k K) F a x sl i = is_live s K F a x sl i" for a x sl i
  proof (cases "x = k")
    case True
    then show ?thesis using e k by (simp add: is_live_def)
  next
    case False
    then show ?thesis using c so same by (auto simp: is_live_def slot_def)
  qed
  then show "live_objs s' (insert k K) F = live_objs s K F" by (simp add: live_objs_def)
qed

lemma live_pos: "kinv s K F R \<Longrightarrow> a \<in> live_objs s K F \<Longrightarrow> a \<noteq> 0"
proof -
  assume inv: "kinv s K F R" and "a \<in> live_objs s K F"
  then obtain k sl i where "is_live s K F a k sl i" using live_objsD by blast
  from live_page(2,7) [OF inv this] show "a \<noteq> 0" using slab_okD(3) by force
qed

text \<open>The state in which \<open>m\<close> more object allocators can be created.\<close>

definition can_create :: "kmalloc_state \<Rightarrow> addr set \<Rightarrow> (addr \<Rightarrow> nat list) \<Rightarrow> nat \<Rightarrow> bool" where
  "can_create s K F m \<longleftrightarrow> allocator_cache \<in> K \<and> K - {allocator_cache} \<subseteq> live_objs s K F \<and>
     (m \<le> free_slots s F allocator_cache \<or> free_slots s F allocator_cache = 0 \<and> m \<le> MIN_OBJS_PER_SLAB \<and>
      (\<exists>ord. slab_n_pages (obj_size (caches s allocator_cache)) \<le> 2 ^ ord \<and> freeblocks (pm s) ord \<noteq> [])) \<and>
     (\<forall>(k, sz)\<in>set (kmalloc_allocators s). k \<in> K \<and> obj_size (caches s k) = sz)"

lemma kmem_cache_create_ok:
  assumes inv: "kinv s K F R" and cc: "can_create s K F (Suc m)"
    and sz: "0 < sz" "slab_n_pages sz \<le> 2 ^ MAX_ORDER"
  shows "\<exists>k s' K' F'. kmem_cache_create sz s = Some (Some k, s') \<and> kinv s' K' F' R \<and>
    kmalloc_allocators s' = kmalloc_allocators s \<and>
    can_create (s'\<lparr>kmalloc_allocators := kmalloc_allocators s' @ [(k, sz)]\<rparr>) K' F' m"
proof -
  have K0: "0 \<in> K" "K - {0} \<subseteq> live_objs s K F" using cc by (auto simp: can_create_def)
  obtain x s1 F1 where a: "kmem_cache_alloc 0 s = Some (x, s1)" "same_sizes s s1" "kinv s1 K F1 R"
    "case x of None \<Rightarrow> live_objs s1 K F1 = live_objs s K F \<and> free_slots s F 0 = 0 \<and>
        (\<forall>ord. slab_n_pages (obj_size (caches s 0)) \<le> 2 ^ ord \<longrightarrow> freeblocks (pm s) ord = [])
     | Some a \<Rightarrow> a \<notin> live_objs s K F \<and> live_objs s1 K F1 = insert a (live_objs s K F) \<and>
        Suc (free_slots s1 F1 0) = (if free_slots s F 0 = 0 then slab_n_objs (obj_size (caches s 0)) else free_slots s F 0)"
    using kmem_cache_alloc_ok [OF inv K0(1)] by (fastforce split: option.splits)
  have "x \<noteq> None" using a(4) cc unfolding can_create_def by (cases x) auto
  then obtain k where k: "x = Some k" by auto
  then have live: "k \<notin> live_objs s K F" "live_objs s1 K F1 = insert k (live_objs s K F)"
    and fs: "m \<le> free_slots s1 F1 0"
    using a(4) cc slab_n_objs_min [of "obj_size (caches s 0)"] by (auto simp: can_create_def split: if_splits)
  have k0: "k \<noteq> 0" using live_pos [OF a(3)] live(2) by blast
  then have kK: "k \<notin> K" using K0(2) live(1) by auto
  let ?s = "s1\<lparr>caches := (caches s1)(k := \<lparr>cache_full = [], cache_free = [], obj_size = sz\<rparr>)\<rparr>"
  note N = kinv_new_cache [OF a(3) kK sz refl]
  let ?t = "?s\<lparr>kmalloc_allocators := kmalloc_allocators ?s @ [(k, sz)]\<rparr>"
  have "kmem_cache_create sz s = Some (Some k, ?s)" using a(1) k by (simp add: kmem_cache_create_def)
  moreover have "live_objs ?t (insert k K) F1 = live_objs ?s (insert k K) F1"
    by (simp add: live_objs_def is_live_def slabs_of_def slot_def)
  moreover have "free_slots ?t F1 0 = free_slots s1 F1 0" using k0 by (simp add: free_slots_def)
  moreover have "obj_size (caches ?t y) = z \<and> y \<in> insert k K" if "(y, z) \<in> set (kmalloc_allocators ?t)" for y z
    using that a(2) cc kK by (auto simp: same_sizes_def can_create_def)
  ultimately have "can_create ?t (insert k K) F1 m"
    using K0 N(2) live(2) fs unfolding can_create_def by auto
  moreover have "kmalloc_allocators ?s = kmalloc_allocators s" using a(2) by (simp add: same_sizes_def)
  ultimately show ?thesis using N(1) \<open>kmem_cache_create sz s = Some (Some k, ?s)\<close> by blast
qed

lemma create_allocators_ok:
  assumes "kinv s K F R" "can_create s K F (length szs)"
    "\<forall>sz\<in>set szs. 0 < sz \<and> slab_n_pages sz \<le> 2 ^ MAX_ORDER"
  shows "\<exists>s' K' F'. create_allocators szs s = Some s' \<and> kinv s' K' F' R \<and> can_create s' K' F' 0 \<and>
    map snd (kmalloc_allocators s') = map snd (kmalloc_allocators s) @ szs"
  using assms
proof (induction szs arbitrary: s K F)
  case (Cons sz szs)
  then obtain k s1 K1 F1 where c: "kmem_cache_create sz s = Some (Some k, s1)" "kinv s1 K1 F1 R"
    "kmalloc_allocators s1 = kmalloc_allocators s"
    "can_create (s1\<lparr>kmalloc_allocators := kmalloc_allocators s1 @ [(k, sz)]\<rparr>) K1 F1 (length szs)"
    using kmem_cache_create_ok [OF Cons.prems(1), of "length szs" sz] by auto
  let ?s = "s1\<lparr>kmalloc_allocators := kmalloc_allocators s1 @ [(k, sz)]\<rparr>"
  have "kinv ?s K1 F1 R" using c(2) by (simp add: kinv_def cache_ok_def slabs_of_def slab_ok_def)
  then obtain s' K' F' where "create_allocators szs ?s = Some s'" "kinv s' K' F' R" "can_create s' K' F' 0"
    "map snd (kmalloc_allocators s') = map snd (kmalloc_allocators ?s) @ szs"
    using Cons.IH [OF _ c(4)] Cons.prems(3) by auto
  then show ?case using c(1,3) by auto
qed auto

lemma kmalloc_init_ok:
  assumes p: "pmem_inv (pm s) R" and m: "2 \<le> ord" "freeblocks (pm s) ord \<noteq> []"
  shows "\<exists>s'. kmalloc_init s = Some s' \<and> kclients s' {} \<and>
    map snd (kmalloc_allocators s') = [32, 64, 128, 256, 512, 1024, 2048, 4096]"
proof -
  let ?s = "s\<lparr>caches := (caches s)(0 := \<lparr>cache_full = [], cache_free = [], obj_size = sizeof_kmem_cache\<rparr>),
              kmalloc_allocators := []\<rparr>"
  let ?szs = "[32, 64, 128, 256, 512, 1024, 2048, 4096] :: nat list"
  have e: "slabs_of ?s 0 = {}" by (simp add: slabs_of_def)
  have n: "slab_n_pages sizeof_kmem_cache = 3" by (simp add: slab_n_pages_def pg_round_up_def)
  have "0 \<in> R" using p by (simp add: pmem_inv_def)
  then have inv: "kinv ?s {0} (\<lambda>_. []) R"
    using p n by (simp add: kinv_def e cache_ok_def)
  have "(2::nat) ^ 2 \<le> 2 ^ ord" using m(1) by (rule power_increasing) simp
  then have "3 \<le> (2::nat) ^ ord" by simp
  then have cc: "can_create ?s {0} (\<lambda>_. []) (length ?szs)"
    using m(2) n by (auto simp: can_create_def free_slots_def)
  have szs: "\<forall>sz\<in>set ?szs. 0 < sz \<and> slab_n_pages sz \<le> 2 ^ MAX_ORDER"
    by (simp add: slab_n_pages_def pg_round_up_def)
  obtain s' K' F' where c: "create_allocators ?szs ?s = Some s'" "kinv s' K' F' R" "can_create s' K' F' 0"
    "map snd (kmalloc_allocators s') = ?szs" using create_allocators_ok [OF inv cc szs] by auto
  have "kmalloc_allocators s' \<noteq> []" using c(4) by auto
  then have "kclients s' {}"
    using c(2,3) unfolding kclients_def can_create_def 
    by (intro exI [of _ K'] exI [of _ F'] exI [of _ R] exI [of _ "live_objs s' K' F'"]) auto
  then show ?thesis using c(1,4) by (simp add: kmalloc_init_def)
qed


subsection \<open>Properties\<close>


text \<open>A memory of eight pages with one block of four for the slab of the object allocators.\<close>

definition slab_pmem :: pmem where
  "slab_pmem = small_pmem\<lparr>npages := 8, freeblocks := (\<lambda>_. [])(0 := [1], 1 := [2], 2 := [4]),
     pages := (\<lambda>p. (pages small_pmem p)\<lparr>order := (if p = 2 then 1 else if p = 4 then 2 else 0)\<rparr>)\<rparr>"

definition kmalloc_boot :: kmalloc_state where
  "kmalloc_boot = \<lparr>pm = slab_pmem, slabs = (\<lambda>_. \<lparr>objs = 0, slab_free = 0, n_pages = 0\<rparr>), freearr = (\<lambda>_. []),
     caches = (\<lambda>_. \<lparr>cache_full = [], cache_free = [], obj_size = 0\<rparr>), kmalloc_allocators = [], kmem = (\<lambda>_. 0)\<rparr>"

lemma slab_pmem_inv: "pmem_inv slab_pmem {0}"
proof -
  have "tiles (\<lambda>_. None) 0" by (simp add: tiles_def)
  from tiles_extend [OF tiles_extend [OF tiles_extend [OF tiles_extend [OF this, of 0], of 0], of 1], of 2]
  have "tiles [0 \<mapsto> 0, 1 \<mapsto> 0, 2 \<mapsto> 1, 4 \<mapsto> 2] 8" by (simp add: numeral_eq_Suc)
  then have "buddy_rep slab_pmem [0 \<mapsto> 0, 1 \<mapsto> 0, 2 \<mapsto> 1, 4 \<mapsto> 2] {0} (npages slab_pmem)"
    by (intro buddy_repI) (auto simp: slab_pmem_def small_pmem_def split: if_splits)
  then show ?thesis unfolding pmem_inv_def by (auto simp: slab_pmem_def small_pmem_def)
qed

lemma kmalloc_boot_started: "\<exists>s. kmalloc_init kmalloc_boot = Some s \<and> kclients s {}"
proof -
  have "pm kmalloc_boot = slab_pmem" by (simp add: kmalloc_boot_def)
  moreover have "freeblocks slab_pmem 2 \<noteq> []" by (simp add: slab_pmem_def)
  ultimately show ?thesis using kmalloc_init_ok [of kmalloc_boot "{0}" 2] slab_pmem_inv by auto
qed


text \<open>C4: From the start of the slab allocator on, no sequence of \<^verbatim>\<open>kmalloc\<close> and \<^verbatim>\<open>kfree\<close> calls panics,
  and the objects that are live at the end are pairwise disjoint: the composition of the slab allocator
  with the page allocator.\<close>

theorem kmalloc_clients_disjoint:
  assumes "pmem_inv (pm s) R" "2 \<le> ord" "freeblocks (pm s) ord \<noteq> []"
  shows "\<exists>s0 L s'. kmalloc_init s = Some s0 \<and> km.serve_all rs ([], s0) = Some (L, s') \<and>
    (\<forall>i j. i < j \<and> j < length L \<longrightarrow> obj_region s' (L ! i) \<inter> obj_region s' (L ! j) = {})"
proof -
  obtain s0 where s0: "kmalloc_init s = Some s0" "kclients s0 {}" using kmalloc_init_ok [OF assms] by blast
  then have "km.live ([], s0)" by (simp add: km.live_def)
  moreover have "km.request_ok r" for r by (cases r) auto
  ultimately show ?thesis using km.serve_all_disjoint [of "([], s0)" rs] s0(1) by auto
qed

theorem kmalloc_clients_disjoint_witness:
  "\<exists>s0 L s'. kmalloc_init kmalloc_boot = Some s0 \<and>
    km.serve_all [Alloc 32, Alloc 1000, Free 0, Alloc 0, Alloc 5000] ([], s0) = Some (L, s')"
proof -
  have "pm kmalloc_boot = slab_pmem" "freeblocks slab_pmem 2 \<noteq> []" by (simp_all add: kmalloc_boot_def slab_pmem_def)
  then show ?thesis
    using kmalloc_clients_disjoint [of kmalloc_boot "{0}" 2 "[Alloc 32, Alloc 1000, Free 0, Alloc 0, Alloc 5000]"]
      slab_pmem_inv by auto
qed

end
