(* ===== verification/Vpmap_Props.thy ===== *)
theory Vpmap_Props
  imports Vpmap_Inv Kmalloc_Init
begin

section \<open>Properties of the page tables\<close>

text \<open>
  Mapping pages and looking them up, for any number of pages and any wrap-around of the address, and the
  effect of unmapping a page on its neighbours.
\<close>

lemma vpage_add: "vpage (v + of_nat i * 0x1000) = (vpage v + i) mod 2 ^ 36"
proof -
  have "unat (v + of_nat i * 0x1000) = (unat v + i * 4096) mod 2 ^ 64"
  proof -
    have "v + of_nat i * 0x1000 = of_nat (unat v + i * 4096)" by simp
    then show ?thesis by (simp only: unat_of_nat) simp
  qed
  moreover have "(unat v + i * 4096) mod (2 ^ 12 * 2 ^ 52) div 2 ^ 12 = (unat v + i * 4096) div 2 ^ 12 mod 2 ^ 52"
    by (subst mod_mult2_eq) simp
  moreover have "(unat v + i * 4096) div 2 ^ 12 = unat v div 2 ^ 12 + i" by simp
  ultimately have "unat (v + of_nat i * 0x1000) div 2 ^ 12 = (unat v div 2 ^ 12 + i) mod 2 ^ 52"
    by (simp add: add.commute)
  then have "vpage (v + of_nat i * 0x1000) = (unat v div 2 ^ 12 + i) mod 2 ^ 52 mod 2 ^ 36" by (simp add: vpage_def)
  also have "\<dots> = (unat v div 2 ^ 12 + i) mod 2 ^ 36" by (rule mod_mod_cancel) (simp add: le_imp_power_dvd)
  also have "\<dots> = (vpage v + i) mod 2 ^ 36" by (simp add: vpage_def mod_add_left_eq)
  finally show ?thesis .
qed

lemma vpage_lt: "vpage v < 2 ^ 36"
  by (simp add: vpage_def)

lemma shift_mod_inj:
  assumes "(a + i) mod m = (a + j) mod (m::nat)" "i < m" "j < m"
  shows "i = j"
  using assms
proof (induction i j rule: linorder_wlog)
  case (le i j)
  then have "m dvd (a + j) - (a + i)" by (metis mod_eq_dvd_iff_nat nat_add_left_cancel_le)
  then have "m dvd j - i" by simp
  then show ?case using le by (metis dvd_imp_le less_imp_diff_less linorder_not_less diff_is_0_eq' le_antisym zero_less_diff)
qed auto

lemma vpage_inj:
  assumes "vpage (v + of_nat i * 0x1000) = vpage (v + of_nat j * 0x1000)" "i < 2 ^ 36" "j < 2 ^ 36"
  shows "i = j"
  using assms by (intro shift_mod_inj [of "vpage v" i "2 ^ 36" j]) (simp_all add: vpage_add)

subsection \<open>Mapping\<close>

lemma map_loop_ok:
  assumes "tree_ok s r A" "n \<le> 2 ^ 36"
  shows "\<exists>err s' A'. map_loop n r v p perm s = Some (err, s') \<and> tree_ok s' r A' \<and> vpmaps s' = vpmaps s \<and>
    (err = ERR_OK \<or> err = ERR_VPMAP_MAP) \<and>
    (\<forall>w. (\<forall>i<n. vpage w \<noteq> vpage (v + of_nat i * 0x1000)) \<longrightarrow> entry s' r w = entry s r w) \<and>
    (err = ERR_OK \<longrightarrow> (\<forall>i<n. entry s' r (v + of_nat i * 0x1000) = (PPN (p + of_nat i * 0x1000) OR 1 OR perm)))"
  using assms
proof (induction n arbitrary: s A v p)
  case 0
  then show ?case by auto
next
  case (Suc n)
  obtain x s1 A1 where f: "find_pte r v True s = Some (x, s1)" "tree_ok s1 r A1" "\<forall>w. entry s1 r w = entry s r w"
    "vpmaps s1 = vpmaps s" "\<forall>loc. x = Some loc \<longrightarrow> (\<exists>t. loc = (t, PTX v) \<and> tab s1 r 3 v = Some t)"
    using find_pte_ok [OF Suc.prems(1), of v True] by blast
  show ?case
  proof (cases x)
    case None
    then show ?thesis using f by (intro exI [of _ ERR_VPMAP_MAP] exI [of _ s1] exI [of _ A1]) simp
  next
    case (Some loc)
    then obtain t where t: "loc = (t, PTX v)" "tab s1 r 3 v = Some t" using f(5) by blast
    define e where "e = (PPN p OR 1 OR perm)"
    define s2 where "s2 = pt_set loc e s1"
    note L = set_leaf [OF f(2) t(2), of s2 e]
    have s2: "tree_ok s2 r A1" "\<And>w. entry s2 r w = (if vpage w = vpage v then e else entry s1 r w)" "vpmaps s2 = vpmaps s1"
      using L t(1) by (simp_all add: s2_def)
    obtain err s' A' where IH: "map_loop n r (v + 0x1000) (p + 0x1000) perm s2 = Some (err, s')" "tree_ok s' r A'"
      "vpmaps s' = vpmaps s2" "err = ERR_OK \<or> err = ERR_VPMAP_MAP"
      "\<forall>w. (\<forall>i<n. vpage w \<noteq> vpage (v + 0x1000 + of_nat i * 0x1000)) \<longrightarrow> entry s' r w = entry s2 r w"
      "err = ERR_OK \<longrightarrow> (\<forall>i<n. entry s' r (v + 0x1000 + of_nat i * 0x1000) = (PPN (p + 0x1000 + of_nat i * 0x1000) OR 1 OR perm))"
      using Suc.IH [OF s2(1), of "v + 0x1000" "p + 0x1000"] Suc.prems(2) by auto
    have sh: "w + 0x1000 + of_nat i * 0x1000 = w + of_nat (Suc i) * 0x1000" for w :: u64 and i by (simp add: algebra_simps)
    have m: "map_loop (Suc n) r v p perm s = Some (err, s')"
      using f(1) Some IH(1) by (simp add: s2_def e_def)
    have "entry s' r w = entry s r w" if "\<forall>i<Suc n. vpage w \<noteq> vpage (v + of_nat i * 0x1000)" for w
    proof -
      have "vpage w \<noteq> vpage v" using that by (metis add.right_neutral mult_zero_left of_nat_0 zero_less_Suc)
      moreover have "\<forall>i<n. vpage w \<noteq> vpage (v + 0x1000 + of_nat i * 0x1000)"
        using that unfolding sh by (metis Suc_mono)
      ultimately show ?thesis using IH(5) s2(2) f(3) by simp
    qed
    moreover have "entry s' r (v + of_nat i * 0x1000) = (PPN (p + of_nat i * 0x1000) OR 1 OR perm)"
      if "err = ERR_OK" "i < Suc n" for i
    proof (cases i)
      case 0
      have "vpage v \<noteq> vpage (v + 0x1000 + of_nat j * 0x1000)" if "j < n" for j
        using vpage_inj [of v 0 "Suc j"] that Suc.prems(2) unfolding sh by auto
      then show ?thesis using 0 IH(5) s2(2) by (simp add: e_def)
    next
      case (Suc j)
      then show ?thesis using IH(6) that unfolding sh by auto
    qed
    ultimately show ?thesis using m IH(2,3,4) s2(3) f(4)
      by (intro exI [of _ err] exI [of _ s'] exI [of _ A']) auto
  qed
qed


lemma round_down_idem: "vpg_round_down (vpg_round_down v) = vpg_round_down v"
  by (simp add: vpg_round_down_def and.assoc)

lemma FFF_mask: "(0xFFF :: u64) = mask 12"
  by (simp add: mask_eq_exp_minus_1)

lemma round_down_aligned: "take_bit 12 v = 0 \<Longrightarrow> vpg_round_down v = v"
  unfolding vpg_round_down_def FFF_mask by (auto simp: bit_eq_iff bit_simps)

lemma aligned_round_down: "take_bit 12 (vpg_round_down v) = 0"
  unfolding vpg_round_down_def FFF_mask by (auto simp: bit_eq_iff bit_simps)

lemma aligned_unat: "take_bit 12 (v :: u64) = 0 \<longleftrightarrow> unat v mod 4096 = 0"
proof -
  have "take_bit 12 v = 0 \<longleftrightarrow> unat (take_bit 12 v) = 0" by (simp add: unsigned_eq_0_iff)
  also have "unat (take_bit 12 v) = take_bit 12 (unat v)" by (rule unsigned_take_bit_eq)
  finally show ?thesis by (simp add: take_bit_eq_mod)
qed

lemma aligned_add:
  assumes "take_bit 12 (v :: u64) = 0"
  shows "take_bit 12 (v + n * 0x1000) = 0"
proof -
  have "v + n * 0x1000 = of_nat (unat v + unat n * 4096)" by simp
  then have "unat (v + n * 0x1000) = (unat v + unat n * 4096) mod 2 ^ 64" by (simp only: unat_of_nat) simp
  then have "unat (v + n * 0x1000) mod 4096 = (unat v + unat n * 4096) mod 2 ^ 64 mod 4096" by simp
  also have "\<dots> = (unat v + unat n * 4096) mod 4096" by (rule mod_mod_cancel) simp
  finally show ?thesis using assms by (simp add: aligned_unat)
qed

lemma aligned_offset: "take_bit 12 v = 0 \<Longrightarrow> v - VPN v = 0"
  using round_down_aligned [of v] by (simp add: VPN_def vpg_round_down_def)

lemma PPN_pte: "PPN (PPN p OR 1 OR memperm_to_pteperm perm) = PPN p" "present (PPN p OR 1 OR memperm_to_pteperm perm)"
proof -
  let ?q = "memperm_to_pteperm perm"
  have q: "1 AND NOT 0xFFF AND NOT 0xFFF8000000000000 = (0 :: u64)" "?q AND NOT 0xFFF AND NOT 0xFFF8000000000000 = 0"
    by (cases perm; simp)+
  have "PPN (PPN p OR 1 OR ?q) = PPN (PPN p) OR PPN 1 OR PPN ?q"
    by (simp only: PPN_def bit.conj_disj_distrib2)
  also have "\<dots> = PPN (PPN p)" using q by (simp only: PPN_def) simp
  finally show "PPN (PPN p OR 1 OR ?q) = PPN p" by (simp add: PPN_def and.assoc and.left_commute)
  show "present (PPN p OR 1 OR memperm_to_pteperm perm)"
    by (auto simp: present_def bit_eq_iff bit_simps intro!: exI [of _ 0])
qed

text \<open>C6: Mapping \<open>n\<close> pages never panics. If it succeeds, looking up each of the pages gives its physical
  page, and the translation of every other page is as before; if it runs out of memory for page tables
  it says so, and no page outside the range has changed.\<close>

theorem vpmap_map_lookup:
  assumes "tree_ok s r A" "vpmaps s vp = Some r" "0 < n" "n \<le> 2 ^ 36"
    "v = vpg_round_down vaddr" "p = vpg_round_down paddr"
  shows "\<exists>err s'. vpmap_map vp vaddr paddr (of_nat n) perm s = Some (err, s') \<and>
    (err = ERR_OK \<or> err = ERR_VPMAP_MAP) \<and>
    (err = ERR_OK \<longrightarrow> (\<forall>i<n. vpmap_lookup_vaddr vp (v + of_nat i * 0x1000) s' =
        Some (ERR_OK, Some (PPN (p + of_nat i * 0x1000))))) \<and>
    (\<forall>w. (\<forall>i<n. vpage w \<noteq> vpage (v + of_nat i * 0x1000)) \<longrightarrow>
        vpmap_lookup_vaddr vp w s' = vpmap_lookup_vaddr vp w s)"
proof -
  have av: "take_bit 12 v = 0" by (simp add: assms(5) aligned_round_down)
  have n: "unat (of_nat n * 0x1000 :: u64) div 0x1000 = n"
  proof -
    have "(of_nat n * 0x1000 :: u64) = of_nat (n * 4096)" by simp
    moreover have "n * 4096 < 2 ^ 64" using assms(4) by simp
    ultimately have "unat (of_nat n * 0x1000 :: u64) = n * 4096" by (simp only: unat_of_nat) simp
    then show ?thesis by simp
  qed
  have "of_nat n \<noteq> (0 :: u64)" using assms(3) n by (metis div_0 mult_zero_left unat_0 less_irrefl)
  then have eq: "vpmap_map vp vaddr paddr (of_nat n) perm s = map_loop n r v p (memperm_to_pteperm perm) s"
    using assms(2) n round_down_aligned [OF av] round_down_aligned [OF aligned_add [OF av]]
    by (simp add: vpmap_map_def map_pages_def Let_def assms(5,6) [symmetric] round_down_idem)
      (simp add: assms(5,6) round_down_idem)
  obtain err s' A' where m: "map_loop n r v p (memperm_to_pteperm perm) s = Some (err, s')" "vpmaps s' = vpmaps s"
    "err = ERR_OK \<or> err = ERR_VPMAP_MAP"
    "\<forall>w. (\<forall>i<n. vpage w \<noteq> vpage (v + of_nat i * 0x1000)) \<longrightarrow> entry s' r w = entry s r w"
    "err = ERR_OK \<longrightarrow> (\<forall>i<n. entry s' r (v + of_nat i * 0x1000) = (PPN (p + of_nat i * 0x1000) OR 1 OR memperm_to_pteperm perm))"
    using map_loop_ok [OF assms(1,4), of v p "memperm_to_pteperm perm"] by blast
  have "vpmaps s' vp = Some r" using m(2) assms(2) by simp
  note L = vpmap_lookup_entry [OF this] vpmap_lookup_entry [OF assms(2)]
  have "vpmap_lookup_vaddr vp (v + of_nat i * 0x1000) s' = Some (ERR_OK, Some (PPN (p + of_nat i * 0x1000)))"
    if "err = ERR_OK" "i < n" for i
    using m(5) that PPN_pte aligned_offset [OF aligned_add [OF av]] unfolding L by simp
  then show ?thesis using eq m(1,3,4) L by (intro exI [of _ err] exI [of _ s']) auto
qed


text \<open>An address space without mappings, rooted in a page of the small memory.\<close>

definition empty_space :: vpst where
  "empty_space = \<lparr>km = kmalloc_boot\<lparr>pm := small_pmem\<rparr>, pt = (\<lambda>_ _. 0), vpmaps = [7 \<mapsto> 0], vpmap_allocator = None,
     kvpmap = 0, cr3 = 0\<rparr>"

lemma empty_space_ok: "tree_ok empty_space 0 {0}"
proof -
  have t: "tab empty_space 0 l v = (if l = 0 then Some 0 else None)" for l v
    by (induction l) (auto simp: empty_space_def present_def)
  have "pm (km empty_space) = small_pmem" "npages small_pmem = 4" by (simp_all add: empty_space_def small_pmem_def)
  then show ?thesis using small_pmem_inv by (auto simp: tree_ok_def t pre_def)
qed

theorem vpmap_map_lookup_witness:
  "\<exists>err s'. vpmap_map 7 0x400123 0x2000 1 MEMPERM_URW empty_space = Some (err, s') \<and>
    (err = ERR_OK \<longrightarrow> vpmap_lookup_vaddr 7 (vpg_round_down 0x400123) s' = Some (ERR_OK, Some (PPN 0x2000)))"
proof -
  have "vpmaps empty_space 7 = Some 0" by (simp add: empty_space_def)
  moreover have "vpg_round_down 0x2000 = 0x2000" by (simp add: vpg_round_down_def)
  ultimately show ?thesis
    using vpmap_map_lookup [OF empty_space_ok, where vp = 7 and n = 1 and vaddr = "0x400123" and paddr = "0x2000" and perm = MEMPERM_URW
      and v = "vpg_round_down 0x400123" and p = "0x2000"]
    by auto
qed

subsection \<open>Unmapping\<close>

lemma pdec_pt: "pdec a s = Some s' \<Longrightarrow> pt s' = pt s \<and> vpmaps s' = vpmaps s"
  by (auto simp: pdec_def elim!: bind_SomeE)

lemma clear_pte_effect:
  "clear_pte (t, i) s = Some s' \<Longrightarrow> pt s' = (pt s)(t := (pt s t)(i := 0)) \<and> vpmaps s' = vpmaps s"
  by (auto simp: clear_pte_def pt_get_def pt_set_def dest: pdec_pt split: if_splits elim!: bind_SomeE)

lemma clear_range_effect:
  "clear_range t i n s = Some s' \<Longrightarrow>
     pt s' = (pt s)(t := (\<lambda>j. if i \<le> j \<and> j < i + n then 0 else pt s t j)) \<and> vpmaps s' = vpmaps s"
proof (induction n arbitrary: i s)
  case 0
  have "(\<lambda>j. if i \<le> j \<and> j < i + 0 then 0 else pt s t j) = pt s t" by (rule ext) auto
  with 0 show ?case by simp
next
  case (Suc n)
  then obtain s1 where s1: "clear_pte (t, i) s = Some s1" "clear_range t (Suc i) n s1 = Some s'"
    by (auto elim!: bind_SomeE)
  from clear_pte_effect [OF s1(1)] Suc.IH [OF s1(2)] show ?case by (auto simp: fun_eq_iff)
qed

lemma next_page_idx:
  assumes "take_bit 12 v = 0" "PTX v < 511"
  shows "PTX (v + 0x1000) = Suc (PTX v)" "PDX (v + 0x1000) = PDX v" "PDPTX (v + 0x1000) = PDPTX v"
    "PML4X (v + 0x1000) = PML4X v" "PML4X (v + 0x1000 - 1) = PML4X v"
proof -
  define x where "x = unat v div 4096"
  have x: "x mod 512 < 511" using assms(2) by (simp add: PTX_def ENTRY_IDX_eq x_def)
  have v: "unat v = x * 4096" using assms(1) by (metis aligned_unat x_def div_mult_mod_eq add.right_neutral)
  have "unat v < 2 ^ 64" using unsigned_less [of v, where 'a = nat] by simp
  then have "x < 2 ^ 52" using v by simp
  then have "x + 1 < 2 ^ 52" using x by (cases "x = 2 ^ 52 - 1") auto
  then have lt: "(x + 1) * 4096 < 2 ^ 64" by simp
  have u1: "unat (v + 0x1000) = (x + 1) * 4096"
  proof -
    have "v + 0x1000 = of_nat (unat v + 4096)" by simp
    also have "unat v + 4096 = (x + 1) * 4096" using v by simp
    finally have "v + 0x1000 = of_nat ((x + 1) * 4096)" .
    then show ?thesis using lt by (simp only: unat_of_nat) simp
  qed
  have u2: "unat (v + 0x1000 - 1) = x * 4096 + 4095"
  proof -
    have "v + 0x1000 - 1 = of_nat (unat v + 4095)" by simp
    also have "unat v + 4095 = x * 4096 + 4095" using v by simp
    finally have "v + 0x1000 - 1 = of_nat (x * 4096 + 4095)" .
    then show ?thesis using lt by (simp only: unat_of_nat) simp
  qed
  have d: "Suc x div 512 = x div 512" "Suc x mod 512 = Suc (x mod 512)"
    using x by (simp_all add: div_Suc mod_Suc)
  have e: "ENTRY_IDX w (12 + k) = unat w div 4096 div 2 ^ k mod 512" for w k
    by (simp add: ENTRY_IDX_eq power_add div_mult2_eq)
  have e9: "ENTRY_IDX w (21 + k) = unat w div 4096 div 512 div 2 ^ k mod 512" for w k
    using e [of w "9 + k"] by (simp add: power_add div_mult2_eq)
  have "unat (v + 0x1000) div 4096 = Suc x" "unat v div 4096 = x" "unat (v + 0x1000 - 1) div 4096 = x"
    using u1 u2 v by simp_all
  note E = e [of _ 0, simplified] e9 [of _ 0, simplified] e9 [of _ 9, simplified] e9 [of _ 18, simplified] this
  show "PTX (v + 0x1000) = Suc (PTX v)" "PDX (v + 0x1000) = PDX v" "PDPTX (v + 0x1000) = PDPTX v"
    "PML4X (v + 0x1000) = PML4X v" "PML4X (v + 0x1000 - 1) = PML4X v"
    unfolding PTX_def PDX_def PDPTX_def PML4X_def E d by simp_all
qed


lemma round_down_idx: "PTX (vpg_round_down v) = PTX v" "PDX (vpg_round_down v) = PDX v"
  "PDPTX (vpg_round_down v) = PDPTX v" "PML4X (vpg_round_down v) = PML4X v"
proof -
  have "drop_bit sh (vpg_round_down v) = drop_bit sh v" if "12 \<le> sh" for sh
    unfolding vpg_round_down_def FFF_mask by (rule bit_eqI) (use that bit_imp_le_length [of v] in \<open>auto simp: bit_simps\<close>)
  then show "PTX (vpg_round_down v) = PTX v" "PDX (vpg_round_down v) = PDX v"
    "PDPTX (vpg_round_down v) = PDPTX v" "PML4X (vpg_round_down v) = PML4X v"
    by (simp_all add: PTX_def PDX_def PDPTX_def PML4X_def ENTRY_IDX_def)
qed

lemma unmap_none: "unmap_pd pd e i j 0 f = Some" "unmap_pdpt pd v e i j 0 f = Some" "unmap_pml4 pd v e i j 0 f = Some"
  by (rule ext, simp)+

lemma unmap_one_page:
  assumes "vpmaps s vp = Some r" "tab s r 3 v = Some t" "PTX v < 511"
  shows "vpmap_unmap (Some vp) v 1 s = clear_range t (PTX v) (512 - PTX v) s"
proof -
  let ?v = "vpg_round_down v"
  have a: "take_bit 12 ?v = 0" by (rule aligned_round_down)
  note N = next_page_idx [OF a, unfolded round_down_idx, OF assms(3)]
  obtain t1 t2 where w: "present (pt s r (PML4X v))" "t1 = ENTRY_ADDR (pt s r (PML4X v))"
    "present (pt s t1 (PDPTX v))" "t2 = ENTRY_ADDR (pt s t1 (PDPTX v))"
    "present (pt s t2 (PDX v))" "t = ENTRY_ADDR (pt s t2 (PDX v))"
    using assms(2) by (auto simp: tab_simps split: if_splits elim!: bind_SomeE)
  have 1: "unmap_pd t2 (?v + 0x1000) (PDX v) (PTX v) (Suc 0) False s = clear_range t (PTX v) (512 - PTX v) s"
    using w N by (simp add: Let_def unmap_none)
  have 2: "unmap_pdpt t1 ?v (?v + 0x1000) (PDPTX v) (PDX v) (Suc 0) False s = clear_range t (PTX v) (512 - PTX v) s"
    using w N 1 by (simp add: Let_def round_down_idx unmap_none)
  have 3: "unmap_pml4 r ?v (?v + 0x1000) (PML4X v) (PDPTX v) (Suc 0) False s = clear_range t (PTX v) (512 - PTX v) s"
    using w N 2 by (simp add: Let_def round_down_idx unmap_none)
  show ?thesis using assms(1) N 3 by (simp add: vpmap_unmap_def unmap_pages_def round_down_idx)
qed

text \<open>C7: Unmapping a single page also unmaps every page behind it in the same page table. The limit of
  the innermost loop is the end of the table when it should be the end of the range, so the mappings of
  up to 511 further pages, which may belong to other regions, are lost.\<close>

theorem vpmap_unmap_overreach:
  assumes "tree_ok s r A" "vpmaps s vp = Some r" "tab s r 3 v = Some t" "PTX v < 511"
    "vpmap_unmap (Some vp) v 1 s = Some s'" "pre v w 3" "PTX v \<le> PTX w"
  shows "vpmap_lookup_vaddr vp w s' = Some (ERR_VPMAP_NOTPRESENT, None)"
proof -
  have c: "clear_range t (PTX v) (512 - PTX v) s = Some s'"
    using unmap_one_page [OF assms(2-4)] assms(5) by simp
  note E = clear_range_effect [OF c]
  have tab': "tab s' r j x = tab s r j x" if "j \<le> 3" for j x
    using that
  proof (induction j)
    case (Suc j)
    have "pt s' t' i = pt s t' i" if "tab s r j x = Some t'" for t' i
    proof -
      have "t' \<noteq> t" using tree_okD(4) [OF assms(1) _ _ that, of 3 v] assms(3) Suc.prems by auto
      then show ?thesis using E by simp
    qed
    then show ?case using Suc by (cases "tab s r j x") auto
  qed simp
  have "tab s' r 3 w = Some t" using tab' [of 3 w] tab_pre [OF assms(6), of s r] assms(3) by simp
  moreover have "PTX w < 512" by (simp add: PTX_def ENTRY_IDX_eq)
  ultimately have "entry s' r w = 0" using E assms(7) by (simp add: entry_def)
  moreover have "vpmaps s' vp = Some r" using E assms(2) by simp
  ultimately show ?thesis by (simp add: vpmap_lookup_entry present_def)
qed


text \<open>Two pages mapped next to each other, in a memory of eight pages that are all in use.\<close>

definition full_pmem :: pmem where
  "full_pmem = small_pmem\<lparr>npages := 8, freeblocks := (\<lambda>_. []),
     pages := (\<lambda>p. (pages small_pmem p)\<lparr>order := 0, refcnt := 1\<rparr>)\<rparr>"

definition two_pages :: vpst where
  "two_pages = empty_space\<lparr>km := kmalloc_boot\<lparr>pm := full_pmem\<rparr>, vpmaps := [7 \<mapsto> 0x1000],
     pt := (\<lambda>_ _. 0)(0x1000 := (\<lambda>_. 0)(0 := 0x2007), 0x2000 := (\<lambda>_. 0)(0 := 0x3007),
            0x3000 := (\<lambda>_. 0)(0 := 0x4007), 0x4000 := (\<lambda>_. 0)(0 := 0x5007, 1 := 0x6007))\<rparr>"

lemma full_pmem_inv: "pmem_inv full_pmem {..<8}"
proof -
  have "tiles (\<lambda>h. if h < k then Some 0 else None) k" for k
  proof (induction k)
    case (Suc k)
    have e: "(\<lambda>h. if h < Suc k then Some 0 else None) = (\<lambda>h. if h < k then Some 0 else None)(k \<mapsto> 0)" by (rule ext) auto
    show ?case unfolding e using tiles_extend [OF Suc, of 0] by simp
  qed (simp add: tiles_def)
  then have "buddy_rep full_pmem (\<lambda>h. if h < 8 then Some 0 else None) {..<8} (npages full_pmem)"
    by (intro buddy_repI) (auto simp: full_pmem_def split: if_splits)
  then show ?thesis unfolding pmem_inv_def by (auto simp: full_pmem_def small_pmem_def)
qed

lemma two_pages_tab:
  assumes "l \<le> 3"
  shows "tab two_pages 0x1000 l v = (if \<forall>j<l. idx v j = 0 then Some (Suc l * pg_size) else None)"
  using assms
proof (induction l)
  case (Suc l)
  then have "l = 0 \<or> l = Suc 0 \<or> l = Suc (Suc 0)" by auto
  moreover have "pt two_pages 0x1000 i = (if i = 0 then 0x2007 else 0)" "pt two_pages 0x2000 i = (if i = 0 then 0x3007 else 0)"
    "pt two_pages 0x3000 i = (if i = 0 then 0x4007 else 0)" for i by (simp_all add: two_pages_def)
  moreover have "ENTRY_ADDR 0x2007 = 0x2000" "ENTRY_ADDR 0x3007 = 0x3000" "ENTRY_ADDR 0x4007 = 0x4000"
    "present 0x2007" "present 0x3007" "present 0x4007" "\<not> present 0" by (simp_all add: ENTRY_ADDR_def present_def)
  ultimately show ?case using Suc by (elim disjE) (simp_all add: less_Suc_eq)
qed simp

lemma two_pages_ok: "tree_ok two_pages 0x1000 {..<8}"
proof -
  have "pm (km two_pages) = full_pmem" "npages full_pmem = 8" by (simp_all add: two_pages_def full_pmem_def)
  moreover have "\<exists>p\<in>{..<8}. t = p * pg_size" if "l \<le> 3" "tab two_pages 0x1000 l v = Some t" for l v t
    using that by (intro bexI [of _ "Suc l"]) (auto simp: two_pages_tab split: if_splits)
  moreover have "l = l' \<and> pre v v' l"
    if "l \<le> 3" "l' \<le> 3" "tab two_pages 0x1000 l v = Some t" "tab two_pages 0x1000 l' v' = Some t" for l l' v v' t
    using that by (auto simp: two_pages_tab pre_def split: if_splits)
  ultimately show ?thesis using full_pmem_inv unfolding tree_ok_def by simp blast
qed

lemma clear_range_none:
  assumes "\<forall>j. i \<le> j \<and> j < i + n \<longrightarrow> pt s t j = 0"
  shows "clear_range t i n s = Some s"
  using assms
proof (induction n arbitrary: i)
  case (Suc n)
  have "(pt s)(t := (pt s t)(i := 0)) = pt s" using Suc.prems by (auto simp: fun_eq_iff)
  then have "clear_pte (t, i) s = Some s" using Suc.prems by (simp add: clear_pte_def pt_get_def present_def pt_set_def)
  then show ?case using Suc by simp
qed simp

lemma low_idx: "PTX 0 = 0" "idx 0 j = 0" "PTX 0x1000 = 1" "pre 0 0x1000 3"
proof -
  show z: "idx 0 j = 0" for j
    by (cases "(0::u64, j)" rule: idx.cases) (simp_all add: PML4X_def PDPTX_def PDX_def PTX_def ENTRY_IDX_eq)
  show "PTX 0 = 0" "PTX 0x1000 = 1" by (simp_all add: PTX_def ENTRY_IDX_eq)
  have "PML4X 0x1000 = 0" "PDPTX 0x1000 = 0" "PDX 0x1000 = 0"
    by (simp_all add: PML4X_def PDPTX_def PDX_def ENTRY_IDX_eq)
  then show "pre 0 0x1000 3" using z [of 0] z [of 1] z [of 2]
    by (simp add: pre_Suc numeral_3_eq_3 numeral_2_eq_2) (simp add: pre_def)
qed

lemma two_pages_leaf: "tab two_pages 0x1000 3 0 = Some 0x4000"
  using two_pages_tab [of 3 0] by (simp add: low_idx)

lemma two_pages_unmap: "\<exists>s'. vpmap_unmap (Some 7) 0 1 two_pages = Some s'"
proof -
  note i0 = low_idx(1,2) and t = two_pages_leaf
  have u: "vpmap_unmap (Some 7) 0 1 two_pages = clear_range 0x4000 0 512 two_pages"
    using unmap_one_page [OF _ t, of 7] i0 by (simp add: two_pages_def)
  have P: "PPN 0x5007 = 0x5000" "PPN 0x6007 = 0x6000" by (simp_all add: PPN_def)
  obtain m1 where m1: "pmem_dec_refcnt 0x5000 full_pmem = Some m1" "pmem_inv m1 ({..<8} - {5})"
    "\<forall>g\<in>{..<8} - {5}. \<forall>x\<in>block full_pmem g. pages m1 x = pages full_pmem x"
    using pmem_dec_refcnt_ok [OF full_pmem_inv, of 5 "0x5000"] by (auto simp: full_pmem_def)
  have "pages m1 6 = pages full_pmem 6" using m1(3) self_block [of 6 full_pmem] by force
  then have "order (pages m1 6) = 0" by (simp add: full_pmem_def)
  then obtain m2 where m2: "pmem_dec_refcnt 0x6000 m1 = Some m2"
    using pmem_dec_refcnt_ok [OF m1(2), of 6 "0x6000"] by auto
  define s1 where "s1 = pt_set (0x4000, 0) 0 (two_pages\<lparr>km := (km two_pages)\<lparr>pm := m1\<rparr>\<rparr>)"
  define s2 where "s2 = pt_set (0x4000, 1) 0 (s1\<lparr>km := (km s1)\<lparr>pm := m2\<rparr>\<rparr>)"
  have c0: "clear_pte (0x4000, 0) two_pages = Some s1"
    using m1(1) P by (simp add: clear_pte_def pt_get_def two_pages_def present_def pdec_def s1_def)
  have c1: "clear_pte (0x4000, 1) s1 = Some s2"
    using m2 P by (simp add: clear_pte_def pt_get_def two_pages_def present_def pdec_def s1_def s2_def pt_set_def)
  have c2: "clear_range 0x4000 2 510 s2 = Some s2"
    by (rule clear_range_none) (simp add: s1_def s2_def pt_set_def two_pages_def)
  have "clear_range 0x4000 1 (Suc 510) s1 = Some s2"
    using c1 c2 by (subst clear_range.simps) (simp add: numeral_2_eq_2)
  then have "clear_range 0x4000 0 (Suc 511) two_pages = Some s2"
    using c0 by (subst clear_range.simps) simp
  then show ?thesis using u by simp
qed

theorem vpmap_unmap_overreach_witness:
  "vpmap_lookup_vaddr 7 0x1000 two_pages = Some (ERR_OK, Some 0x6000) \<and>
   (\<exists>s'. vpmap_unmap (Some 7) 0 1 two_pages = Some s' \<and>
         vpmap_lookup_vaddr 7 0x1000 s' = Some (ERR_VPMAP_NOTPRESENT, None))"
proof -
  note i = low_idx(1,3,4) and t = two_pages_leaf
  have vp: "vpmaps two_pages 7 = Some 0x1000" by (simp add: two_pages_def)
  obtain s' where s': "vpmap_unmap (Some 7) 0 1 two_pages = Some s'" using two_pages_unmap by blast
  have "vpmap_lookup_vaddr 7 0x1000 s' = Some (ERR_VPMAP_NOTPRESENT, None)"
    using vpmap_unmap_overreach [OF two_pages_ok vp t _ s' i(3)] i by simp
  moreover have "entry two_pages 0x1000 0x1000 = 0x6007"
    using t tab_pre [OF i(3), of two_pages "0x1000"] i by (simp add: entry_def) (simp add: two_pages_def)
  then have "vpmap_lookup_vaddr 7 0x1000 two_pages = Some (ERR_OK, Some 0x6000)"
    by (simp add: vpmap_lookup_entry [OF vp] present_def PPN_def VPN_def)
  ultimately show ?thesis using s' by blast
qed

end
