(* ===== verification/Vm.thy ===== *)
theory Vm
  imports Vpmap KList
begin

section \<open>Address spaces (kernel/mm/vm.c)\<close>

text \<open>
  Address spaces and memory regions on top of the page tables. The list of the regions of an address
  space is kept as the list of their addresses; \<^verbatim>\<open>list_append_ordered\<close> is \<open>insert_before\<close>, the
  function that \<^verbatim>\<open>KList\<close> shows it to compute. Of the sleeplock of an address space only the holder is
  kept: an operation that finds the lock taken does not get past it, which is \<open>None\<close> here as a panic is.
  \<open>cur_as\<close> is the address space of the running process, if there is one.
\<close>

abbreviation (input) ADDR_ANYWHERE :: u64 where "ADDR_ANYWHERE \<equiv> 0xFFFFFFF"
abbreviation (input) ERR_VM_BOUND :: err_t where "ERR_VM_BOUND \<equiv> 1"
abbreviation (input) ERR_VM_INVALID :: err_t where "ERR_VM_INVALID \<equiv> 2"
abbreviation (input) ERR_VM_RESOURCE_UNAVAIL :: err_t where "ERR_VM_RESOURCE_UNAVAIL \<equiv> 3"
abbreviation (input) kvm_base :: u64 where "kvm_base \<equiv> KMAP_BASE"
abbreviation (input) USTACK_LOWERBOUND :: u64 where "USTACK_LOWERBOUND \<equiv> USTACK_UPPERBOUND - 10 * 0x1000"
abbreviation (input) sizeof_memregion :: nat where "sizeof_memregion \<equiv> 64"

record memregion =
  r_as :: addr
  r_start :: u64
  r_end :: u64
  r_perm :: memperm
  r_shared :: bool
  r_store :: "addr option"
  r_ofs :: int

record addrspace =
  regions :: "addr list"
  as_vpmap :: "addr option"
  as_holder :: "nat option"
  as_heap :: "addr option"

record vmst =
  vp :: vpst
  spaces :: "addr \<Rightarrow> addrspace"
  mregions :: "addr \<Rightarrow> memregion"
  memregion_allocator :: "addr option"
  kas :: addr
  cur_thread :: nat
  cur_as :: "addr option"

definition pg_ofs :: "u64 \<Rightarrow> u64" where
  "pg_ofs a = a AND 0xFFF"

definition is_user_addr :: "u64 \<Rightarrow> bool" where
  "is_user_addr a \<longleftrightarrow> a < kvm_base"

definition is_kern_memperm :: "memperm \<Rightarrow> bool" where
  "is_kern_memperm p \<longleftrightarrow> p = MEMPERM_R \<or> p = MEMPERM_RW"

definition is_write_memperm :: "memperm \<Rightarrow> bool" where
  "is_write_memperm p \<longleftrightarrow> p = MEMPERM_RW \<or> p = MEMPERM_URW"

definition upd_as :: "addr \<Rightarrow> (addrspace \<Rightarrow> addrspace) \<Rightarrow> vmst \<Rightarrow> vmst" where
  "upd_as a f s = s\<lparr>spaces := (spaces s)(a := f (spaces s a))\<rparr>"

definition upd_region :: "addr \<Rightarrow> (memregion \<Rightarrow> memregion) \<Rightarrow> vmst \<Rightarrow> vmst" where
  "upd_region r f s = s\<lparr>mregions := (mregions s)(r := f (mregions s r))\<rparr>"

definition as_acquire :: "addr \<Rightarrow> vmst \<Rightarrow> vmst option" where
  "as_acquire a s =
     do { kassert (as_holder (spaces s a) = None);
          Some (upd_as a (as_holder_update (\<lambda>_. Some (cur_thread s))) s) }"

definition as_release :: "addr \<Rightarrow> vmst \<Rightarrow> vmst option" where
  "as_release a s =
     do { kassert (as_holder (spaces s a) = Some (cur_thread s));
          Some (upd_as a (as_holder_update (\<lambda>_. None)) s) }"

definition flush_tlb :: "vmst \<Rightarrow> vmst option" where
  "flush_tlb s =
     do { v \<leftarrow> (case cur_as s of
                 None \<Rightarrow> vpmap_flush_tlb None (vp s)
               | Some a \<Rightarrow> do { v \<leftarrow> as_vpmap (spaces s a); vpmap_flush_tlb (Some v) (vp s) });
          Some (s\<lparr>vp := v\<rparr>) }"

subsection \<open>Initialisation\<close>

definition kas_init :: "vmst \<Rightarrow> vmst" where
  "kas_init s = upd_as (kas s) (\<lambda>a. a\<lparr>regions := [], as_holder := None, as_vpmap := Some (kvpmap (vp s))\<rparr>) s"

text \<open>\<open>kdata\<close> is the address of \<^verbatim>\<open>_data\<close>, \<open>szpage\<close> the size of a \<^verbatim>\<open>struct page\<close>.\<close>

definition vm_init :: "u64 \<Rightarrow> nat \<Rightarrow> vmst \<Rightarrow> vmst option" where
  "vm_init kdata szpage s =
     do { p \<leftarrow> pmem_boot_init (pm (km (vp s)));
          v \<leftarrow> vpmap_init kdata ((vp s)\<lparr>km := (km (vp s))\<lparr>pm := p\<rparr>\<rparr>);
          p \<leftarrow> pmem_init szpage (pm (km v));
          k \<leftarrow> kmalloc_init ((km v)\<lparr>pm := p\<rparr>);
          (r, k) \<leftarrow> kmem_cache_create sizeof_memregion k;
          kassert (r \<noteq> None);
          Some (kas_init (s\<lparr>vp := v\<lparr>km := k\<rparr>, memregion_allocator := r\<rparr>)) }"

definition as_init :: "addr \<Rightarrow> vmst \<Rightarrow> (err_t \<times> vmst) option" where
  "as_init a s =
     do { let s = upd_as a (\<lambda>x. x\<lparr>as_holder := None, regions := []\<rparr>) s;
          (r, v) \<leftarrow> vpmap_create (vp s);
          let s = upd_as a (as_vpmap_update (\<lambda>_. r)) (s\<lparr>vp := v\<rparr>);
          case r of
              None \<Rightarrow> Some (ERR_VM_RESOURCE_UNAVAIL, s)
            | Some m \<Rightarrow>
                do { let s = upd_as a (as_heap_update (\<lambda>_. None)) s;
                     (err, v) \<leftarrow> vpmap_copy_kernel_mapping m (vp s);
                     Some (err, s\<lparr>vp := v\<rparr>) } }"

subsection \<open>Finding and mapping regions\<close>

definition memregion_comparator :: "vmst \<Rightarrow> addr \<Rightarrow> addr \<Rightarrow> int" where
  "memregion_comparator s a b = (if r_start (mregions s a) \<ge> r_end (mregions s b) then 1 else 0)"

fun find_region :: "(addr \<Rightarrow> memregion) \<Rightarrow> u64 \<Rightarrow> u64 \<Rightarrow> addr list \<Rightarrow> addr option" where
  "find_region m a sz [] = None"
| "find_region m a sz (r # rs) =
     (if a \<ge> r_start (m r) \<and> a + sz \<le> vpg_round_up (r_end (m r)) then Some r else find_region m a sz rs)"

definition memregion_find_internal :: "addr \<Rightarrow> u64 \<Rightarrow> u64 \<Rightarrow> vmst \<Rightarrow> addr option" where
  "memregion_find_internal as a sz s = find_region (mregions s) a sz (regions (spaces s as))"

fun free_vaddr_loop :: "(addr \<Rightarrow> memregion) \<Rightarrow> u64 \<Rightarrow> u64 \<Rightarrow> addr list \<Rightarrow> u64 option" where
  "free_vaddr_loop m sz a [] =
     (if vpg_round_up (a + sz) < USTACK_LOWERBOUND - sz then Some a else None)"
| "free_vaddr_loop m sz a (r # rs) =
     (if vpg_round_up (a + sz) < r_start (m r) then Some a
      else free_vaddr_loop m sz (vpg_round_up (r_end (m r))) rs)"

definition find_free_vaddr :: "addr \<Rightarrow> u64 \<Rightarrow> vmst \<Rightarrow> u64 option option" where
  "find_free_vaddr as sz s =
     do { kassert (as \<noteq> kas s);
          kassert (as_holder (spaces s as) = Some (cur_thread s));
          let rs = regions (spaces s as);
          Some (free_vaddr_loop (mregions s) sz (case rs of [] \<Rightarrow> 0 | r # _ \<Rightarrow> r_end (mregions s r)) rs) }"

text \<open>The slab allocator fills a new object with the byte \<open>0x2b\<close>. The region is linked into the list
  before its bounds are set, so this is what the comparison reads.\<close>

definition poisoned :: "memregion \<Rightarrow> memregion" where
  "poisoned r = r\<lparr>r_start := 0x2b2b2b2b2b2b2b2b, r_end := 0x2b2b2b2b2b2b2b2b\<rparr>"

definition memregion_map_internal ::
  "addr \<Rightarrow> u64 \<Rightarrow> u64 \<Rightarrow> memperm \<Rightarrow> addr option \<Rightarrow> int \<Rightarrow> bool \<Rightarrow> vmst \<Rightarrow> (addr option \<times> vmst) option" where
  "memregion_map_internal as a sz perm store ofs shared s =
     do { kassert (as_holder (spaces s as) = Some (cur_thread s));
          found \<leftarrow> (if a = ADDR_ANYWHERE then find_free_vaddr as sz s else Some (Some a));
          case found of
              None \<Rightarrow> Some (None, s)
            | Some a \<Rightarrow>
                do { kassert (vpg_aligned a);
                     kassert (a + vpg_round_up sz \<ge> a);
                     if as \<noteq> kas s \<and> (is_kern_memperm perm \<or> \<not> is_user_addr (vpg_round_up (a + sz) AND NOT 0xFFF))
                     then Some (None, s)
                     else if memregion_find_internal as a (a + sz) s \<noteq> None then Some (None, s)
                     else do {
                       ma \<leftarrow> memregion_allocator s;
                       (r, k) \<leftarrow> kmem_cache_alloc ma (km (vp s));
                       let s = s\<lparr>vp := (vp s)\<lparr>km := k\<rparr>\<rparr>;
                       case r of
                           None \<Rightarrow> Some (None, s)
                         | Some r \<Rightarrow>
                             do { let s = upd_region r poisoned s;
                                  let s = upd_as as (regions_update (insert_before (memregion_comparator s) r)) s;
                                  Some (Some r, s\<lparr>mregions := (mregions s)(r :=
                                    \<lparr>r_as = as, r_start = a, r_end = a + sz, r_perm = perm, r_shared = shared,
                                     r_store = store, r_ofs = ofs\<rparr>)\<rparr>) } } } }"

definition as_map_memregion ::
  "addr \<Rightarrow> u64 \<Rightarrow> u64 \<Rightarrow> memperm \<Rightarrow> addr option \<Rightarrow> int \<Rightarrow> bool \<Rightarrow> vmst \<Rightarrow> (addr option \<times> vmst) option" where
  "as_map_memregion as a sz perm store ofs shared s =
     do { s \<leftarrow> as_acquire as s;
          (r, s) \<leftarrow> memregion_map_internal as a sz perm store ofs shared s;
          s \<leftarrow> as_release as s;
          Some (r, s) }"

definition as_find_memregion :: "addr \<Rightarrow> u64 \<Rightarrow> u64 \<Rightarrow> vmst \<Rightarrow> (addr option \<times> vmst) option" where
  "as_find_memregion as a sz s =
     (if a > a + sz then Some (None, s)
      else do { s \<leftarrow> as_acquire as s;
                let r = memregion_find_internal as a sz s;
                s \<leftarrow> as_release as s;
                Some (r, s) })"

subsection \<open>Unmapping, extending and changing the permission\<close>

definition memregion_unmap_internal :: "addr \<Rightarrow> vmst \<Rightarrow> vmst option" where
  "memregion_unmap_internal r s =
     do { let as = r_as (mregions s r);
          let g = mregions s r;
          kassert (as_holder (spaces s as) = Some (cur_thread s));
          v \<leftarrow> vpmap_unmap (as_vpmap (spaces s as)) (r_start g) (vpg_round_up (r_end g - r_start g) div 0x1000) (vp s);
          let s = upd_as as (regions_update (remove1 r)) (s\<lparr>vp := v\<rparr>);
          s \<leftarrow> flush_tlb s;
          ma \<leftarrow> memregion_allocator s;
          k \<leftarrow> kmem_cache_free ma r (km (vp s));
          Some (s\<lparr>vp := (vp s)\<lparr>km := k\<rparr>\<rparr>) }"

definition memregion_unmap :: "addr \<Rightarrow> vmst \<Rightarrow> vmst option" where
  "memregion_unmap r s =
     do { let as = r_as (mregions s r);
          s \<leftarrow> as_acquire as s;
          s \<leftarrow> memregion_unmap_internal r s;
          as_release as s }"

definition extend_blocked :: "memregion \<Rightarrow> u64 \<Rightarrow> memregion \<Rightarrow> bool" where
  "extend_blocked g new_end c \<longleftrightarrow>
     r_start c < new_end \<and> r_start c \<ge> r_start g \<or> r_start g < r_end c \<and> r_start g \<ge> r_start c"

text \<open>The new bound is computed modulo \<open>2\<^sup>6\<^sup>4\<close>; \<open>sz\<close> is the signed size as a machine word. The result is
  the error code and the old bound, which is left alone on an error.\<close>

definition memregion_extend :: "addr \<Rightarrow> u64 \<Rightarrow> vmst \<Rightarrow> ((err_t \<times> u64 option) \<times> vmst) option" where
  "memregion_extend r sz s =
     (let g = mregions s r
      in if sz = 0 then Some ((ERR_OK, Some (r_end g)), s)
         else if r_end g + sz < r_start g then Some ((ERR_VM_INVALID, None), s)
         else do { as \<leftarrow> cur_as s;
                   if \<exists>c \<in> set (regions (spaces s as)). c \<noteq> r \<and> extend_blocked g (r_end g + sz) (mregions s c)
                   then Some ((ERR_VM_BOUND, None), s)
                   else Some ((ERR_OK, Some (r_end g)), upd_region r (r_end_update (\<lambda>e. e + sz)) s) })"

definition memregion_set_perm :: "addr \<Rightarrow> memperm \<Rightarrow> vmst \<Rightarrow> (err_t \<times> vmst) option" where
  "memregion_set_perm r perm s =
     (let as = r_as (mregions s r)
      in if is_kern_memperm perm \<and> as \<noteq> kas s then Some (ERR_VM_INVALID, s)
         else do { s \<leftarrow> as_acquire as s;
                   m \<leftarrow> as_vpmap (spaces s as);
                   let g = mregions s r;
                   v \<leftarrow> vpmap_set_perm m (r_start g) (unat (vpg_round_up (r_end g - r_start g) div 0x1000)) perm (vp s);
                   let s = upd_region r (r_perm_update (\<lambda>_. perm)) (s\<lparr>vp := v\<rparr>);
                   s \<leftarrow> flush_tlb s;
                   s \<leftarrow> as_release as s;
                   Some (ERR_OK, s) })"

subsection \<open>Copying and destroying\<close>

definition memregion_copy_internal :: "addr \<Rightarrow> addr \<Rightarrow> u64 \<Rightarrow> vmst \<Rightarrow> (addr option \<times> vmst) option" where
  "memregion_copy_internal as src a s =
     do { let g = mregions s src;
          (dst, s) \<leftarrow> memregion_map_internal as a (r_end g - r_start g) (r_perm g) (r_store g) (r_ofs g) (r_shared g) s;
          case dst of
              None \<Rightarrow> Some (None, s)
            | Some d \<Rightarrow>
                do { sm \<leftarrow> as_vpmap (spaces s (r_as g));
                     dm \<leftarrow> as_vpmap (spaces s as);
                     (err, v) \<leftarrow> vpmap_copy sm dm (r_start g) a (unat (vpg_round_up (r_end g - r_start g) div 0x1000))
                                  (r_perm g) (vp s);
                     let s = s\<lparr>vp := v\<rparr>;
                     if err \<noteq> ERR_OK then do { s \<leftarrow> memregion_unmap_internal d s; Some (None, s) }
                     else Some (Some d, s) } }"

definition as_copy_memregion :: "addr \<Rightarrow> addr \<Rightarrow> u64 \<Rightarrow> vmst \<Rightarrow> (addr option \<times> vmst) option" where
  "as_copy_memregion as src a s =
     do { kassert (vpg_aligned a);
          let sas = r_as (mregions s src);
          s \<leftarrow> as_acquire as s;
          s \<leftarrow> (if as \<noteq> sas then as_acquire sas s else Some s);
          (dst, s) \<leftarrow> memregion_copy_internal as src a s;
          s \<leftarrow> as_release as s;
          s \<leftarrow> (if as \<noteq> sas then as_release sas s else Some s);
          Some (dst, s) }"

fun copy_regions :: "addr list \<Rightarrow> addr \<Rightarrow> addr \<Rightarrow> vmst \<Rightarrow> (err_t \<times> vmst) option" where
  "copy_regions [] src dst s = Some (ERR_OK, s)"
| "copy_regions (r # rs) src dst s =
     do { (d, s) \<leftarrow> memregion_copy_internal dst r (r_start (mregions s r)) s;
          case d of
              None \<Rightarrow> Some (ERR_NOMEM, s)
            | Some d \<Rightarrow> copy_regions rs src dst
                (if as_heap (spaces s src) = Some r then upd_as dst (as_heap_update (\<lambda>_. Some d)) s else s) }"

definition as_copy_as :: "addr \<Rightarrow> addr \<Rightarrow> vmst \<Rightarrow> (err_t \<times> vmst) option" where
  "as_copy_as src dst s =
     do { kassert (src \<noteq> dst);
          s \<leftarrow> as_acquire src s;
          s \<leftarrow> as_acquire dst s;
          (err, s) \<leftarrow> copy_regions (regions (spaces s src)) src dst s;
          s \<leftarrow> as_release src s;
          s \<leftarrow> as_release dst s;
          Some (err, s) }"

fun unmap_all :: "addr list \<Rightarrow> vmst \<Rightarrow> vmst option" where
  "unmap_all [] s = Some s"
| "unmap_all (r # rs) s = do { s \<leftarrow> memregion_unmap_internal r s; unmap_all rs s }"

definition as_destroy :: "addr \<Rightarrow> vmst \<Rightarrow> vmst option" where
  "as_destroy as s =
     do { kassert (as \<noteq> kas s);
          s \<leftarrow> as_acquire as s;
          v \<leftarrow> (case as_vpmap (spaces s as) of None \<Rightarrow> Some (vp s) | Some m \<Rightarrow> vpmap_destroy m (vp s));
          let s = upd_as as (as_vpmap_update (\<lambda>_. None)) (s\<lparr>vp := v\<rparr>);
          s \<leftarrow> unmap_all (regions (spaces s as)) s;
          as_release as s }"

end
