(* ===== verification/Vm_Props.thy ===== *)
theory Vm_Props
  imports Vm Kmalloc_Init
begin

section \<open>Memory regions stay apart when they grow, but not when they are mapped\<close>

text \<open>
  The range of a region, and what the operations do to the ranges of an address space: extending a
  region keeps all ranges disjoint, mapping a region does not, and the list of regions is not ordered by
  address.
\<close>

definition range_of :: "memregion \<Rightarrow> u64 set" where
  "range_of g = {v. r_start g \<le> v \<and> v < r_end g}"

definition regs_disjoint :: "vmst \<Rightarrow> addr \<Rightarrow> bool" where
  "regs_disjoint s a \<longleftrightarrow> (\<forall>r \<in> set (regions (spaces s a)). \<forall>r' \<in> set (regions (spaces s a)).
     r \<noteq> r' \<longrightarrow> range_of (mregions s r) \<inter> range_of (mregions s r') = {})"

lemma extend_blocked_iff:
  assumes "r_start g < e" "r_start c < r_end c"
  shows "extend_blocked g e c \<longleftrightarrow> {v. r_start g \<le> v \<and> v < e} \<inter> range_of c \<noteq> {}"
proof -
  have "\<exists>v. r_start g \<le> v \<and> v < e \<and> r_start c \<le> v \<and> v < r_end c" if "extend_blocked g e c"
    using that assms unfolding extend_blocked_def
    by (elim disjE) (rule exI [of _ "r_start c"], force, rule exI [of _ "r_start g"], force)
  moreover have "extend_blocked g e c" if "r_start g \<le> v" "v < e" "r_start c \<le> v" "v < r_end c" for v
    using that unfolding extend_blocked_def by (meson leI le_less_trans nle_le order_le_less)
  ultimately show ?thesis unfolding range_of_def by blast
qed

lemma not_blocked_disjoint:
  assumes "\<not> extend_blocked g e c"
  shows "{v. r_start g \<le> v \<and> v < e} \<inter> range_of c = {}"
proof -
  have "extend_blocked g e c" if "r_start g \<le> v" "v < e" "r_start c \<le> v" "v < r_end c" for v
    using that unfolding extend_blocked_def by (meson leI le_less_trans nle_le order_le_less)
  then show ?thesis using assms unfolding range_of_def by blast
qed

lemma range_upd: "range_of (r_end_update (\<lambda>e. e + sz) g) = {v. r_start g \<le> v \<and> v < r_end g + sz}"
  by (simp add: range_of_def)


subsection \<open>Mapping\<close>

lemma find_region_None:
  "find_region m a sz rs = None \<longleftrightarrow> (\<forall>r \<in> set rs. \<not> (r_start (m r) \<le> a \<and> a + sz \<le> vpg_round_up (r_end (m r))))"
  by (induction rs) auto

lemma insert_before_split:
  "insert_before cmp n xs = takeWhile (\<lambda>x. \<not> cmp x n > 0) xs @ n # dropWhile (\<lambda>x. \<not> cmp x n > 0) xs"
  by (induction xs) auto

lemma set_takeWhile_dropWhile: "set (takeWhile P xs) \<union> set (dropWhile P xs) = set xs"
  by (metis set_append takeWhile_dropWhile_id)

lemma round_up_bound:
  assumes "unat (e :: u64) + 0xFFF < 2 ^ 64"
  shows "unat (vpg_round_up e) < unat e + 0x1000"
proof -
  have "unat (e + 0x1000 - 1) = unat e + 0xFFF" using assms by (simp add: unat_word_ariths)
  moreover have "(e + 0x1000 - 1) AND NOT 0xFFF \<le> e + 0x1000 - 1"
    by (simp add: word_and_le2)
  ultimately have "unat (vpg_round_up e) \<le> unat e + 0xFFF" unfolding vpg_round_up_def word_le_nat_alt by simp
  then show ?thesis by simp
qed

lemma insert_poisoned:
  assumes "r \<notin> set rs"
  shows "insert_before (memregion_comparator (upd_region r poisoned s)) r rs =
    takeWhile (\<lambda>c. r_start (mregions s c) < 0x2b2b2b2b2b2b2b2b) rs @
    r # dropWhile (\<lambda>c. r_start (mregions s c) < 0x2b2b2b2b2b2b2b2b) rs"
proof -
  have "\<not> memregion_comparator (upd_region r poisoned s) c r > 0 \<longleftrightarrow> r_start (mregions s c) < 0x2b2b2b2b2b2b2b2b"
    if "c \<in> set rs" for c
    using that assms by (auto simp: memregion_comparator_def upd_region_def poisoned_def not_le)
  then show ?thesis unfolding insert_before_split
    by (metis (mono_tags, lifting) dropWhile_cong takeWhile_cong)
qed

lemma map_internal_new:
  assumes "as_holder (spaces s a) = Some (cur_thread s)" "x \<noteq> ADDR_ANYWHERE" "vpg_aligned x" "x \<le> x + vpg_round_up sz"
    "\<not> is_kern_memperm perm" "is_user_addr (vpg_round_up (x + sz) AND NOT 0xFFF)"
    "memregion_find_internal a x (x + sz) s = None"
    "memregion_allocator s = Some ma" "kmem_cache_alloc ma (km (vp s)) = Some (Some r, k)"
    "r \<notin> set (regions (spaces s a))"
  shows "\<exists>s'. memregion_map_internal a x sz perm st ofs sh s = Some (Some r, s') \<and>
    regions (spaces s' a) = takeWhile (\<lambda>c. r_start (mregions s c) < 0x2b2b2b2b2b2b2b2b) (regions (spaces s a)) @
      r # dropWhile (\<lambda>c. r_start (mregions s c) < 0x2b2b2b2b2b2b2b2b) (regions (spaces s a)) \<and>
    r_start (mregions s' r) = x \<and> r_end (mregions s' r) = x + sz \<and> (\<forall>c. c \<noteq> r \<longrightarrow> mregions s' c = mregions s c) \<and>
    as_holder (spaces s' a) = as_holder (spaces s a) \<and> cur_thread s' = cur_thread s"
proof -
  define t where "t = upd_region r poisoned (s\<lparr>vp := (vp s)\<lparr>km := k\<rparr>\<rparr>)"
  have o: "insert_before (memregion_comparator t) r (regions (spaces s a)) =
      takeWhile (\<lambda>c. r_start (mregions s c) < 0x2b2b2b2b2b2b2b2b) (regions (spaces s a)) @
      r # dropWhile (\<lambda>c. r_start (mregions s c) < 0x2b2b2b2b2b2b2b2b) (regions (spaces s a))"
    using insert_poisoned [OF assms(10), of "s\<lparr>vp := (vp s)\<lparr>km := k\<rparr>\<rparr>"] by (simp add: t_def)
  have t: "spaces t = spaces s" "cur_thread t = cur_thread s" "c \<noteq> r \<Longrightarrow> mregions t c = mregions s c" for c
    by (simp_all add: t_def upd_region_def)
  let ?t = "upd_as a (regions_update (insert_before (memregion_comparator t) r)) t"
  have "memregion_map_internal a x sz perm st ofs sh s = Some (Some r, ?t\<lparr>mregions := (mregions ?t)(r :=
      \<lparr>r_as = a, r_start = x, r_end = x + sz, r_perm = perm, r_shared = sh, r_store = st, r_ofs = ofs\<rparr>)\<rparr>)"
    using assms by (simp add: memregion_map_internal_def t_def Let_def)
  then show ?thesis using o t by (simp add: upd_as_def)
qed

lemma as_map_new:
  assumes "as_holder (spaces s a) = None" "x \<noteq> ADDR_ANYWHERE" "vpg_aligned x" "x \<le> x + vpg_round_up sz"
    "\<not> is_kern_memperm perm" "is_user_addr (vpg_round_up (x + sz) AND NOT 0xFFF)"
    "memregion_find_internal a x (x + sz) s = None"
    "memregion_allocator s = Some ma" "kmem_cache_alloc ma (km (vp s)) = Some (Some r, k)"
    "r \<notin> set (regions (spaces s a))"
  shows "\<exists>s'. as_map_memregion a x sz perm st ofs sh s = Some (Some r, s') \<and>
    regions (spaces s' a) = takeWhile (\<lambda>c. r_start (mregions s c) < 0x2b2b2b2b2b2b2b2b) (regions (spaces s a)) @
      r # dropWhile (\<lambda>c. r_start (mregions s c) < 0x2b2b2b2b2b2b2b2b) (regions (spaces s a)) \<and>
    r_start (mregions s' r) = x \<and> r_end (mregions s' r) = x + sz \<and> (\<forall>c. c \<noteq> r \<longrightarrow> mregions s' c = mregions s c)"
proof -
  define t where "t = upd_as a (as_holder_update (\<lambda>_. Some (cur_thread s))) s"
  have t: "as_holder (spaces t a) = Some (cur_thread s)" "cur_thread t = cur_thread s" "vp t = vp s"
    "memregion_allocator t = memregion_allocator s" "mregions t = mregions s" "kas t = kas s"
    "regions (spaces t a) = regions (spaces s a)" by (simp_all add: t_def upd_as_def)
  then have f: "memregion_find_internal a x (x + sz) t = None" using assms(7) by (simp add: memregion_find_internal_def)
  have "as_acquire a s = Some t" using assms(1) by (simp add: as_acquire_def t_def)
  then show ?thesis
    using map_internal_new [of t a x sz perm ma r k st ofs sh] assms f
    by (auto simp: t as_map_memregion_def as_release_def upd_as_def)
qed

text \<open>C9: The overlap check of \<^verbatim>\<open>memregion_map_internal\<close> does not work: it passes the end of the new range
  where the size is expected. In an address space whose regions up to an address \<open>x\<close> all end below
  \<open>2x\<close>, a new region can be mapped at \<open>x\<close> inside an existing region.\<close>

theorem memregion_map_overlap:
  assumes "as_holder (spaces s a) = None" "memregion_allocator s = Some ma"
    "kmem_cache_alloc ma (km (vp s)) = Some (Some r, k)" "r \<notin> set (regions (spaces s a))"
    "c \<in> set (regions (spaces s a))" "x \<in> range_of (mregions s c)" "vpg_aligned x" "0 < sz"
    "unat x * 2 + unat sz + 0x1000 < 2 ^ 63" "\<not> is_kern_memperm perm"
    "\<And>c'. c' \<in> set (regions (spaces s a)) \<Longrightarrow>
       x < r_start (mregions s c') \<or> unat (r_end (mregions s c')) + 0x1000 \<le> 2 * unat x"
  shows "\<exists>s'. as_map_memregion a x sz perm st ofs sh s = Some (Some r, s') \<and>
    c \<in> set (regions (spaces s' a)) \<and> r \<in> set (regions (spaces s' a)) \<and> c \<noteq> r \<and>
    x \<in> range_of (mregions s' c) \<inter> range_of (mregions s' r)"
proof -
  have xs: "unat (x + sz) = unat x + unat sz" using assms(9) by (simp add: unat_word_ariths)
  have x2: "unat (x + (x + sz)) = unat x + (unat x + unat sz)" using assms(9) xs by (simp add: unat_word_ariths)
  have "memregion_find_internal a x (x + sz) s = None"
    unfolding memregion_find_internal_def find_region_None
  proof (intro ballI notI)
    fix c' assume c': "c' \<in> set (regions (spaces s a))"
      "r_start (mregions s c') \<le> x \<and> x + (x + sz) \<le> vpg_round_up (r_end (mregions s c'))"
    then have e: "unat (r_end (mregions s c')) + 0x1000 \<le> 2 * unat x" using assms(11) by (meson leD)
    then have "unat (vpg_round_up (r_end (mregions s c'))) < unat (r_end (mregions s c')) + 0x1000"
      using assms(9) by (intro round_up_bound) simp
    then show False using c'(2) e x2 unfolding word_le_nat_alt by linarith
  qed
  moreover have "x \<le> x + vpg_round_up sz"
    using round_up_bound [of sz] assms(9) unfolding word_le_nat_alt by (simp add: unat_word_ariths)
  moreover have "is_user_addr (vpg_round_up (x + sz) AND NOT 0xFFF)"
  proof -
    have "unat (vpg_round_up (x + sz) AND NOT 0xFFF) \<le> unat (vpg_round_up (x + sz))"
      using word_and_le2 unfolding word_le_nat_alt by blast
    then have "unat (vpg_round_up (x + sz) AND NOT 0xFFF) < 2 ^ 63" using round_up_bound [of "x + sz"] xs assms(9) by simp
    then show ?thesis unfolding is_user_addr_def word_less_nat_alt by simp
  qed
  moreover have "x \<noteq> ADDR_ANYWHERE" using assms(7) by (auto simp: vpg_aligned_def)
  ultimately obtain s' where s': "as_map_memregion a x sz perm st ofs sh s = Some (Some r, s')"
    "set (regions (spaces s' a)) = insert r (set (regions (spaces s a)))"
    "r_start (mregions s' r) = x" "r_end (mregions s' r) = x + sz" "\<forall>c. c \<noteq> r \<longrightarrow> mregions s' c = mregions s c"
    using as_map_new [OF assms(1) _ assms(7) _ assms(10) _ _ assms(2-4), of sz st ofs sh]
    by (fastforce simp: set_takeWhile_dropWhile)
  have "x < x + sz" using xs assms(8) unfolding word_less_nat_alt by simp
  then show ?thesis using s' assms(4-6) by (auto simp: range_of_def)
qed


text \<open>C10: A new region is linked into the list before its bounds are set. As the slab allocator fills
  objects with \<open>0x2b\<close>, it is put in front of the first region that starts at or above
  \<open>0x2b2b2b2b2b2b2b2b\<close>, whatever its address: the list is in order of creation and not of addresses, as
  \<^verbatim>\<open>find_free_vaddr\<close> expects.\<close>

theorem memregion_map_order:
  assumes "as_map_memregion a x sz perm st ofs sh s = Some (Some r, s')" "r \<notin> set (regions (spaces s a))"
  shows "regions (spaces s' a) = takeWhile (\<lambda>c. r_start (mregions s c) < 0x2b2b2b2b2b2b2b2b) (regions (spaces s a)) @
    r # dropWhile (\<lambda>c. r_start (mregions s c) < 0x2b2b2b2b2b2b2b2b) (regions (spaces s a))"
proof -
  obtain t s1 where t: "as_acquire a s = Some t" "memregion_map_internal a x sz perm st ofs sh t = Some (Some r, s1)"
    "as_release a s1 = Some s'" using assms(1) by (auto simp: as_map_memregion_def elim!: bind_SomeE)
  have t': "mregions t = mregions s" "regions (spaces t a) = regions (spaces s a)"
    using t(1) by (auto simp: as_acquire_def upd_as_def split: if_splits)
  obtain k where "regions (spaces s1 a) = insert_before (memregion_comparator
      (upd_region r poisoned (t\<lparr>vp := (vp t)\<lparr>km := k\<rparr>\<rparr>))) r (regions (spaces t a))"
    using t(2) by (auto simp: memregion_map_internal_def Let_def upd_as_def upd_region_def
        elim!: bind_SomeE split: if_splits option.splits)
  moreover have "regions (spaces s' a) = regions (spaces s1 a)"
    using t(3) by (auto simp: as_release_def upd_as_def split: if_splits)
  ultimately show ?thesis using insert_poisoned [of r "regions (spaces s a)"] assms(2) t' by simp
qed

subsection \<open>An address space\<close>

text \<open>One address space with a code region at \<open>0x400000\<close> and a stack; the cache of the region
  structures has a free slot.\<close>

definition code_and_stack :: vmst where
  "code_and_stack =
    \<lparr>vp = \<lparr>km = kmalloc_boot\<lparr>caches := (caches kmalloc_boot)(5 := \<lparr>cache_full = [], cache_free = [9], obj_size = 64\<rparr>),
              slabs := (slabs kmalloc_boot)(9 := \<lparr>objs = 0x100, slab_free = 0, n_pages = 1\<rparr>),
              freearr := (freearr kmalloc_boot)(9 := [1, -1])\<rparr>,
           pt = (\<lambda>_ _. 0), vpmaps = Map.empty, vpmap_allocator = None, kvpmap = 3, cr3 = 0\<rparr>,
     spaces = (\<lambda>_. \<lparr>regions = [1, 2], as_vpmap = None, as_holder = None, as_heap = None\<rparr>),
     mregions = (\<lambda>r. \<lparr>r_as = 0, r_start = if r = 1 then 0x400000 else 0xFFFFFF7FFFFF5000,
        r_end = if r = 1 then 0x402000 else 0xFFFFFF7FFFFFF000, r_perm = MEMPERM_URW, r_shared = False,
        r_store = None, r_ofs = 0\<rparr>),
     memregion_allocator = Some 5, kas = 4, cur_thread = 1, cur_as = Some 0\<rparr>"

lemma code_and_stack_alloc: "\<exists>k. kmem_cache_alloc 5 (km (vp code_and_stack)) = Some (Some 0x100, k)"
  by (simp add: code_and_stack_def kmem_cache_alloc_def take_slot_def)

lemma range_apart: "r_end g \<le> r_start h \<Longrightarrow> range_of g \<inter> range_of h = {} \<and> range_of h \<inter> range_of g = {}"
  unfolding range_of_def by (auto simp: not_less [symmetric] dest: less_le_trans)

lemma code_and_stack_disjoint: "regs_disjoint code_and_stack 0"
proof -
  have "r_end (mregions code_and_stack 1) \<le> r_start (mregions code_and_stack 2)" by (simp add: code_and_stack_def)
  from range_apart [OF this] have "range_of (mregions code_and_stack 1) \<inter> range_of (mregions code_and_stack 2) = {}"
    "range_of (mregions code_and_stack 2) \<inter> range_of (mregions code_and_stack 1) = {}" by simp_all
  moreover have "regions (spaces code_and_stack 0) = [1, 2]" by (simp add: code_and_stack_def)
  ultimately show ?thesis by (auto simp: regs_disjoint_def)
qed


theorem memregion_map_overlap_witness:
  "\<exists>s'. as_map_memregion 0 0x401000 0x1000 MEMPERM_URW None 0 False code_and_stack = Some (Some 0x100, s') \<and>
    0x401000 \<in> range_of (mregions s' 1) \<inter> range_of (mregions s' 0x100)"
proof -
  obtain k where k: "kmem_cache_alloc 5 (km (vp code_and_stack)) = Some (Some 0x100, k)"
    using code_and_stack_alloc by blast
  have "0x401000 < r_start (mregions code_and_stack c') \<or> unat (r_end (mregions code_and_stack c')) + 0x1000 \<le> 2 * unat (0x401000 :: u64)"
    if "c' \<in> set (regions (spaces code_and_stack 0))" for c'
    using that by (auto simp: code_and_stack_def)
  moreover have "as_holder (spaces code_and_stack 0) = None" "memregion_allocator code_and_stack = Some 5"
    "0x100 \<notin> set (regions (spaces code_and_stack 0))" "1 \<in> set (regions (spaces code_and_stack 0))"
    "0x401000 \<in> range_of (mregions code_and_stack 1)" "vpg_aligned 0x401000" "\<not> is_kern_memperm MEMPERM_URW"
    by (simp_all add: code_and_stack_def range_of_def vpg_aligned_def is_kern_memperm_def)
  ultimately show ?thesis
    using memregion_map_overlap [OF _ _ k, of 0 1 "0x401000" "0x1000" MEMPERM_URW None 0 False] by fastforce
qed

theorem memregion_map_order_witness:
  "\<exists>s'. as_map_memregion 0 0x300000 0x1000 MEMPERM_URW None 0 False code_and_stack = Some (Some 0x100, s') \<and>
    regions (spaces s' 0) = [1, 0x100, 2]"
proof -
  obtain k where k: "kmem_cache_alloc 5 (km (vp code_and_stack)) = Some (Some 0x100, k)"
    using code_and_stack_alloc by blast
  have "memregion_find_internal 0 0x300000 (0x300000 + 0x1000) code_and_stack = None"
    by (simp add: memregion_find_internal_def code_and_stack_def vpg_round_up_def)
  then obtain s' where s': "as_map_memregion 0 0x300000 0x1000 MEMPERM_URW None 0 False code_and_stack = Some (Some 0x100, s')"
    using as_map_new [OF _ _ _ _ _ _ _ _ k, of 0 "0x300000" "0x1000" MEMPERM_URW None 0 False]
    by (auto simp: code_and_stack_def vpg_aligned_def is_kern_memperm_def is_user_addr_def vpg_round_up_def)
  have "0x100 \<notin> set (regions (spaces code_and_stack 0))" by (simp add: code_and_stack_def)
  from memregion_map_order [OF s' this] show ?thesis using s' by (simp add: code_and_stack_def)
qed

end
