(* ===== verification/Bdev.thy ===== *)
theory Bdev
  imports LibString
begin

section \<open>Block devices (kernel/bdev.c, kernel/bdevms.c, kernel/mm/pgcache.c, kernel/drivers/ide.c)\<close>

text \<open>
  The block device with its driver and the cache of its pages. Memory is a map from addresses to bytes.
  The page cache of the device is a map from page numbers to frames, which is what \<^verbatim>\<open>RadixTree\<close> shows its
  radix tree to be. What the allocators have left is a list of free page frames, a list of free request
  structures and a number of free block headers; an empty supply is an allocation that fails. Whether an
  insertion into the radix tree finds memory for its nodes is told by the head of \<open>tree_oom\<close>. A block
  header is named by its block, of which there is one at a time.

  The disk is an array of sectors. It is addressed by the registers of the controller, in LBA mode; its
  writes are also recorded in their order. Locks that one function takes and gives back are left out;
  the lock of a block header, which is held between calls, is kept.
\<close>

type_synonym blk = nat

abbreviation (input) BDEV_BLK_SIZE :: nat where "BDEV_BLK_SIZE \<equiv> 512"
abbreviation (input) N_BLKS_PER_PAGE :: nat where "N_BLKS_PER_PAGE \<equiv> 8"
abbreviation (input) BLK_HEADER_VALID :: nat where "BLK_HEADER_VALID \<equiv> 0"
abbreviation (input) BLK_HEADER_DIRTY :: nat where "BLK_HEADER_DIRTY \<equiv> 1"
abbreviation (input) IDE_CMD_READ :: nat where "IDE_CMD_READ \<equiv> 0x20"
abbreviation (input) IDE_CMD_WRITE :: nat where "IDE_CMD_WRITE \<equiv> 0x30"
abbreviation (input) IDE_CMD_RDMUL :: nat where "IDE_CMD_RDMUL \<equiv> 0xC4"
abbreviation (input) IDE_CMD_WRMUL :: nat where "IDE_CMD_WRMUL \<equiv> 0xC5"

datatype bio_op = BIO_READ | BIO_WRITE
datatype bio_status = BIO_PENDING | BIO_COMPLETE
datatype ide_status = IDE_IDLE | IDE_BUSY

record bio =
  bio_blk :: blk
  bio_size :: nat
  bio_buffer :: addr
  bio_op :: bio_op
  bio_status :: bio_status

record ide_regs =
  reg_ctrl :: nat
  reg_count :: nat
  reg_sector :: nat
  reg_cyl_l :: nat
  reg_cyl_h :: nat
  reg_drive :: nat
  reg_cmd :: nat

record blk_header =
  bh_page :: addr
  bh_data :: addr
  bh_state :: u32
  bh_ref :: nat
  bh_held :: bool

record bst =
  bmem :: mem
  disk :: "blk \<Rightarrow> u8 list"
  dlog :: "(blk \<times> u8 list) list"
  regs :: ide_regs
  ide_status :: ide_status
  ide_index :: nat
  request_queue :: "addr list"
  bios :: "addr \<Rightarrow> bio"
  free_bios :: "addr list"
  frames :: "addr list"
  pgcache :: "nat \<Rightarrow> addr option"
  page_dirty :: "addr \<Rightarrow> bool"
  page_hdrs :: "addr \<Rightarrow> blk list"
  hdrs :: "blk \<Rightarrow> blk_header"
  free_hdrs :: nat
  tree_oom :: "bool list"

definition bytes_at :: "mem \<Rightarrow> addr \<Rightarrow> nat \<Rightarrow> u8 list" where
  "bytes_at m a n = map (\<lambda>i. m (a + i)) [0..<n]"

definition put_bytes :: "mem \<Rightarrow> addr \<Rightarrow> u8 list \<Rightarrow> mem" where
  "put_bytes m a bs = (\<lambda>x. if a \<le> x \<and> x < a + length bs then bs ! (x - a) else m x)"

definition upd_bh :: "blk \<Rightarrow> (blk_header \<Rightarrow> blk_header) \<Rightarrow> bst \<Rightarrow> bst" where
  "upd_bh b f s = s\<lparr>hdrs := (hdrs s)(b := f (hdrs s b))\<rparr>"

definition upd_bio :: "addr \<Rightarrow> (bio \<Rightarrow> bio) \<Rightarrow> bst \<Rightarrow> bst" where
  "upd_bio b f s = s\<lparr>bios := (bios s)(b := f (bios s b))\<rparr>"

subsection \<open>The driver\<close>

text \<open>The sector that the registers address, and the transfers of the disk.\<close>

definition ide_lba :: "ide_regs \<Rightarrow> nat" where
  "ide_lba r = reg_sector r + 2 ^ 8 * reg_cyl_l r + 2 ^ 16 * reg_cyl_h r + 2 ^ 24 * (reg_drive r mod 16)"

definition dev_read :: "bst \<Rightarrow> u8 list" where
  "dev_read s = concat (map (\<lambda>i. disk s (ide_lba (regs s) + i)) [0..<reg_count (regs s)])"

fun dev_write :: "blk \<Rightarrow> nat \<Rightarrow> u8 list \<Rightarrow> bst \<Rightarrow> bst" where
  "dev_write b 0 d s = s"
| "dev_write b (Suc n) d s =
     dev_write (Suc b) n (drop BDEV_BLK_SIZE d)
       (s\<lparr>disk := (disk s)(b := take BDEV_BLK_SIZE d), dlog := dlog s @ [(b, take BDEV_BLK_SIZE d)]\<rparr>)"

definition bdev_front_bio :: "bool \<Rightarrow> bst \<Rightarrow> addr option \<times> bst" where
  "bdev_front_bio pop s =
     (case request_queue s of
        [] \<Rightarrow> (None, s)
      | b # q \<Rightarrow> (Some b, if pop then s\<lparr>request_queue := q\<rparr> else s))"

definition ide_issue_cmd :: "addr \<Rightarrow> bst \<Rightarrow> bst option" where
  "ide_issue_cmd b s =
     (let bio = bios s b; sector = bio_blk bio; num_sectors = bio_size bio
      in do {
        kassert (num_sectors > 0 \<and> num_sectors \<le> 8);
        let cmd = (case bio_op bio of
            BIO_READ \<Rightarrow> if num_sectors > 1 then IDE_CMD_RDMUL else IDE_CMD_READ
          | BIO_WRITE \<Rightarrow> if num_sectors > 1 then IDE_CMD_WRMUL else IDE_CMD_WRITE);
        let s = s\<lparr>regs := \<lparr>reg_ctrl = 0, reg_count = num_sectors, reg_sector = sector mod 256,
                           reg_cyl_l = sector div 2 ^ 8 mod 256, reg_cyl_h = sector div 2 ^ 16 mod 256,
                           reg_drive = 0xE0 OR push_bit 4 (ide_index s) OR (sector div 2 ^ 24 mod 16),
                           reg_cmd = cmd\<rparr>\<rparr>;
        let s = (case bio_op bio of
            BIO_READ \<Rightarrow> s
          | BIO_WRITE \<Rightarrow> dev_write (ide_lba (regs s)) (reg_count (regs s))
                          (bytes_at (bmem s) (bio_buffer bio) (bio_size bio * BDEV_BLK_SIZE)) s);
        Some (s\<lparr>ide_status := IDE_BUSY\<rparr>) })"

definition issue_next :: "bst \<Rightarrow> bst option" where
  "issue_next s =
     (case fst (bdev_front_bio False s) of
        None \<Rightarrow> Some (s\<lparr>ide_status := IDE_IDLE\<rparr>)
      | Some b \<Rightarrow> do { kassert (bio_status (bios s b) = BIO_PENDING); ide_issue_cmd b s })"

definition ide_request_handler :: "bst \<Rightarrow> bst option" where
  "ide_request_handler s =
     (if ide_status s = IDE_IDLE
      then (case fst (bdev_front_bio False s) of
              None \<Rightarrow> Some s
            | Some b \<Rightarrow> do { kassert (bio_status (bios s b) = BIO_PENDING); ide_issue_cmd b s })
      else Some s)"

definition ide_trap_handler :: "bst \<Rightarrow> bst option" where
  "ide_trap_handler s =
     (if ide_status s = IDE_BUSY
      then do {
        let (b, s) = bdev_front_bio True s;
        b \<leftarrow> b;
        kassert (bio_status (bios s b) = BIO_PENDING);
        let s = (if bio_op (bios s b) = BIO_READ
                 then s\<lparr>bmem := put_bytes (bmem s) (bio_buffer (bios s b))
                          (take (bio_size (bios s b) * BDEV_BLK_SIZE) (dev_read s))\<rparr>
                 else s);
        let s = upd_bio b (bio_status_update (\<lambda>_. BIO_COMPLETE)) s;
        issue_next s }
      else Some s)"

subsection \<open>Requests\<close>

definition bio_alloc :: "bst \<Rightarrow> addr option \<times> bst" where
  "bio_alloc s =
     (case free_bios s of
        [] \<Rightarrow> (None, s)
      | b # bs \<Rightarrow> (Some b, s\<lparr>free_bios := bs, bios := (bios s)(b :=
          \<lparr>bio_blk = 0, bio_size = 0, bio_buffer = 0, bio_op = bio_op (bios s b), bio_status = BIO_PENDING\<rparr>)\<rparr>))"

definition bio_free :: "addr \<Rightarrow> bst \<Rightarrow> bst" where
  "bio_free b s = s\<lparr>free_bios := b # free_bios s\<rparr>"

text \<open>Waiting for a request: the interrupts of the device complete the requests in front of it one by
  one, so that there are at most as many as the queue is long.\<close>

fun wait_io :: "nat \<Rightarrow> addr \<Rightarrow> bst \<Rightarrow> bst option" where
  "wait_io 0 b s = (if bio_status (bios s b) = BIO_COMPLETE then Some s else None)"
| "wait_io (Suc n) b s =
     (if bio_status (bios s b) = BIO_COMPLETE then Some s
      else do { s \<leftarrow> ide_trap_handler s; wait_io n b s })"

definition bdev_submit :: "addr \<Rightarrow> bst \<Rightarrow> bst option" where
  "bdev_submit b s =
     do { let s = upd_bio b (bio_status_update (\<lambda>_. BIO_PENDING)) s;
          let s = s\<lparr>request_queue := request_queue s @ [b]\<rparr>;
          ide_request_handler s }"

definition bdev_make_request :: "addr \<Rightarrow> bst \<Rightarrow> bst option" where
  "bdev_make_request b s = do { s \<leftarrow> bdev_submit b s; wait_io (length (request_queue s)) b s }"

subsection \<open>The page cache\<close>

text \<open>\<^verbatim>\<open>fillpage\<close> of \<^verbatim>\<open>bdevms.c\<close>; \<open>True\<close> is \<^verbatim>\<open>ERR_OK\<close>.\<close>

definition bdev_fillpage :: "nat \<Rightarrow> addr \<Rightarrow> bst \<Rightarrow> (bool \<times> bst) option" where
  "bdev_fillpage ofs page s =
     (case bio_alloc s of
        (None, s) \<Rightarrow> Some (False, s)
      | (Some b, s) \<Rightarrow>
          do { let s = upd_bio b (\<lambda>r. r\<lparr>bio_blk := (ofs div 4096 * 4096) div BDEV_BLK_SIZE,
                 bio_size := 4096 div BDEV_BLK_SIZE, bio_buffer := page, bio_op := BIO_READ\<rparr>) s;
               s \<leftarrow> bdev_make_request b s;
               Some (True, bio_free b s) })"

definition pgcache_get_page :: "nat \<Rightarrow> bst \<Rightarrow> (addr option \<times> bst) option" where
  "pgcache_get_page ofs s =
     (case pgcache s (ofs div 4096) of
        Some p \<Rightarrow> Some (Some p, s)
      | None \<Rightarrow>
          (case frames s of
             [] \<Rightarrow> Some (None, s)
           | p # ps \<Rightarrow>
               do { let s = s\<lparr>frames := ps, page_dirty := (page_dirty s)(p := False),
                              page_hdrs := (page_hdrs s)(p := [])\<rparr>;
                    (ok, s) \<leftarrow> bdev_fillpage ofs p s;
                    if \<not> ok then Some (None, s\<lparr>frames := p # frames s\<rparr>)
                    else if tree_oom s \<noteq> [] \<and> hd (tree_oom s)
                    then Some (None, s\<lparr>frames := p # frames s, tree_oom := tl (tree_oom s)\<rparr>)
                    else Some (Some p, s\<lparr>pgcache := (pgcache s)(ofs div 4096 := Some p), tree_oom := tl (tree_oom s)\<rparr>) }))"

subsection \<open>Block headers\<close>

definition bdev_is_blk_valid :: "blk \<Rightarrow> bst \<Rightarrow> bool" where
  "bdev_is_blk_valid b s = get_state_bit (bh_state (hdrs s b)) BLK_HEADER_VALID"

definition bdev_set_blk_valid :: "blk \<Rightarrow> bool \<Rightarrow> bst \<Rightarrow> bst" where
  "bdev_set_blk_valid b v s = upd_bh b (bh_state_update (\<lambda>x. set_state_bit x BLK_HEADER_VALID v)) s"

definition bdev_is_blk_dirty :: "blk \<Rightarrow> bst \<Rightarrow> bool" where
  "bdev_is_blk_dirty b s = get_state_bit (bh_state (hdrs s b)) BLK_HEADER_DIRTY"

definition bdev_set_blk_dirty :: "blk \<Rightarrow> bool \<Rightarrow> bst \<Rightarrow> bst" where
  "bdev_set_blk_dirty b d s =
     (let s = upd_bh b (bh_state_update (\<lambda>x. set_state_bit x BLK_HEADER_DIRTY d)) s
      in if d then s\<lparr>page_dirty := (page_dirty s)(bh_page (hdrs s b) := True)\<rparr> else s)"

text \<open>A new header has the fill pattern of the slab allocator in its state before the bits are set.\<close>

fun new_headers :: "nat \<Rightarrow> addr \<Rightarrow> blk \<Rightarrow> nat \<Rightarrow> bst \<Rightarrow> bool \<times> bst" where
  "new_headers 0 page first i s = (True, s)"
| "new_headers (Suc n) page first i s =
     (if free_hdrs s = 0 then (False, s)
      else let b = first + i;
               s = s\<lparr>free_hdrs := free_hdrs s - 1, page_hdrs := (page_hdrs s)(page := page_hdrs s page @ [b]),
                     hdrs := (hdrs s)(b := \<lparr>bh_page = page, bh_data = page + BDEV_BLK_SIZE * i,
                                            bh_state = 0x2b2b2b2b, bh_ref = 0, bh_held = False\<rparr>)\<rparr>;
               s = bdev_set_blk_dirty b False (bdev_set_blk_valid b True s)
           in new_headers n page first (Suc i) s)"

definition init_blk_headers :: "addr \<Rightarrow> blk \<Rightarrow> bst \<Rightarrow> bool \<times> bst" where
  "init_blk_headers page first s =
     (if page_hdrs s page = [] then new_headers N_BLKS_PER_PAGE page first 0 s else (True, s))"

definition blocks_zero_ref :: "addr \<Rightarrow> bst \<Rightarrow> bool" where
  "blocks_zero_ref page s \<longleftrightarrow> list_all (\<lambda>b. bh_ref (hdrs s b) = 0) (page_hdrs s page)"

definition free_blk_headers :: "addr \<Rightarrow> bst \<Rightarrow> bst option" where
  "free_blk_headers page s =
     (if page_dirty s page then Some s
      else do { kassert (list_all (\<lambda>b. \<not> bdev_is_blk_dirty b s) (page_hdrs s page));
                Some (s\<lparr>free_hdrs := free_hdrs s + length (page_hdrs s page),
                        page_hdrs := (page_hdrs s)(page := [])\<rparr>) })"

definition FIRST_BLK_IN_PAGE :: "blk \<Rightarrow> blk" where
  "FIRST_BLK_IN_PAGE b = b div 8 * 8"

definition bdev_get_blk_unlocked :: "blk \<Rightarrow> bst \<Rightarrow> (bool \<times> bst) option" where
  "bdev_get_blk_unlocked b s =
     do { (page, s) \<leftarrow> pgcache_get_page (b * BDEV_BLK_SIZE mod 2 ^ 32) s;
          case page of
              None \<Rightarrow> Some (False, s)
            | Some page \<Rightarrow>
                (case init_blk_headers page (FIRST_BLK_IN_PAGE b) s of
                   (False, s) \<Rightarrow> Some (False, s)
                 | (True, s) \<Rightarrow>
                     do { kassert (b \<in> set (page_hdrs s page));
                          Some (True, upd_bh b (bh_ref_update Suc) s) }) }"

definition bh_acquire :: "blk \<Rightarrow> bst \<Rightarrow> bst option" where
  "bh_acquire b s = do { kassert (\<not> bh_held (hdrs s b)); Some (upd_bh b (bh_held_update (\<lambda>_. True)) s) }"

definition bh_release :: "blk \<Rightarrow> bst \<Rightarrow> bst option" where
  "bh_release b s = do { kassert (bh_held (hdrs s b)); Some (upd_bh b (bh_held_update (\<lambda>_. False)) s) }"

definition bdev_get_blk :: "blk \<Rightarrow> bst \<Rightarrow> (bool \<times> bst) option" where
  "bdev_get_blk b s =
     do { (ok, s) \<leftarrow> bdev_get_blk_unlocked b s;
          if \<not> ok then Some (False, s) else do { s \<leftarrow> bh_acquire b s; Some (True, s) } }"

definition bdev_release_blk_unlocked :: "blk \<Rightarrow> bst \<Rightarrow> bst option" where
  "bdev_release_blk_unlocked b s =
     do { let page = bh_page (hdrs s b);
          kassert (bh_ref (hdrs s b) > 0);
          let s = upd_bh b (bh_ref_update (\<lambda>n. n - 1)) s;
          if bh_ref (hdrs s b) = 0 \<and> blocks_zero_ref page s then free_blk_headers page s else Some s }"

definition bdev_release_blk :: "blk \<Rightarrow> bst \<Rightarrow> bst option" where
  "bdev_release_blk b s = do { s \<leftarrow> bh_release b s; bdev_release_blk_unlocked b s }"

text \<open>\<^verbatim>\<open>ERR_OK\<close> is \<open>True\<close>, \<^verbatim>\<open>ERR_NOMEM\<close> is \<open>False\<close>.\<close>

definition bdev_write_blk :: "blk \<Rightarrow> bst \<Rightarrow> (bool \<times> bst) option" where
  "bdev_write_blk b s =
     do { kassert (bdev_is_blk_valid b s);
          case bio_alloc s of
              (None, s) \<Rightarrow> Some (False, s)
            | (Some r, s) \<Rightarrow>
                do { let s = upd_bio r (\<lambda>x. x\<lparr>bio_blk := b, bio_size := 1, bio_buffer := bh_data (hdrs s b),
                                             bio_op := BIO_WRITE\<rparr>) s;
                     s \<leftarrow> bdev_make_request r s;
                     Some (True, bdev_set_blk_dirty b False (bio_free r s)) } }"

end
