(* ===== verification/Jbd.thy ===== *)
theory Jbd
  imports Bdev
begin

section \<open>Journaling (kernel/fs/jbd.c)\<close>

text \<open>
  The journal holds the blocks that the current transaction has changed, in the order in which they
  were first recorded; \<^verbatim>\<open>next_index\<close> is their number. \<open>jbmap\<close> is the operation \<^verbatim>\<open>journal_bmap\<close> of the
  file system, the place of a journal block on the device.
\<close>

abbreviation (input) JOURNAL_SIZE :: nat where "JOURNAL_SIZE \<equiv> 128"
abbreviation (input) HEADER_BLK :: nat where "HEADER_BLK \<equiv> 0"
abbreviation (input) BMAP_START_BLK :: nat where "BMAP_START_BLK \<equiv> 1"
abbreviation (input) BMAP_BLKS :: nat where "BMAP_BLKS \<equiv> 1"
abbreviation (input) JDATA_START_BLK :: nat where "JDATA_START_BLK \<equiv> 2"

datatype journal_state = IDLE | BUSY

record jst =
  jb :: bst
  j_enabled :: bool
  j_state :: journal_state
  datablks :: "blk list"

text \<open>The four bytes of a number in memory, least significant first, and their value.\<close>

definition le32 :: "nat \<Rightarrow> u8 list" where
  "le32 n = [of_nat n, of_nat (n div 2 ^ 8), of_nat (n div 2 ^ 16), of_nat (n div 2 ^ 24)]"

definition get32 :: "mem \<Rightarrow> addr \<Rightarrow> nat" where
  "get32 m a = unat (m a) + 2 ^ 8 * unat (m (a + 1)) + 2 ^ 16 * unat (m (a + 2)) + 2 ^ 24 * unat (m (a + 3))"

fun write_data_loop :: "(blk \<Rightarrow> blk) \<Rightarrow> nat \<Rightarrow> blk list \<Rightarrow> bst \<Rightarrow> (bool \<times> bst) option" where
  "write_data_loop jbmap i [] s = Some (True, s)"
| "write_data_loop jbmap i (b # bs) s =
     do { let pb = jbmap (JDATA_START_BLK + i);
          (ok, s) \<leftarrow> bdev_get_blk pb s;
          if \<not> ok then Some (False, s)
          else do {
            s \<leftarrow> bh_acquire b s;
            let s = s\<lparr>bmem := memmove (bmem s) (bh_data (hdrs s pb)) (bh_data (hdrs s b)) BDEV_BLK_SIZE\<rparr>;
            s \<leftarrow> bh_release b s;
            (ok, s) \<leftarrow> bdev_write_blk pb s;
            if \<not> ok then Some (False, s)
            else do { s \<leftarrow> bdev_release_blk pb s; write_data_loop jbmap (Suc i) bs s } } }"

text \<open>\<open>n\<close> is the number of map blocks that are left.\<close>

fun write_bmap_loop :: "(blk \<Rightarrow> blk) \<Rightarrow> nat \<Rightarrow> nat \<Rightarrow> blk list \<Rightarrow> bst \<Rightarrow> (bool \<times> bst) option" where
  "write_bmap_loop jbmap 0 bi bs s = Some (True, s)"
| "write_bmap_loop jbmap (Suc n) bi bs s =
     (if bs = [] then Some (True, s)
      else do {
        let pb = jbmap (BMAP_START_BLK + bi);
        (ok, s) \<leftarrow> bdev_get_blk pb s;
        if \<not> ok then Some (False, s)
        else do {
          let k = min (BDEV_BLK_SIZE div 4) (length bs);
          let s = s\<lparr>bmem := put_bytes (bmem s) (bh_data (hdrs s pb)) (concat (map le32 (take k bs)))\<rparr>;
          (ok, s) \<leftarrow> bdev_write_blk pb s;
          if \<not> ok then Some (False, s)
          else do { s \<leftarrow> bdev_release_blk pb s; write_bmap_loop jbmap n (Suc bi) (drop k bs) s } } })"

definition write_journal_blks :: "(blk \<Rightarrow> blk) \<Rightarrow> blk list \<Rightarrow> bst \<Rightarrow> (bool \<times> bst) option" where
  "write_journal_blks jbmap bs s =
     do { kassert (length bs < JOURNAL_SIZE);
          (ok, s) \<leftarrow> write_data_loop jbmap 0 bs s;
          if \<not> ok then Some (False, s) else write_bmap_loop jbmap BMAP_BLKS 0 bs s }"

definition write_journal_header :: "(blk \<Rightarrow> blk) \<Rightarrow> nat \<Rightarrow> bst \<Rightarrow> (bool \<times> bst) option" where
  "write_journal_header jbmap n s =
     do { let pb = jbmap HEADER_BLK;
          (ok, s) \<leftarrow> bdev_get_blk pb s;
          if \<not> ok then Some (False, s)
          else do {
            let s = s\<lparr>bmem := put_bytes (bmem s) (bh_data (hdrs s pb)) (le32 n)\<rparr>;
            (ok, s) \<leftarrow> bdev_write_blk pb s;
            if \<not> ok then Some (False, s)
            else do { s \<leftarrow> bdev_release_blk pb s; Some (True, s) } } }"

fun apply_journal :: "blk list \<Rightarrow> bst \<Rightarrow> (bool \<times> bst) option" where
  "apply_journal [] s = Some (True, s)"
| "apply_journal (b # bs) s =
     do { s \<leftarrow> bh_acquire b s;
          (ok, s) \<leftarrow> bdev_write_blk b s;
          if \<not> ok then Some (False, s)
          else do { s \<leftarrow> bdev_release_blk b (bdev_set_blk_dirty b False s); apply_journal bs s } }"

definition erase_journal :: "(blk \<Rightarrow> blk) \<Rightarrow> jst \<Rightarrow> (bool \<times> jst) option" where
  "erase_journal jbmap j =
     do { let j = j\<lparr>datablks := []\<rparr>;
          (ok, s) \<leftarrow> write_journal_header jbmap 0 (jb j);
          Some (ok, j\<lparr>jb := s\<rparr>) }"

definition commit_journal :: "(blk \<Rightarrow> blk) \<Rightarrow> jst \<Rightarrow> (bool \<times> jst) option" where
  "commit_journal jbmap j =
     do { (ok, s) \<leftarrow> write_journal_blks jbmap (datablks j) (jb j);
          if \<not> ok then Some (False, j\<lparr>jb := s\<rparr>)
          else do {
            (ok, s) \<leftarrow> write_journal_header jbmap (length (datablks j)) s;
            if \<not> ok then Some (False, j\<lparr>jb := s\<rparr>)
            else do {
              (ok, s) \<leftarrow> apply_journal (datablks j) s;
              if \<not> ok then Some (False, j\<lparr>jb := s\<rparr>) else erase_journal jbmap (j\<lparr>jb := s\<rparr>) } } }"

text \<open>The transaction of another thread is waited for, which is \<open>None\<close> here.\<close>

definition jbd_begin_txn :: "jst \<Rightarrow> jst option" where
  "jbd_begin_txn j =
     (if \<not> j_enabled j then Some j
      else do { kassert (j_state j = IDLE); Some (j\<lparr>j_state := BUSY\<rparr>) })"

text \<open>A commit that fails is tried again, without end.\<close>

partial_function (option) commit_retry :: "(blk \<Rightarrow> blk) \<Rightarrow> jst \<Rightarrow> jst option" where
  "commit_retry jbmap j =
     do { (ok, j) \<leftarrow> commit_journal jbmap j;
          if ok then Some j else commit_retry jbmap j }"

definition jbd_end_txn :: "(blk \<Rightarrow> blk) \<Rightarrow> jst \<Rightarrow> jst option" where
  "jbd_end_txn jbmap j =
     (if \<not> j_enabled j then Some j
      else do { kassert (j_state j = BUSY);
                j \<leftarrow> (if datablks j \<noteq> [] then commit_retry jbmap j else Some j);
                Some (j\<lparr>j_state := IDLE\<rparr>) })"

definition jbd_write_blk :: "blk \<Rightarrow> jst \<Rightarrow> jst option" where
  "jbd_write_blk b j =
     (if \<not> j_enabled j then Some j
      else do { kassert (j_state j = BUSY);
                if b \<in> set (datablks j) then Some j
                else do { kassert (length (datablks j) < JOURNAL_SIZE);
                          Some (j\<lparr>jb := upd_bh b (bh_ref_update Suc) (jb j), datablks := datablks j @ [b]\<rparr>) } })"

definition jbd_alloc_journal :: "jst \<Rightarrow> jst" where
  "jbd_alloc_journal j = j\<lparr>j_enabled := True, j_state := IDLE, datablks := []\<rparr>"

end
