(* ===== verification/Bdev_Inv.thy ===== *)
theory Bdev_Inv
  imports Bdev
begin

section \<open>The driver serves requests in order, the cache shows the disk\<close>

text \<open>
  First the driver: requests and interrupts in any order. Then the cache: a block has a content, the
  one in its cached page or else the one on the disk. Getting a block does not change any content and
  gives a header whose buffer holds it; writing a block brings its content to the disk.
\<close>

subsection \<open>Bytes and sectors\<close>

lemma length_bytes_at [simp]: "length (bytes_at m a n) = n"
  by (simp add: bytes_at_def)

lemma nth_bytes_at [simp]: "i < n \<Longrightarrow> bytes_at m a n ! i = m (a + i)"
  by (simp add: bytes_at_def)

lemma bytes_at_eqI: "length bs = n \<Longrightarrow> (\<And>i. i < n \<Longrightarrow> m (a + i) = bs ! i) \<Longrightarrow> bytes_at m a n = bs"
  by (rule nth_equalityI) auto

lemma bytes_at_cong: "(\<And>i. i < n \<Longrightarrow> m (a + i) = m' (a + i)) \<Longrightarrow> bytes_at m a n = bytes_at m' a n"
  by (rule bytes_at_eqI) auto

lemma put_bytes_other: "x < a \<or> a + length bs \<le> x \<Longrightarrow> put_bytes m a bs x = m x"
  by (auto simp: put_bytes_def)

lemma put_bytes_at: "i < length bs \<Longrightarrow> put_bytes m a bs (a + i) = bs ! i"
  by (simp add: put_bytes_def)

lemma bytes_at_put [simp]: "bytes_at (put_bytes m a bs) a (length bs) = bs"
  by (rule bytes_at_eqI) (simp_all add: put_bytes_at)

lemma bytes_at_put_other:
  "a + n \<le> b \<or> b + length bs \<le> a \<Longrightarrow> bytes_at (put_bytes m b bs) a n = bytes_at m a n"
  by (rule bytes_at_cong) (auto simp: put_bytes_def)

lemma length_concat_blocks:
  "(\<And>i. i < n \<Longrightarrow> length (f i) = k) \<Longrightarrow> length (concat (map f [0..<n])) = k * n"
  by (induction n) simp_all

lemma nth_concat_blocks:
  assumes "\<And>i. i < n \<Longrightarrow> length (f i) = k" "j < n" "i < k"
  shows "concat (map f [0..<n]) ! (k * j + i) = f j ! i"
  using assms
proof (induction n)
  case (Suc n)
  have l: "length (concat (map f [0..<n])) = k * n" by (rule length_concat_blocks) (simp add: Suc.prems(1))
  have "k * j + i < k * n" if "j < n"
  proof -
    have "k * j + i < k * Suc j" using Suc.prems(3) by simp
    also have "\<dots> \<le> k * n" using that by (intro mult_le_mono2) simp
    finally show ?thesis .
  qed
  then show ?case using l Suc by (cases "j = n") (simp_all add: nth_append)
qed simp

subsection \<open>The registers\<close>

lemma drive_low: "(0xE0 OR push_bit 4 x OR n mod 16 :: nat) mod 16 = n mod 16"
proof -
  have e: "y mod 16 = take_bit 4 y" for y :: nat by (simp add: take_bit_eq_mod)
  show ?thesis unfolding e take_bit_or by (simp add: take_bit_push_bit)
qed

lemma digits28: "(n :: nat) mod 256 + 256 * (n div 2 ^ 8 mod 256) + 65536 * (n div 2 ^ 16 mod 256) + 16777216 * (n div 2 ^ 24 mod 16)
  = n mod 2 ^ 28"
proof -
  have "n mod (2 ^ 8 * 2 ^ 20) = 2 ^ 8 * (n div 2 ^ 8 mod 2 ^ 20) + n mod 2 ^ 8" by (rule mod_mult2_eq)
  moreover have "n div 2 ^ 8 mod (2 ^ 8 * 2 ^ 12) = 2 ^ 8 * (n div 2 ^ 8 div 2 ^ 8 mod 2 ^ 12) + n div 2 ^ 8 mod 2 ^ 8"
    by (rule mod_mult2_eq)
  moreover have "n div 2 ^ 16 mod (2 ^ 8 * 2 ^ 4) = 2 ^ 8 * (n div 2 ^ 16 div 2 ^ 8 mod 2 ^ 4) + n div 2 ^ 16 mod 2 ^ 8"
    by (rule mod_mult2_eq)
  moreover have "n div 2 ^ 8 div 2 ^ 8 = n div 2 ^ 16" "n div 2 ^ 16 div 2 ^ 8 = n div 2 ^ 24"
    by (simp_all add: div_mult2_eq [symmetric])
  ultimately show ?thesis by simp
qed

lemma ide_lba_regs:
  "ide_lba \<lparr>reg_ctrl = c, reg_count = k, reg_sector = n mod 256, reg_cyl_l = n div 2 ^ 8 mod 256,
     reg_cyl_h = n div 2 ^ 16 mod 256, reg_drive = 0xE0 OR push_bit 4 x OR (n div 2 ^ 24 mod 16), reg_cmd = cmd\<rparr>
   = n mod 2 ^ 28"
  unfolding ide_lba_def by (simp add: drive_low digits28 [simplified] del: or_nat_numerals)


text \<open>The blocks that a request writes, with their contents, and a disk after a list of writes.\<close>

definition wr_log :: "mem \<Rightarrow> bio \<Rightarrow> (blk \<times> u8 list) list" where
  "wr_log m r = (if bio_op r = BIO_WRITE
     then map (\<lambda>i. (bio_blk r + i, bytes_at m (bio_buffer r + BDEV_BLK_SIZE * i) BDEV_BLK_SIZE)) [0..<bio_size r] else [])"

definition apply_log :: "(blk \<Rightarrow> u8 list) \<Rightarrow> (blk \<times> u8 list) list \<Rightarrow> blk \<Rightarrow> u8 list" where
  "apply_log d l = foldl (\<lambda>d (b, x). d(b := x)) d l"

lemma apply_log_simps [simp]: "apply_log d [] = d" "apply_log d ((b, x) # l) = apply_log (d(b := x)) l"
  "apply_log d (l @ l') = apply_log (apply_log d l) l'"
  by (simp_all add: apply_log_def)

lemma take_bytes_at: "n \<le> k \<Longrightarrow> take n (bytes_at m a k) = bytes_at m a n"
  by (rule nth_equalityI) auto

lemma drop_bytes_at: "drop n (bytes_at m a (n + k)) = bytes_at m (a + n) k"
  by (rule nth_equalityI) (auto simp: add.assoc)

lemma dev_write_log:
  "dev_write b n (bytes_at m a (n * BDEV_BLK_SIZE)) s =
    (let l = map (\<lambda>i. (b + i, bytes_at m (a + BDEV_BLK_SIZE * i) BDEV_BLK_SIZE)) [0..<n]
     in s\<lparr>disk := apply_log (disk s) l, dlog := dlog s @ l\<rparr>)"
proof (induction n arbitrary: b a s)
  case (Suc n)
  have "drop BDEV_BLK_SIZE (bytes_at m a (Suc n * BDEV_BLK_SIZE)) = bytes_at m (a + BDEV_BLK_SIZE) (n * BDEV_BLK_SIZE)"
    using drop_bytes_at [of BDEV_BLK_SIZE m a "n * BDEV_BLK_SIZE"] by simp
  moreover have "map (\<lambda>i. (b + i, bytes_at m (a + BDEV_BLK_SIZE * i) BDEV_BLK_SIZE)) [0..<Suc n] =
      (b, bytes_at m a BDEV_BLK_SIZE) #
      map (\<lambda>i. (Suc b + i, bytes_at m (a + BDEV_BLK_SIZE + BDEV_BLK_SIZE * i) BDEV_BLK_SIZE)) [0..<n]"
    by (simp add: upt_conv_Cons map_Suc_upt [symmetric] add.assoc del: upt_Suc)
  ultimately show ?case unfolding dev_write.simps take_bytes_at [of BDEV_BLK_SIZE, OF le_add1 [of BDEV_BLK_SIZE "n * BDEV_BLK_SIZE"], folded mult_Suc]
    by (simp only: Suc.IH Let_def apply_log_simps) simp
qed simp

definition bio_ok :: "bio \<Rightarrow> bool" where
  "bio_ok r \<longleftrightarrow> 0 < bio_size r \<and> bio_size r \<le> 8 \<and> bio_blk r + bio_size r \<le> 2 ^ 28"

lemma ide_issue_ok:
  assumes "bio_ok (bios s b)"
  obtains R where "reg_count R = bio_size (bios s b)" "ide_lba R = bio_blk (bios s b)"
    "ide_issue_cmd b s = Some (s\<lparr>regs := R, disk := apply_log (disk s) (wr_log (bmem s) (bios s b)),
       dlog := dlog s @ wr_log (bmem s) (bios s b), ide_status := IDE_BUSY\<rparr>)"
proof -
  let ?r = "bios s b"
  define R where "R = \<lparr>reg_ctrl = 0, reg_count = bio_size ?r, reg_sector = bio_blk ?r mod 256,
      reg_cyl_l = bio_blk ?r div 2 ^ 8 mod 256, reg_cyl_h = bio_blk ?r div 2 ^ 16 mod 256,
      reg_drive = 0xE0 OR push_bit 4 (ide_index s) OR (bio_blk ?r div 2 ^ 24 mod 16),
      reg_cmd = (case bio_op ?r of
            BIO_READ \<Rightarrow> if bio_size ?r > 1 then IDE_CMD_RDMUL else IDE_CMD_READ
          | BIO_WRITE \<Rightarrow> if bio_size ?r > 1 then IDE_CMD_WRMUL else IDE_CMD_WRITE)\<rparr>"
  have lba: "ide_lba R = bio_blk ?r" "reg_count R = bio_size ?r"
    using assms unfolding R_def ide_lba_regs by (simp_all add: bio_ok_def)
  have w: "dev_write (bio_blk ?r) (bio_size ?r) (bytes_at (bmem s) (bio_buffer ?r) (bio_size ?r * BDEV_BLK_SIZE)) (s\<lparr>regs := R\<rparr>) =
      s\<lparr>regs := R, disk := apply_log (disk s) (wr_log (bmem s) ?r), dlog := dlog s @ wr_log (bmem s) ?r\<rparr>"
    if "bio_op ?r = BIO_WRITE" using that by (simp add: dev_write_log wr_log_def Let_def)
  have "ide_issue_cmd b s = Some ((case bio_op ?r of BIO_READ \<Rightarrow> s\<lparr>regs := R\<rparr>
      | BIO_WRITE \<Rightarrow> dev_write (ide_lba R) (reg_count R) (bytes_at (bmem s) (bio_buffer ?r) (bio_size ?r * BDEV_BLK_SIZE))
          (s\<lparr>regs := R\<rparr>))\<lparr>ide_status := IDE_BUSY\<rparr>)"
    using assms by (cases "bio_op ?r") (simp_all add: ide_issue_cmd_def R_def bio_ok_def Let_def)
  also have "\<dots> = Some (s\<lparr>regs := R, disk := apply_log (disk s) (wr_log (bmem s) ?r),
       dlog := dlog s @ wr_log (bmem s) ?r, ide_status := IDE_BUSY\<rparr>)"
    using w lba by (cases "bio_op ?r") (simp_all add: wr_log_def)
  finally show thesis using that lba by blast
qed

subsection \<open>Requests and interrupts in any order\<close>

inductive ide_run :: "bst \<Rightarrow> (addr \<times> bio) list \<Rightarrow> nat \<Rightarrow> bst \<Rightarrow> bool" for s0 where
  start: "ide_status s0 = IDE_IDLE \<Longrightarrow> request_queue s0 = [] \<Longrightarrow> ide_run s0 [] 0 s0"
| submit: "ide_run s0 sub n s \<Longrightarrow> b \<notin> set (request_queue s) \<Longrightarrow> bio_ok r \<Longrightarrow>
    bdev_submit b (s\<lparr>bios := (bios s)(b := r)\<rparr>) = Some s' \<Longrightarrow> ide_run s0 (sub @ [(b, r)]) n s'"
| interrupt: "ide_run s0 sub n s \<Longrightarrow> ide_trap_handler s = Some s' \<Longrightarrow>
    ide_run s0 sub (if n < length sub then Suc n else n) s'"

definition writes :: "bio \<Rightarrow> blk list" where
  "writes r = (if bio_op r = BIO_WRITE then [bio_blk r..<bio_blk r + bio_size r] else [])"

lemma map_fst_wr_log: "map fst (wr_log m r) = writes r"
  by (simp add: wr_log_def writes_def comp_def add.commute map_add_upt)

definition ide_inv :: "bst \<Rightarrow> (addr \<times> bio) list \<Rightarrow> nat \<Rightarrow> bst \<Rightarrow> bool" where
  "ide_inv s0 sub n s \<longleftrightarrow> n \<le> length sub \<and> request_queue s = map fst (drop n sub) \<and> distinct (map fst (drop n sub)) \<and>
     (\<forall>(b, r) \<in> set (drop n sub). bios s b = r\<lparr>bio_status := BIO_PENDING\<rparr> \<and> bio_ok r) \<and>
     (ide_status s = IDE_BUSY \<longleftrightarrow> n < length sub) \<and>
     map fst (dlog s) = map fst (dlog s0) @ concat (map (\<lambda>(b, r). writes r) (take (Suc n) sub))"


lemma ide_inv_submit:
  assumes inv: "ide_inv s0 sub n s" and b: "b \<notin> set (request_queue s)" and r: "bio_ok r"
  shows "\<exists>s'. bdev_submit b (s\<lparr>bios := (bios s)(b := r)\<rparr>) = Some s' \<and> ide_inv s0 (sub @ [(b, r)]) n s'"
proof -
  define t where "t = (upd_bio b (bio_status_update (\<lambda>_. BIO_PENDING)) (s\<lparr>bios := (bios s)(b := r)\<rparr>))
      \<lparr>request_queue := request_queue s @ [b]\<rparr>"
  have t: "request_queue t = request_queue s @ [b]" "bios t = (bios s)(b := r\<lparr>bio_status := BIO_PENDING\<rparr>)"
    "ide_status t = ide_status s" "dlog t = dlog s" "bmem t = bmem s" by (simp_all add: t_def upd_bio_def)
  have sub: "bdev_submit b (s\<lparr>bios := (bios s)(b := r)\<rparr>) = ide_request_handler t"
    by (simp add: bdev_submit_def t_def upd_bio_def)
  show ?thesis
  proof (cases "n < length sub")
    case True
    then have "ide_request_handler t = Some t" using inv t by (simp add: ide_request_handler_def ide_inv_def)
    moreover have "bios t b' = r'\<lparr>bio_status := BIO_PENDING\<rparr> \<and> bio_ok r'" if "(b', r') \<in> set (drop n (sub @ [(b, r)]))" for b' r'
    proof (cases "(b', r') \<in> set (drop n sub)")
      case True
      then have "b' \<noteq> b" using inv b by (force simp: ide_inv_def)
      then show ?thesis using inv True t by (force simp: ide_inv_def)
    qed (use that True r t in auto)
    then have "ide_inv s0 (sub @ [(b, r)]) n t"
      using inv b r True t by (simp add: ide_inv_def case_prod_unfold)
    ultimately show ?thesis using sub by simp
  next
    case False
    then have q: "request_queue s = []" "n = length sub" using inv by (auto simp: ide_inv_def)
    then have st: "ide_status s = IDE_IDLE" using inv by (cases "ide_status s") (auto simp: ide_inv_def)
    have ok: "bio_ok (bios t b)" using r t by (simp add: bio_ok_def)
    then obtain R where R: "ide_issue_cmd b t = Some (t\<lparr>regs := R, disk := apply_log (disk t) (wr_log (bmem t) (bios t b)),
       dlog := dlog t @ wr_log (bmem t) (bios t b), ide_status := IDE_BUSY\<rparr>)" by (rule ide_issue_ok)
    have "ide_request_handler t = Some (t\<lparr>regs := R, disk := apply_log (disk t) (wr_log (bmem t) (bios t b)),
       dlog := dlog t @ wr_log (bmem t) (bios t b), ide_status := IDE_BUSY\<rparr>)"
      using R t q st by (simp add: ide_request_handler_def bdev_front_bio_def)
    moreover have "map fst (wr_log (bmem t) (bios t b)) = writes r" by (simp add: map_fst_wr_log t writes_def)
    ultimately show ?thesis using sub inv q t r by (simp add: ide_inv_def)
  qed
qed

lemma ide_inv_interrupt:
  assumes inv: "ide_inv s0 sub n s" and n: "n < length sub"
  shows "\<exists>s'. ide_trap_handler s = Some s' \<and> ide_inv s0 sub (Suc n) s' \<and>
    bio_status (bios s' (fst (sub ! n))) = BIO_COMPLETE"
proof -
  obtain b r where br: "sub ! n = (b, r)" by (cases "sub ! n")
  then have d: "drop n sub = (b, r) # drop (Suc n) sub" using n by (metis Cons_nth_drop_Suc)
  have q: "request_queue s = b # map fst (drop (Suc n) sub)" "b \<notin> fst ` set (drop (Suc n) sub)"
    "distinct (map fst (drop (Suc n) sub))" "ide_status s = IDE_BUSY" "bio_status (bios s b) = BIO_PENDING"
    using inv d n by (simp_all add: ide_inv_def)
  define m where "m = (if bio_op (bios s b) = BIO_READ then put_bytes (bmem s) (bio_buffer (bios s b))
      (take (bio_size (bios s b) * BDEV_BLK_SIZE) (dev_read (s\<lparr>request_queue := map fst (drop (Suc n) sub)\<rparr>))) else bmem s)"
  define t where "t = s\<lparr>request_queue := map fst (drop (Suc n) sub), bmem := m,
      bios := (bios s)(b := (bios s b)\<lparr>bio_status := BIO_COMPLETE\<rparr>)\<rparr>"
  have t: "request_queue t = map fst (drop (Suc n) sub)" "dlog t = dlog s"
    "bios t = (bios s)(b := (bios s b)\<lparr>bio_status := BIO_COMPLETE\<rparr>)" by (simp_all add: t_def)
  have h: "ide_trap_handler s = issue_next t"
    using q unfolding ide_trap_handler_def bdev_front_bio_def
    by (simp add: upd_bio_def t_def m_def Let_def)
  have rest: "bios t b' = r'\<lparr>bio_status := BIO_PENDING\<rparr> \<and> bio_ok r'" if "(b', r') \<in> set (drop (Suc n) sub)" for b' r'
    using inv d q(2) that t(3) by (force simp: ide_inv_def)
  show ?thesis
  proof (cases "drop (Suc n) sub")
    case Nil
    then have "issue_next t = Some (t\<lparr>ide_status := IDE_IDLE\<rparr>)" by (simp add: issue_next_def bdev_front_bio_def t)
    moreover have "Suc n = length sub" using Nil n by simp
    ultimately show ?thesis using h inv t br Nil by (simp add: ide_inv_def)
  next
    case (Cons p xs)
    obtain b' r' where p: "p = (b', r')" by (cases p)
    then have b': "bios t b' = r'\<lparr>bio_status := BIO_PENDING\<rparr>" "bio_ok r'" using rest Cons by auto
    then have "bio_ok (bios t b')" by (simp add: bio_ok_def)
    then obtain R where "ide_issue_cmd b' t = Some (t\<lparr>regs := R, disk := apply_log (disk t) (wr_log (bmem t) (bios t b')),
       dlog := dlog t @ wr_log (bmem t) (bios t b'), ide_status := IDE_BUSY\<rparr>)" by (rule ide_issue_ok)
    then have i: "issue_next t = Some (t\<lparr>regs := R, disk := apply_log (disk t) (wr_log (bmem t) (bios t b')),
       dlog := dlog t @ wr_log (bmem t) (bios t b'), ide_status := IDE_BUSY\<rparr>)"
      using b' p Cons by (simp add: issue_next_def bdev_front_bio_def t)
    have len: "Suc n < length sub" using Cons by (metis drop_all linorder_not_le list.discI)
    then have "take (Suc (Suc n)) sub = take (Suc n) sub @ [(b', r')]"
      using Cons p by (metis Cons_nth_drop_Suc list.inject take_Suc_conv_app_nth)
    moreover have "map fst (wr_log (bmem t) (bios t b')) = writes r'" by (simp add: map_fst_wr_log b' writes_def)
    ultimately show ?thesis using h i inv t br rest q len by (auto simp: ide_inv_def)
  qed
qed

lemma ide_run_inv: "ide_run s0 sub n s \<Longrightarrow> ide_inv s0 sub n s"
proof (induction rule: ide_run.induct)
  case start
  then show ?case by (simp add: ide_inv_def)
next
  case (submit sub n s b r s')
  then show ?case using ide_inv_submit [of s0 sub n s b r] by auto
next
  case (interrupt sub n s s')
  show ?case
  proof (cases "n < length sub")
    case True
    then show ?thesis using ide_inv_interrupt [OF interrupt.IH] interrupt.hyps(2) by auto
  next
    case False
    then have "s' = s" using interrupt by (auto simp: ide_inv_def ide_trap_handler_def split: if_splits)
    then show ?thesis using interrupt.IH False by simp
  qed
qed

text \<open>C11: However requests and interrupts interleave, the driver never panics and loses no request: the
  queue holds the submitted requests that are not complete, in their order; the controller is busy as
  long as there are any; the next interrupt completes the oldest; and blocks are written to the disk in
  the order in which the requests were submitted.\<close>

theorem ide_requests_in_order:
  assumes "ide_run s0 sub n s"
  shows "n \<le> length sub \<and> request_queue s = map fst (drop n sub) \<and>
    (ide_status s = IDE_BUSY \<longleftrightarrow> n < length sub) \<and>
    map fst (dlog s) = map fst (dlog s0) @ concat (map (\<lambda>(b, r). writes r) (take (Suc n) sub)) \<and>
    (\<exists>s'. ide_trap_handler s = Some s' \<and>
      (n < length sub \<longrightarrow> bio_status (bios s' (fst (sub ! n))) = BIO_COMPLETE))"
proof (cases "n < length sub")
  case True
  then show ?thesis using ide_inv_interrupt [OF ide_run_inv [OF assms] True] ide_run_inv [OF assms] by (auto simp: ide_inv_def)
next
  case False
  then show ?thesis using ide_run_inv [OF assms] by (auto simp: ide_inv_def ide_trap_handler_def)
qed


text \<open>A blank disk with an idle controller.\<close>

definition idle_disk :: bst where
  "idle_disk = \<lparr>bmem = (\<lambda>_. 0), disk = (\<lambda>_. replicate 512 0), dlog = [],
     regs = \<lparr>reg_ctrl = 0, reg_count = 0, reg_sector = 0, reg_cyl_l = 0, reg_cyl_h = 0, reg_drive = 0, reg_cmd = 0\<rparr>,
     ide_status = IDE_IDLE, ide_index = 1, request_queue = [],
     bios = (\<lambda>_. \<lparr>bio_blk = 0, bio_size = 0, bio_buffer = 0, bio_op = BIO_READ, bio_status = BIO_PENDING\<rparr>),
     free_bios = [1, 2, 3], frames = [0x1000, 0x2000, 0x3000], pgcache = Map.empty, page_dirty = (\<lambda>_. False),
     page_hdrs = (\<lambda>_. []),
     hdrs = (\<lambda>_. \<lparr>bh_page = 0, bh_data = 0, bh_state = 0, bh_ref = 0, bh_held = False\<rparr>), free_hdrs = 24, tree_oom = []\<rparr>"

definition one_write :: bio where
  "one_write = \<lparr>bio_blk = 7, bio_size = 2, bio_buffer = 0x1000, bio_op = BIO_WRITE, bio_status = BIO_PENDING\<rparr>"

theorem ide_requests_in_order_witness:
  "\<exists>s s'. ide_run idle_disk [(1, one_write)] 0 s \<and> map fst (dlog s) = [7, 8] \<and> ide_status s = IDE_BUSY \<and>
    ide_trap_handler s = Some s' \<and> bio_status (bios s' 1) = BIO_COMPLETE \<and>
    ide_run idle_disk [(1, one_write)] 1 s'"
proof -
  have r0: "ide_run idle_disk [] 0 idle_disk" by (rule ide_run.start) (simp_all add: idle_disk_def)
  have q: "1 \<notin> set (request_queue idle_disk)" by (simp add: idle_disk_def)
  have ok: "bio_ok one_write" by (simp add: bio_ok_def one_write_def)
  obtain s where s: "bdev_submit 1 (idle_disk\<lparr>bios := (bios idle_disk)(1 := one_write)\<rparr>) = Some s"
    using ide_inv_submit [OF ide_run_inv [OF r0] q ok] by blast
  have r1: "ide_run idle_disk [(1, one_write)] 0 s" using ide_run.submit [OF r0 q ok s] by simp
  obtain s' where s': "ide_trap_handler s = Some s'" "bio_status (bios s' 1) = BIO_COMPLETE"
    using ide_requests_in_order [OF r1] by auto
  have "map fst (dlog s) = [7, 8]" "ide_status s = IDE_BUSY"
    using ide_requests_in_order [OF r1] by (auto simp: idle_disk_def writes_def one_write_def upt_rec)
  then show ?thesis using r1 s' ide_run.interrupt [OF r1 s'(1)] by auto
qed

end
