(* ===== verification/Bcache.thy ===== *)
theory Bcache
  imports Bdev_Inv
begin

section \<open>The block cache\<close>

text \<open>
  The content of a block is what its cached page holds, or what is on the disk if the page is not
  cached. The operations of the cache keep the contents of all blocks.
\<close>

definition view :: "bst \<Rightarrow> blk \<Rightarrow> u8 list" where
  "view s b = (case pgcache s (b div 8) of
      Some p \<Rightarrow> bytes_at (bmem s) (p + BDEV_BLK_SIZE * (b mod 8)) BDEV_BLK_SIZE | None \<Rightarrow> disk s b)"

definition live :: "bst \<Rightarrow> blk \<Rightarrow> bool" where
  "live s b \<longleftrightarrow> (\<exists>p. pgcache s (b div 8) = Some p \<and> b \<in> set (page_hdrs s p))"

definition hdr_ok :: "bst \<Rightarrow> nat \<Rightarrow> addr \<Rightarrow> bool" where
  "hdr_ok s i p \<longleftrightarrow> (page_hdrs s p = [] \<or> page_hdrs s p = [8 * i..<8 * i + 8]) \<and>
     (\<forall>b \<in> set (page_hdrs s p). bh_page (hdrs s b) = p \<and> bh_data (hdrs s b) = p + BDEV_BLK_SIZE * (b mod 8) \<and>
        bdev_is_blk_valid b s \<and> (bdev_is_blk_dirty b s \<longrightarrow> page_dirty s p))"

definition cache_ok :: "bst \<Rightarrow> bool" where
  "cache_ok s \<longleftrightarrow> ide_status s = IDE_IDLE \<and> request_queue s = [] \<and> (\<forall>b. length (disk s b) = BDEV_BLK_SIZE) \<and>
     distinct (frames s) \<and> (\<forall>p \<in> set (frames s) \<union> ran (pgcache s). 4096 dvd p) \<and>
     set (frames s) \<inter> ran (pgcache s) = {} \<and> inj_on (pgcache s) (dom (pgcache s)) \<and>
     (\<forall>i p. pgcache s i = Some p \<longrightarrow> hdr_ok s i p)"

text \<open>The cached pages without headers, and that there are headers for all of them.\<close>

definition bare :: "bst \<Rightarrow> nat set" where
  "bare s = {i. \<exists>p. pgcache s i = Some p \<and> page_hdrs s p = []}"

definition supply_ok :: "bst \<Rightarrow> bool" where
  "supply_ok s \<longleftrightarrow> finite (dom (pgcache s)) \<and>
     8 * card (bare s) \<le> free_hdrs s"

lemma cache_okD:
  assumes "cache_ok s"
  shows "ide_status s = IDE_IDLE" "request_queue s = []" "length (disk s b) = BDEV_BLK_SIZE" "distinct (frames s)"
    "p \<in> set (frames s) \<Longrightarrow> 4096 dvd p" "pgcache s i = Some p \<Longrightarrow> 4096 dvd p"
    "p \<in> set (frames s) \<Longrightarrow> pgcache s i \<noteq> Some p"
    "pgcache s i = Some p \<Longrightarrow> pgcache s j = Some p \<Longrightarrow> i = j"
    "pgcache s i = Some p \<Longrightarrow> hdr_ok s i p"
  using assms unfolding cache_ok_def by (auto simp: ran_def inj_on_def dom_def)

lemma hdr_okD:
  assumes "hdr_ok s i p"
  shows "page_hdrs s p = [] \<or> page_hdrs s p = [8 * i..<8 * i + 8]"
    "b \<in> set (page_hdrs s p) \<Longrightarrow> bh_page (hdrs s b) = p"
    "b \<in> set (page_hdrs s p) \<Longrightarrow> bh_data (hdrs s b) = p + BDEV_BLK_SIZE * (b mod 8)"
    "b \<in> set (page_hdrs s p) \<Longrightarrow> bdev_is_blk_valid b s"
    "b \<in> set (page_hdrs s p) \<Longrightarrow> bdev_is_blk_dirty b s \<Longrightarrow> page_dirty s p"
  using assms unfolding hdr_ok_def by auto

lemma hdrs_div: "hdr_ok s i p \<Longrightarrow> b \<in> set (page_hdrs s p) \<Longrightarrow> b div 8 = i"
  using hdr_okD(1) by fastforce

lemma live_view:
  assumes "cache_ok s" "live s b"
  shows "view s b = bytes_at (bmem s) (bh_data (hdrs s b)) BDEV_BLK_SIZE"
  using assms hdr_okD(3) cache_okD(9) unfolding live_def view_def by fastforce

lemma length_view: "cache_ok s \<Longrightarrow> length (view s b) = BDEV_BLK_SIZE"
  by (auto simp: view_def cache_okD(3) split: option.splits)

lemma memmove_put: "memmove m d a n = put_bytes m d (bytes_at m a n)"
  by (auto simp: memmove_def copy_fwd_eq copy_back_eq put_bytes_def bytes_at_def fun_eq_iff)

text \<open>Two pages do not overlap, so storing into the buffer of a block changes this block only.\<close>

lemma pages_apart: "4096 dvd (p :: nat) \<Longrightarrow> 4096 dvd q \<Longrightarrow> p \<noteq> q \<Longrightarrow> p + 4096 \<le> q \<or> q + 4096 \<le> p"
  by (auto simp: dvd_def)

lemma slots_apart: "(x :: nat) \<noteq> y \<Longrightarrow> p + 512 * x + 512 \<le> p + 512 * y \<or> p + 512 * y + 512 \<le> p + 512 * x"
  by (cases x y rule: linorder_cases) auto

lemma slots_apart':
  assumes "p + 4096 \<le> q \<or> q + 4096 \<le> p" "(x :: nat) < 8" "y < 8"
  shows "p + 512 * x + 512 \<le> q + 512 * y \<or> q + 512 * y + 512 \<le> p + 512 * x"
  using assms(1) by (rule disj_forward) (use assms(2,3) in linarith)+

lemma blocks_apart:
  assumes "cache_ok s" "pgcache s (b div 8) = Some p" "pgcache s (c div 8) = Some q" "b \<noteq> c"
  shows "p + 512 * (b mod 8) + 512 \<le> q + 512 * (c mod 8) \<or> q + 512 * (c mod 8) + 512 \<le> p + 512 * (b mod 8)"
proof (cases "p = q")
  case True
  then have "b div 8 = c div 8" using assms(2,3) cache_okD(8) [OF assms(1)] by simp
  then have "b mod 8 \<noteq> c mod 8" using assms(4) by (metis div_mult_mod_eq)
  then show ?thesis using slots_apart [of "b mod 8" "c mod 8" p] True by simp
next
  case False
  have "p + 4096 \<le> q \<or> q + 4096 \<le> p"
    using pages_apart [OF cache_okD(6) [OF assms(1,2)] cache_okD(6) [OF assms(1,3)] False] .
  then show ?thesis by (rule slots_apart') simp_all
qed

lemma view_put:
  assumes "cache_ok s" "pgcache s (b div 8) = Some p" "length bs \<le> BDEV_BLK_SIZE"
  shows "view (s\<lparr>bmem := put_bytes (bmem s) (p + BDEV_BLK_SIZE * (b mod 8)) bs\<rparr>) =
    (view s)(b := bs @ drop (length bs) (view s b))"
proof
  fix c
  let ?s = "s\<lparr>bmem := put_bytes (bmem s) (p + BDEV_BLK_SIZE * (b mod 8)) bs\<rparr>"
  show "view ?s c = ((view s)(b := bs @ drop (length bs) (view s b))) c"
  proof (cases "c = b")
    case True
    then show ?thesis using assms(2,3)
      by (auto simp: view_def put_bytes_def nth_append intro!: nth_equalityI)
  next
    case False
    show ?thesis
    proof (cases "pgcache s (c div 8)")
      case (Some q)
      have "bytes_at (put_bytes (bmem s) (p + 512 * (b mod 8)) bs) (q + 512 * (c mod 8)) 512 =
          bytes_at (bmem s) (q + 512 * (c mod 8)) 512"
        using blocks_apart [OF assms(1,2) Some] False assms(3) by (intro bytes_at_put_other) linarith
      then show ?thesis using Some False by (simp add: view_def)
    qed (use False in \<open>simp add: view_def\<close>)
  qed
qed


subsection \<open>One request\<close>

text \<open>The parts of the state that a request does not touch.\<close>

definition cache_frame :: "bst \<Rightarrow> bst \<Rightarrow> bool" where
  "cache_frame s s' \<longleftrightarrow> frames s' = frames s \<and> pgcache s' = pgcache s \<and> page_dirty s' = page_dirty s \<and>
     page_hdrs s' = page_hdrs s \<and> hdrs s' = hdrs s \<and> free_hdrs s' = free_hdrs s \<and> tree_oom s' = tree_oom s"

definition dev_data :: "bst \<Rightarrow> bio \<Rightarrow> u8 list" where
  "dev_data s r = concat (map (\<lambda>i. disk s (bio_blk r + i)) [0..<bio_size r])"

lemma make_request:
  assumes "ide_status s = IDE_IDLE" "request_queue s = []" "bio_ok (bios s b)" "\<And>x. length (disk s x) = BDEV_BLK_SIZE"
  obtains s' where "bdev_make_request b s = Some s'" "cache_frame s s'" "ide_status s' = IDE_IDLE" "request_queue s' = []"
    "free_bios s' = free_bios s" "disk s' = apply_log (disk s) (wr_log (bmem s) (bios s b))"
    "dlog s' = dlog s @ wr_log (bmem s) (bios s b)"
    "bmem s' = (if bio_op (bios s b) = BIO_READ then put_bytes (bmem s) (bio_buffer (bios s b)) (dev_data s (bios s b)) else bmem s)"
proof -
  let ?r = "bios s b"
  define t where "t = (upd_bio b (bio_status_update (\<lambda>_. BIO_PENDING)) s)\<lparr>request_queue := [b]\<rparr>"
  have t: "bios t b = ?r\<lparr>bio_status := BIO_PENDING\<rparr>" "request_queue t = [b]" "ide_status t = IDE_IDLE"
    "bmem t = bmem s" "disk t = disk s" "dlog t = dlog s" "free_bios t = free_bios s" "cache_frame s t"
    using assms(1) by (simp_all add: t_def upd_bio_def cache_frame_def)
  have ok: "bio_ok (bios t b)" using assms(3) by (simp add: t bio_ok_def)
  have log: "wr_log (bmem t) (bios t b) = wr_log (bmem s) ?r" by (simp add: t wr_log_def)
  obtain R where R: "reg_count R = bio_size (bios t b)" "ide_lba R = bio_blk (bios t b)"
    "ide_issue_cmd b t = Some (t\<lparr>regs := R, disk := apply_log (disk t) (wr_log (bmem t) (bios t b)),
       dlog := dlog t @ wr_log (bmem t) (bios t b), ide_status := IDE_BUSY\<rparr>)"
    using ide_issue_ok [OF ok] by blast
  define u where "u = t\<lparr>regs := R, disk := apply_log (disk t) (wr_log (bmem t) (bios t b)),
       dlog := dlog t @ wr_log (bmem t) (bios t b), ide_status := IDE_BUSY\<rparr>"
  have u: "bios u b = ?r\<lparr>bio_status := BIO_PENDING\<rparr>" "request_queue u = [b]" "ide_status u = IDE_BUSY"
    "bmem u = bmem s" "disk u = apply_log (disk s) (wr_log (bmem s) ?r)" "dlog u = dlog s @ wr_log (bmem s) ?r"
    "free_bios u = free_bios s" "cache_frame s u" "regs u = R" unfolding u_def using t log by (simp_all add: cache_frame_def)
  have sub: "bdev_submit b s = Some u"
    using R assms(2) t by (simp add: bdev_submit_def ide_request_handler_def bdev_front_bio_def u_def)
      (simp add: t_def upd_bio_def ide_request_handler_def bdev_front_bio_def assms(1))
  define m where "m = (if bio_op ?r = BIO_READ then put_bytes (bmem s) (bio_buffer ?r) (dev_data s ?r) else bmem s)"
  have rd: "take (bio_size ?r * BDEV_BLK_SIZE) (dev_read (u\<lparr>request_queue := []\<rparr>)) = dev_data s ?r"
    if "bio_op ?r = BIO_READ"
  proof -
    have "disk u = disk s" using that u(5) by (simp add: wr_log_def)
    then have "dev_read (u\<lparr>request_queue := []\<rparr>) = dev_data s ?r"
      using R(1,2) by (simp add: dev_read_def dev_data_def u t)
    moreover have "length (dev_data s ?r) = BDEV_BLK_SIZE * bio_size ?r"
      unfolding dev_data_def by (rule length_concat_blocks) (simp add: assms(4))
    ultimately show ?thesis by simp
  qed
  define v where "v = (upd_bio b (bio_status_update (\<lambda>_. BIO_COMPLETE)) (u\<lparr>request_queue := [], bmem := m\<rparr>))\<lparr>ide_status := IDE_IDLE\<rparr>"
  have "ide_trap_handler u = Some v"
    using u rd m_def unfolding ide_trap_handler_def bdev_front_bio_def issue_next_def v_def
    by (auto simp: upd_bio_def)
  moreover have "bio_status (bios v b) = BIO_COMPLETE" by (simp add: v_def upd_bio_def)
  ultimately have "bdev_make_request b s = Some v" using sub u by (simp add: bdev_make_request_def)
  then show thesis by (rule that) (use u in \<open>simp_all add: v_def upd_bio_def cache_frame_def m_def\<close>)
qed


subsection \<open>Headers\<close>

definition fresh_state :: u32 where
  "fresh_state = set_state_bit (set_state_bit 0x2b2b2b2b BLK_HEADER_VALID True) BLK_HEADER_DIRTY False"

lemma new_headers_eq:
  assumes "n \<le> free_hdrs s"
  shows "new_headers n page first i s = (True, s\<lparr>free_hdrs := free_hdrs s - n,
    page_hdrs := (page_hdrs s)(page := page_hdrs s page @ [first + i..<first + i + n]),
    hdrs := (\<lambda>b. if first + i \<le> b \<and> b < first + i + n
      then \<lparr>bh_page = page, bh_data = page + BDEV_BLK_SIZE * (b - first), bh_state = fresh_state, bh_ref = 0, bh_held = False\<rparr>
      else hdrs s b)\<rparr>)"
  using assms
proof (induction n arbitrary: i s)
  case 0
  show ?case by (rule prod_eqI) (auto intro!: bst.equality ext)
next
  case (Suc n)
  let ?h = "\<lambda>b. \<lparr>bh_page = page, bh_data = page + BDEV_BLK_SIZE * (b - first), bh_state = fresh_state, bh_ref = 0, bh_held = False\<rparr>"
  define t where "t = s\<lparr>free_hdrs := free_hdrs s - 1, page_hdrs := (page_hdrs s)(page := page_hdrs s page @ [first + i]),
      hdrs := (hdrs s)(first + i := ?h (first + i))\<rparr>"
  have "new_headers (Suc n) page first i s = new_headers n page first (Suc i) t"
    using Suc.prems by (simp add: Let_def t_def bdev_set_blk_dirty_def bdev_set_blk_valid_def upd_bh_def fresh_state_def)
  moreover have "n \<le> free_hdrs t" using Suc.prems by (simp add: t_def)
  moreover have "[first + i..<first + i + Suc n] = (first + i) # [first + Suc i..<first + Suc i + n]"
    by (simp add: upt_conv_Cons)
  ultimately show ?case unfolding Suc.IH [OF \<open>n \<le> free_hdrs t\<close>]
    by (intro prod_eqI) (auto simp: t_def fun_eq_iff intro!: bst.equality simp del: upt_Suc)
qed


text \<open>What getting and releasing a block leave alone: all data, and the headers of other blocks that are
  in use.\<close>

definition same_data :: "bst \<Rightarrow> bst \<Rightarrow> bool" where
  "same_data s s' \<longleftrightarrow> bmem s' = bmem s \<and> disk s' = disk s \<and> dlog s' = dlog s \<and> pgcache s' = pgcache s \<and>
     free_bios s' = free_bios s \<and> frames s' = frames s \<and> page_dirty s' = page_dirty s \<and> tree_oom s' = tree_oom s \<and>
     ide_status s' = ide_status s \<and> request_queue s' = request_queue s"

definition keeps :: "blk \<Rightarrow> bst \<Rightarrow> bst \<Rightarrow> bool" where
  "keeps b s s' \<longleftrightarrow> (\<forall>x. x \<noteq> b \<and> live s x \<and> 0 < bh_ref (hdrs s x) \<longrightarrow> live s' x \<and> hdrs s' x = hdrs s x) \<and>
     (\<forall>x. x \<noteq> b \<and> live s' x \<and> bh_held (hdrs s' x) \<longrightarrow> live s x \<and> bh_held (hdrs s x))"

lemma same_data_view [frames]: "same_data s s' \<Longrightarrow> view s' = view s"
  by (rule ext) (simp add: same_data_def view_def split: option.splits)

lemma same_data_trans: "same_data s t \<Longrightarrow> same_data t u \<Longrightarrow> same_data s u"
  by (simp add: same_data_def)

lemma keepsD: "keeps b s s' \<Longrightarrow> x \<noteq> b \<Longrightarrow> live s x \<Longrightarrow> 0 < bh_ref (hdrs s x) \<Longrightarrow> live s' x \<and> hdrs s' x = hdrs s x"
  unfolding keeps_def by blast

lemma keepsI:
  assumes "\<And>x. x \<noteq> b \<Longrightarrow> live s x \<Longrightarrow> 0 < bh_ref (hdrs s x) \<Longrightarrow> live s' x \<and> hdrs s' x = hdrs s x"
    "\<And>x. x \<noteq> b \<Longrightarrow> live s' x \<Longrightarrow> bh_held (hdrs s' x) \<Longrightarrow> live s x \<and> bh_held (hdrs s x)"
  shows "keeps b s s'"
  unfolding keeps_def using assms by blast

lemma keepsH: "keeps b s s' \<Longrightarrow> x \<noteq> b \<Longrightarrow> live s' x \<Longrightarrow> bh_held (hdrs s' x) \<Longrightarrow> live s x \<and> bh_held (hdrs s x)"
  unfolding keeps_def by blast

lemma keeps_trans:
  assumes st: "keeps b s t" and tu: "keeps b t u"
  shows "keeps b s u"
proof (rule keepsI)
  fix x assume x: "x \<noteq> b" "live s x" "0 < bh_ref (hdrs s x)"
  then have "live t x \<and> hdrs t x = hdrs s x" using keepsD [OF st] by simp
  then show "live u x \<and> hdrs u x = hdrs s x" using keepsD [OF tu] x by simp
next
  fix x assume "x \<noteq> b" "live u x" "bh_held (hdrs u x)"
  then show "live s x \<and> bh_held (hdrs s x)" using keepsH [OF st] keepsH [OF tu] by blast
qed

lemma hdr_ok_cong:
  assumes "page_hdrs s' p = page_hdrs s p" "page_dirty s' p = page_dirty s p"
    "\<And>b. b \<in> set (page_hdrs s p) \<Longrightarrow> bh_page (hdrs s' b) = bh_page (hdrs s b) \<and> bh_data (hdrs s' b) = bh_data (hdrs s b) \<and>
       bh_state (hdrs s' b) = bh_state (hdrs s b)"
  shows "hdr_ok s' i p = hdr_ok s i p"
  using assms by (auto simp: hdr_ok_def bdev_is_blk_valid_def bdev_is_blk_dirty_def)

lemma cache_ok_same:
  assumes "cache_ok s" "same_data s s'" "\<And>i p. pgcache s i = Some p \<Longrightarrow> hdr_ok s' i p"
  shows "cache_ok s'"
  using assms unfolding cache_ok_def same_data_def by auto

lemma ref_upd:
  assumes "cache_ok s" "\<And>h. bh_page (f h) = bh_page h \<and> bh_data (f h) = bh_data h \<and> bh_state (f h) = bh_state h"
  shows "cache_ok (upd_bh b f s)" "same_data s (upd_bh b f s)" "keeps b s (upd_bh b f s)" "live (upd_bh b f s) x = live s x"
    "supply_ok (upd_bh b f s) = supply_ok s" "hdrs (upd_bh b f s) b = f (hdrs s b)"
proof -
  show sd: "same_data s (upd_bh b f s)" by (simp add: same_data_def upd_bh_def)
  show "cache_ok (upd_bh b f s)"
  proof (rule cache_ok_same [OF assms(1) sd])
    fix i p assume "pgcache s i = Some p"
    then have "hdr_ok s i p" by (rule cache_okD(9) [OF assms(1)])
    moreover have "hdr_ok (upd_bh b f s) i p = hdr_ok s i p"
      by (rule hdr_ok_cong) (simp_all add: upd_bh_def assms(2))
    ultimately show "hdr_ok (upd_bh b f s) i p" by simp
  qed
qed (simp_all add: keeps_def live_def upd_bh_def supply_ok_def bare_def)

text \<open>Creating the headers of a page.\<close>

lemma init_headers:
  assumes C: "cache_ok s" "supply_ok s" and p: "pgcache s (b div 8) = Some p"
  obtains s' where "init_blk_headers p (FIRST_BLK_IN_PAGE b) s = (True, s')" "cache_ok s'" "supply_ok s'" "same_data s s'"
    "\<And>x. live s x \<Longrightarrow> live s' x \<and> hdrs s' x = hdrs s x" "live s' b" "b \<in> set (page_hdrs s' p)"
    "\<not> live s b \<Longrightarrow> bh_ref (hdrs s' b) = 0 \<and> \<not> bh_held (hdrs s' b)"
    "\<And>x. live s' x \<Longrightarrow> bh_held (hdrs s' x) \<Longrightarrow> live s x \<and> bh_held (hdrs s x)"
proof (cases "page_hdrs s p = []")
  case False
  then have "page_hdrs s p = [8 * (b div 8)..<8 * (b div 8) + 8]" using hdr_okD(1) [OF cache_okD(9) [OF C(1) p]] by simp
  then have "b \<in> set (page_hdrs s p)" by (auto simp del: upt_Suc)
  then show thesis using False C p by (intro that [of s]) (auto simp: init_blk_headers_def same_data_def live_def)
next
  case True
  let ?i = "b div 8" and ?f = "FIRST_BLK_IN_PAGE b"
  have f: "?f = 8 * ?i" by (simp add: FIRST_BLK_IN_PAGE_def)
  define H where "H = (\<lambda>x. if ?f \<le> x \<and> x < ?f + 8
      then \<lparr>bh_page = p, bh_data = p + BDEV_BLK_SIZE * (x - ?f), bh_state = fresh_state, bh_ref = 0, bh_held = False\<rparr>
      else hdrs s x)"
  let ?s = "s\<lparr>free_hdrs := free_hdrs s - 8, page_hdrs := (page_hdrs s)(p := [?f..<?f + 8]), hdrs := H\<rparr>"
  have fin: "finite (bare s)" using C(2) by (auto simp: supply_ok_def bare_def dom_def elim: rev_finite_subset)
  have ne: "pgcache s j = Some p \<longleftrightarrow> j = ?i" for j using p cache_okD(8) [OF C(1), of j p ?i] by blast
  have "bare ?s = {i. \<exists>q. pgcache s i = Some q \<and> q \<noteq> p \<and> page_hdrs s q = []}" by (auto simp: bare_def simp del: upt_Suc)
  also have "\<dots> = bare s - {?i}"
  proof (intro set_eqI iffI)
    fix i assume "i \<in> {i. \<exists>q. pgcache s i = Some q \<and> q \<noteq> p \<and> page_hdrs s q = []}"
    then show "i \<in> bare s - {?i}" using p by (auto simp: bare_def)
  next
    fix i assume "i \<in> bare s - {?i}"
    then show "i \<in> {i. \<exists>q. pgcache s i = Some q \<and> q \<noteq> p \<and> page_hdrs s q = []}" using ne [of i] by (auto simp: bare_def)
  qed
  finally have E: "bare ?s = bare s - {?i}" .
  have "?i \<in> bare s" using p True by (simp add: bare_def)
  then have card: "card (bare s) = Suc (card (bare ?s))" unfolding E by (rule card_Suc_Diff1 [OF fin, symmetric])
  then have "8 \<le> free_hdrs s" using C(2) by (simp add: supply_ok_def)
  then have 1: "init_blk_headers p ?f s = (True, ?s)"
    using True by (simp add: init_blk_headers_def new_headers_eq H_def del: new_headers.simps upt_Suc)
  have sd: "same_data s ?s" by (simp add: same_data_def)
  have x: "?f \<le> x \<and> x < ?f + 8 \<longleftrightarrow> x div 8 = ?i" for x unfolding f by auto
  have nl: "\<not> live s x" if "x div 8 = ?i" for x using that p True by (simp add: live_def)
  have "hdr_ok ?s j q" if q: "pgcache s j = Some q" for j q
  proof (cases "j = ?i")
    case j: True
    then have qp: "q = p" using p q by simp
    have "x - ?f = x mod 8" if "x div 8 = ?i" for x unfolding f that [symmetric] by (rule minus_mult_div_eq_mod)
    moreover have "get_state_bit fresh_state BLK_HEADER_VALID" "\<not> get_state_bit fresh_state BLK_HEADER_DIRTY"
      by (simp_all add: fresh_state_def get_set_state_bit)
    ultimately show ?thesis
      using j qp f x unfolding hdr_ok_def bdev_is_blk_valid_def bdev_is_blk_dirty_def H_def by (auto simp del: upt_Suc)
  next
    case j: False
    then have "q \<noteq> p" using cache_okD(8) [OF C(1) p] q by auto
    then have "hdr_ok ?s j q = hdr_ok s j q"
      using hdrs_div [OF cache_okD(9) [OF C(1) q]] j x by (intro hdr_ok_cong) (auto simp: H_def)
    then show ?thesis using cache_okD(9) [OF C(1) q] by simp
  qed
  then have c: "cache_ok ?s" by (rule cache_ok_same [OF C(1) sd])
  have su: "supply_ok ?s" using C(2) card by (auto simp: supply_ok_def)
  have l: "live ?s x \<and> hdrs ?s x = hdrs s x" if l: "live s x" for x
  proof -
    obtain q where q: "pgcache s (x div 8) = Some q" "x \<in> set (page_hdrs s q)" using l by (auto simp: live_def)
    then have "q \<noteq> p" using True by auto
    then have "live ?s x" using q by (simp add: live_def)
    moreover have "x div 8 \<noteq> ?i" using nl l by blast
    ultimately show ?thesis using x by (auto simp: H_def)
  qed
  have m: "b \<in> set (page_hdrs ?s p)" "live ?s b" using x p by (auto simp: live_def)
  have h: "bh_ref (hdrs ?s b) = 0 \<and> \<not> bh_held (hdrs ?s b)" using x by (simp add: H_def)
  have "live s x \<and> bh_held (hdrs s x)" if lx: "live ?s x" "bh_held (hdrs ?s x)" for x
  proof -
    have o: "x div 8 \<noteq> ?i" using lx(2) x by (auto simp: H_def split: if_splits)
    obtain q where "pgcache s (x div 8) = Some q" "x \<in> set (page_hdrs ?s q)" using lx(1) by (auto simp: live_def)
    moreover from this(1) have "q \<noteq> p" using ne [of "x div 8"] o by auto
    moreover have "H x = hdrs s x" using o x by (auto simp: H_def)
    ultimately show ?thesis using lx(2) by (simp add: live_def)
  qed
  then show thesis using that [OF 1 c su sd l m(2,1) h] by blast
qed


subsection \<open>Getting, releasing and writing a block\<close>

lemma get_unlocked_cached:
  assumes C: "cache_ok s" "supply_ok s" and p: "pgcache s (b div 8) = Some p" and b: "b < 2 ^ 23"
  obtains s' where "bdev_get_blk_unlocked b s = Some (True, s')" "cache_ok s'" "supply_ok s'" "same_data s s'" "keeps b s s'"
    "live s' b" "live s b \<Longrightarrow> hdrs s' b = bh_ref_update Suc (hdrs s b)"
    "\<not> live s b \<Longrightarrow> bh_ref (hdrs s' b) = 1 \<and> \<not> bh_held (hdrs s' b)"
proof -
  have "b * 512 mod 2 ^ 32 = b * 512" using b by simp
  then have 1: "pgcache_get_page (b * BDEV_BLK_SIZE mod 2 ^ 32) s = Some (Some p, s)"
    using p by (simp add: pgcache_get_page_def div_mult2_eq [symmetric] mult.commute [of b] flip: div_mult2_eq)
  obtain t where t: "init_blk_headers p (FIRST_BLK_IN_PAGE b) s = (True, t)" "cache_ok t" "supply_ok t" "same_data s t"
    "\<And>x. live s x \<Longrightarrow> live t x \<and> hdrs t x = hdrs s x" "live t b" "b \<in> set (page_hdrs t p)"
    "\<not> live s b \<Longrightarrow> bh_ref (hdrs t b) = 0 \<and> \<not> bh_held (hdrs t b)"
    "\<And>x. live t x \<Longrightarrow> bh_held (hdrs t x) \<Longrightarrow> live s x \<and> bh_held (hdrs s x)"
    using init_headers [OF C p] by blast
  let ?s = "upd_bh b (bh_ref_update Suc) t"
  have u: "cache_ok ?s" "same_data t ?s" "live ?s x = live t x" "supply_ok ?s = supply_ok t"
    "hdrs ?s b = bh_ref_update Suc (hdrs t b)" "keeps b t ?s" for x by (rule ref_upd [OF t(2)], simp)+
  have g: "bdev_get_blk_unlocked b s = Some (True, ?s)"
    using 1 t(1,7) by (simp add: bdev_get_blk_unlocked_def)
  have "keeps b s t" by (rule keepsI) (use t(5,9) in blast)+
  then have k: "keeps b s ?s" by (rule keeps_trans [OF _ u(6)])
  have l: "live ?s b" "supply_ok ?s" using t(3,6) u(3,4) by simp_all
  have r: "hdrs ?s b = bh_ref_update Suc (hdrs s b)" if "live s b" using t(5) [OF that] u(5) by simp
  have n: "bh_ref (hdrs ?s b) = 1 \<and> \<not> bh_held (hdrs ?s b)" if "\<not> live s b" using t(8) [OF that] u(5) by simp
  show thesis by (rule that [OF g u(1) l(2) same_data_trans [OF t(4) u(2)] k l(1) r n])
qed


lemma get_cached:
  assumes C: "cache_ok s" "supply_ok s" and p: "pgcache s (b div 8) = Some p" and b: "b < 2 ^ 23"
    and h: "live s b \<longrightarrow> \<not> bh_held (hdrs s b)"
  obtains s' where "bdev_get_blk b s = Some (True, s')" "cache_ok s'" "supply_ok s'" "same_data s s'" "keeps b s s'"
    "live s' b" "bh_held (hdrs s' b)" "0 < bh_ref (hdrs s' b)"
    "live s b \<Longrightarrow> hdrs s' b = (hdrs s b)\<lparr>bh_ref := Suc (bh_ref (hdrs s b)), bh_held := True\<rparr>"
proof -
  obtain t where t: "bdev_get_blk_unlocked b s = Some (True, t)" "cache_ok t" "supply_ok t" "same_data s t" "keeps b s t"
    "live t b" "live s b \<Longrightarrow> hdrs t b = bh_ref_update Suc (hdrs s b)"
    "\<not> live s b \<Longrightarrow> bh_ref (hdrs t b) = 1 \<and> \<not> bh_held (hdrs t b)"
    using get_unlocked_cached [OF C p b] by blast
  let ?s = "upd_bh b (bh_held_update (\<lambda>_. True)) t"
  have u: "cache_ok ?s" "same_data t ?s" "live ?s x = live t x" "supply_ok ?s = supply_ok t"
    "hdrs ?s b = (hdrs t b)\<lparr>bh_held := True\<rparr>" "keeps b t ?s" for x by (rule ref_upd [OF t(2)], simp)+
  have nh: "\<not> bh_held (hdrs t b)" using t(7,8) h by (cases "live s b") auto
  then have "bdev_get_blk b s = Some (True, ?s)" using t(1) by (simp add: bdev_get_blk_def bh_acquire_def)
  moreover have "keeps b s ?s" by (rule keeps_trans [OF t(5) u(6)])
  moreover have "0 < bh_ref (hdrs t b)" using t(7,8) by (cases "live s b") auto
  moreover have "hdrs ?s b = (hdrs s b)\<lparr>bh_ref := Suc (bh_ref (hdrs s b)), bh_held := True\<rparr>" if "live s b"
    using t(7) [OF that] u(5) by simp
  ultimately show thesis
    using u t same_data_trans [OF t(4) u(2)] by (intro that [of ?s]) auto
qed

lemma release_unlocked:
  assumes C: "cache_ok s" and b: "live s b" "0 < bh_ref (hdrs s b)"
  obtains s' where "bdev_release_blk_unlocked b s = Some s'" "cache_ok s'" "supply_ok s \<Longrightarrow> supply_ok s'" "same_data s s'"
    "keeps b s s'" "1 < bh_ref (hdrs s b) \<Longrightarrow> live s' b"
    "live s' b \<Longrightarrow> hdrs s' b = (hdrs s b)\<lparr>bh_ref := bh_ref (hdrs s b) - 1\<rparr>"
proof -
  obtain p where p: "pgcache s (b div 8) = Some p" "b \<in> set (page_hdrs s p)" using b by (auto simp: live_def)
  have ok: "hdr_ok s (b div 8) p" by (rule cache_okD(9) [OF C p(1)])
  have bp: "bh_page (hdrs s b) = p" by (rule hdr_okD(2) [OF ok p(2)])
  let ?t = "upd_bh b (bh_ref_update (\<lambda>n. n - 1)) s"
  have u: "cache_ok ?t" "same_data s ?t" "keeps b s ?t" "live ?t x = live s x" "supply_ok ?t = supply_ok s"
    for x by (rule ref_upd [OF C], simp)+
  have hb: "hdrs ?t b = (hdrs s b)\<lparr>bh_ref := bh_ref (hdrs s b) - 1\<rparr>" by (cases "hdrs s b") (simp add: upd_bh_def)
  show thesis
  proof (cases "bh_ref (hdrs ?t b) = 0 \<and> blocks_zero_ref p ?t \<and> \<not> page_dirty s p")
    case False
    then have "bdev_release_blk_unlocked b s = Some ?t"
      using b(2) bp by (auto simp: bdev_release_blk_unlocked_def free_blk_headers_def upd_bh_def Let_def)
    then show thesis using u hb b by (intro that [of ?t]) auto
  next
    case True
    have hp: "page_hdrs ?t p = page_hdrs s p" "page_dirty ?t p = page_dirty s p" "pgcache ?t = pgcache s"
      by (simp_all add: upd_bh_def)
    have z: "bh_ref (hdrs ?t x) = 0" if "x \<in> set (page_hdrs s p)" for x
      using True that hp by (auto simp: blocks_zero_ref_def list_all_iff)
    have nd: "\<not> bdev_is_blk_dirty x ?t" if "x \<in> set (page_hdrs s p)" for x
      using hdr_okD(5) [OF cache_okD(9) [OF u(1), of "b div 8" p]] True that hp p by auto
    let ?s = "?t\<lparr>free_hdrs := free_hdrs ?t + length (page_hdrs ?t p), page_hdrs := (page_hdrs ?t)(p := [])\<rparr>"
    have r: "bdev_release_blk_unlocked b s = Some ?s"
      using True b(2) bp nd hp unfolding bdev_release_blk_unlocked_def free_blk_headers_def Let_def
      by (simp add: list_all_iff upd_bh_def)
    have sd: "same_data ?t ?s" by (simp add: same_data_def)
    have ne: "pgcache s j = Some p \<longleftrightarrow> j = b div 8" for j using p cache_okD(8) [OF C, of j p "b div 8"] by blast
    have "hdr_ok ?s j q" if q: "pgcache ?t j = Some q" for j q
    proof (cases "q = p")
      case False
      then have "hdr_ok ?s j q = hdr_ok ?t j q" by (intro hdr_ok_cong) auto
      then show ?thesis using cache_okD(9) [OF u(1) q] by simp
    qed (simp add: hdr_ok_def)
    then have c: "cache_ok ?s" by (rule cache_ok_same [OF u(1) sd])
    have l8: "length (page_hdrs s p) = 8" using hdr_okD(1) [OF ok] p(2) by auto
    have su: "supply_ok ?s" if s: "supply_ok s"
    proof -
      have "bare ?s = insert (b div 8) (bare s)"
      proof (intro set_eqI iffI)
        fix i assume "i \<in> bare ?s"
        then show "i \<in> insert (b div 8) (bare s)" using ne [of i] hp by (auto simp: bare_def upd_bh_def split: if_splits)
      next
        fix i assume "i \<in> insert (b div 8) (bare s)"
        then show "i \<in> bare ?s" using p hp by (auto simp: bare_def upd_bh_def)
      qed
      moreover have "b div 8 \<notin> bare s" using p by (auto simp: bare_def)
      moreover have "finite (bare s)" using s by (auto simp: supply_ok_def bare_def dom_def elim: rev_finite_subset)
      ultimately have "card (bare ?s) = Suc (card (bare s))" by simp
      then show ?thesis using s l8 hp by (auto simp: supply_ok_def upd_bh_def)
    qed
    have "live s x \<and> bh_held (hdrs s x)" if lx: "x \<noteq> b" "live ?s x" "bh_held (hdrs ?s x)" for x
      using lx by (auto simp: live_def upd_bh_def split: if_splits)
    moreover have "live ?s x \<and> hdrs ?s x = hdrs s x" if x: "x \<noteq> b" "live s x" "0 < bh_ref (hdrs s x)" for x
    proof -
      obtain q where q: "pgcache s (x div 8) = Some q" "x \<in> set (page_hdrs s q)" using x by (auto simp: live_def)
      have "q \<noteq> p" using z [of x] x q by (auto simp: upd_bh_def)
      then show ?thesis using q x by (simp add: live_def upd_bh_def)
    qed
    ultimately have "keeps b s ?s" by (intro keepsI)
    moreover have "\<not> 1 < bh_ref (hdrs s b)" using True hb by auto
    moreover have "\<not> live ?s b" using p by (simp add: live_def upd_bh_def)
    ultimately show thesis using r c su same_data_trans [OF u(2) sd] by (intro that [of ?s]) auto
  qed
qed


lemma release_locked:
  assumes C: "cache_ok s" and b: "live s b" "0 < bh_ref (hdrs s b)" "bh_held (hdrs s b)"
  obtains s' where "bdev_release_blk b s = Some s'" "cache_ok s'" "supply_ok s \<Longrightarrow> supply_ok s'" "same_data s s'"
    "keeps b s s'"
    "1 < bh_ref (hdrs s b) \<Longrightarrow> live s' b"
    "live s' b \<Longrightarrow> hdrs s' b = (hdrs s b)\<lparr>bh_ref := bh_ref (hdrs s b) - 1, bh_held := False\<rparr>"
proof -
  let ?t = "upd_bh b (bh_held_update (\<lambda>_. False)) s"
  have u: "cache_ok ?t" "same_data s ?t" "keeps b s ?t" "live ?t x = live s x" "supply_ok ?t = supply_ok s"
    "hdrs ?t b = (hdrs s b)\<lparr>bh_held := False\<rparr>" for x by (rule ref_upd [OF C], simp)+
  have "0 < bh_ref (hdrs ?t b)" "live ?t b" using b u(4,6) by simp_all
  then obtain s' where s': "bdev_release_blk_unlocked b ?t = Some s'" "cache_ok s'" "supply_ok ?t \<Longrightarrow> supply_ok s'"
    "same_data ?t s'" "keeps b ?t s'"
    "1 < bh_ref (hdrs ?t b) \<Longrightarrow> live s' b" "live s' b \<Longrightarrow> hdrs s' b = (hdrs ?t b)\<lparr>bh_ref := bh_ref (hdrs ?t b) - 1\<rparr>"
    using release_unlocked [OF u(1)] by blast
  have "bdev_release_blk b s = Some s'" using s'(1) b(3) by (simp add: bdev_release_blk_def bh_release_def)
  moreover have "keeps b s s'" by (rule keeps_trans [OF u(3) s'(5)])
  ultimately show thesis
    using s' u(5,6) same_data_trans [OF u(2) s'(4)] by (intro that [of s']) auto
qed

lemma write_blk:
  assumes C: "cache_ok s" and b: "live s b" "b < 2 ^ 28" and r: "free_bios s \<noteq> []"
  obtains s' where "bdev_write_blk b s = Some (True, s')" "cache_ok s'" "supply_ok s \<Longrightarrow> supply_ok s'"
    "disk s' = (disk s)(b := view s b)" "dlog s' = dlog s @ [(b, view s b)]" "bmem s' = bmem s" "pgcache s' = pgcache s"
    "free_bios s' = free_bios s" "live s' = live s"
    "hdrs s' = (hdrs s)(b := bh_state_update (\<lambda>x. set_state_bit x BLK_HEADER_DIRTY False) (hdrs s b))"
proof -
  obtain p where p: "pgcache s (b div 8) = Some p" "b \<in> set (page_hdrs s p)" using b by (auto simp: live_def)
  obtain q bs where q: "free_bios s = q # bs" using r by (cases "free_bios s") auto
  let ?bio = "\<lparr>bio_blk = b, bio_size = 1, bio_buffer = bh_data (hdrs s b), bio_op = BIO_WRITE, bio_status = BIO_PENDING\<rparr>"
  let ?t = "s\<lparr>free_bios := bs, bios := (bios s)(q := ?bio)\<rparr>"
  note D = cache_okD [OF C]
  obtain u where u: "bdev_make_request q ?t = Some u" "cache_frame ?t u" "ide_status u = IDE_IDLE" "request_queue u = []"
    "free_bios u = bs" "disk u = apply_log (disk s) (wr_log (bmem s) ?bio)" "dlog u = dlog s @ wr_log (bmem s) ?bio" "bmem u = bmem s"
  proof (rule make_request [of ?t q])
    show "bio_ok (bios ?t q)" using b(2) by (simp add: bio_ok_def)
  qed (use D(1-3) in simp_all)
  have w: "wr_log (bmem s) ?bio = [(b, view s b)]" by (simp add: wr_log_def live_view [OF C b(1)])
  let ?s = "bdev_set_blk_dirty b False (bio_free q u)"
  have f: "frames ?s = frames s" "pgcache ?s = pgcache s" "page_dirty ?s = page_dirty s" "page_hdrs ?s = page_hdrs s"
    "free_hdrs ?s = free_hdrs s" "free_bios ?s = free_bios s" "ide_status ?s = IDE_IDLE" "request_queue ?s = []"
    "disk ?s = (disk s)(b := view s b)" "dlog ?s = dlog s @ [(b, view s b)]" "bmem ?s = bmem s"
    "hdrs ?s = (hdrs s)(b := bh_state_update (\<lambda>x. set_state_bit x BLK_HEADER_DIRTY False) (hdrs s b))"
    using u w q by (simp_all add: bdev_set_blk_dirty_def bio_free_def upd_bh_def cache_frame_def)
  have "bdev_is_blk_valid b s" using hdr_okD(4) [OF D(9) [OF p(1)] p(2)] .
  then have "bdev_write_blk b s = Some (True, ?s)"
    using u(1) q by (simp add: bdev_write_blk_def bio_alloc_def upd_bio_def bdev_is_blk_valid_def)
  moreover have "hdr_ok ?s i p'" if "pgcache s i = Some p'" for i p'
    using D(9) [OF that] f unfolding hdr_ok_def bdev_is_blk_valid_def bdev_is_blk_dirty_def by (auto simp: get_set_state_bit)
  then have "cache_ok ?s" using C f length_view [OF C] unfolding cache_ok_def by simp
  moreover have "live ?s = live s" using f by (auto simp: live_def fun_eq_iff)
  moreover have "supply_ok ?s = supply_ok s" using f by (simp add: supply_ok_def bare_def)
  ultimately show thesis using f by (intro that [of ?s]) auto
qed


subsection \<open>Reading a page into the cache\<close>

lemma put_page:
  assumes "\<And>x. length (d x) = BDEV_BLK_SIZE" "j < 8"
  shows "bytes_at (put_bytes m p (concat (map (\<lambda>k. d (8 * i + k)) [0..<8]))) (p + BDEV_BLK_SIZE * j) BDEV_BLK_SIZE = d (8 * i + j)"
proof (rule bytes_at_eqI)
  let ?c = "concat (map (\<lambda>k. d (8 * i + k)) [0..<8])"
  have l: "length ?c = BDEV_BLK_SIZE * 8" by (rule length_concat_blocks) (simp add: assms(1))
  fix k :: nat assume k: "k < BDEV_BLK_SIZE"
  have "BDEV_BLK_SIZE * j + k < length ?c" unfolding l using k assms(2) by simp
  then have "put_bytes m p ?c (p + (BDEV_BLK_SIZE * j + k)) = ?c ! (BDEV_BLK_SIZE * j + k)" by (rule put_bytes_at)
  also have "\<dots> = d (8 * i + j) ! k" by (rule nth_concat_blocks) (use assms k in simp_all)
  finally show "put_bytes m p ?c (p + BDEV_BLK_SIZE * j + k) = d (8 * i + j) ! k" by (simp add: add.assoc)
qed (rule assms(1))

text \<open>The cache after page \<open>i\<close> was read into the free frame \<open>p\<close>.\<close>

lemma cache_fill:
  assumes C: "cache_ok s" and p: "frames s = p # ps" and i: "pgcache s i = None"
    and s': "pgcache s' = (pgcache s)(i := Some p)" "frames s' = ps" "page_hdrs s' = (page_hdrs s)(p := [])"
      "page_dirty s' = (page_dirty s)(p := False)" "hdrs s' = hdrs s" "disk s' = disk s"
      "bmem s' = put_bytes (bmem s) p (concat (map (\<lambda>k. disk s (8 * i + k)) [0..<8]))"
      "ide_status s' = IDE_IDLE" "request_queue s' = []"
  shows "cache_ok s'" "view s' = view s" "live s' x = live s x" "bare s' = insert i (bare s)"
proof -
  note D = cache_okD [OF C]
  have np: "pgcache s j \<noteq> Some p" for j using D(7) p by simp
  have "hdr_ok s' j q" if "pgcache s' j = Some q" for j q
  proof (cases "j = i")
    case True
    then have "q = p" using that s'(1) by simp
    then show ?thesis by (simp add: hdr_ok_def s'(3))
  next
    case False
    then have q: "pgcache s j = Some q" using that s'(1) by simp
    then have "q \<noteq> p" using np by blast
    then have "hdr_ok s' j q = hdr_ok s j q" by (intro hdr_ok_cong) (simp_all add: s')
    then show ?thesis using D(9) [OF q] by simp
  qed
  moreover have "ran (pgcache s') = insert p (ran (pgcache s))" using s'(1) i by (simp add: ran_map_upd)
  moreover have "inj_on (pgcache s') (dom (pgcache s'))"
    using C np i unfolding cache_ok_def s'(1) by (auto simp: inj_on_def dom_def)
  moreover have "4096 dvd p" "p \<notin> set ps" "distinct ps" using D(4,5) p by auto
  ultimately show "cache_ok s'" using C p s' np unfolding cache_ok_def by (auto simp: ran_def)
  show "view s' = view s"
  proof
    fix b
    show "view s' b = view s b"
    proof (cases "b div 8 = i")
      case True
      then have "8 * i + b mod 8 = b" by (metis div_mult_mod_eq mult.commute)
      then show ?thesis using put_page [of "disk s" "b mod 8" "bmem s" p i] D(3) True i s' by (simp add: view_def)
    next
      case False
      show ?thesis
      proof (cases "pgcache s (b div 8)")
        case (Some q)
        have "4096 dvd q" "4096 dvd p" "q \<noteq> p" using D(5,6) Some p np by auto
        then have "q + 4096 \<le> p \<or> p + 4096 \<le> q" by (rule pages_apart)
        moreover have "length (concat (map (\<lambda>k. disk s (8 * i + k)) [0..<8])) = 512 * 8"
          by (rule length_concat_blocks) (simp add: D(3))
        moreover have "b mod 8 < 8" by simp
        ultimately have "bytes_at (bmem s') (q + 512 * (b mod 8)) 512 = bytes_at (bmem s) (q + 512 * (b mod 8)) 512"
          unfolding s'(7) by (intro bytes_at_put_other) linarith
        then show ?thesis using Some False s'(1) by (simp add: view_def)
      qed (use False s' in \<open>simp add: view_def\<close>)
    qed
  qed
  show "live s' x = live s x"
    using np [of "x div 8"] i s'(1,3) by (cases "pgcache s (x div 8)") (auto simp: live_def)
  show "bare s' = insert i (bare s)"
  proof (rule set_eqI)
    fix j
    show "j \<in> bare s' \<longleftrightarrow> j \<in> insert i (bare s)"
      using np [of j] s'(1,3) by (cases "pgcache s j") (auto simp: bare_def)
  qed
qed

lemma put_bytes_Nil [simp]: "put_bytes m a [] = m"
  by (auto simp: put_bytes_def fun_eq_iff)

text \<open>A free frame that was filled but is not put into the cache.\<close>

lemma cache_touch:
  assumes C: "cache_ok s" and p: "p \<in> set (frames s)"
    and s': "pgcache s' = pgcache s" "frames s' = frames s" "page_hdrs s' = (page_hdrs s)(p := [])"
      "page_dirty s' = (page_dirty s)(p := False)" "hdrs s' = hdrs s" "disk s' = disk s"
      "bmem s' = put_bytes (bmem s) p bs" "length bs \<le> 4096" "ide_status s' = IDE_IDLE" "request_queue s' = []"
  shows "cache_ok s'" "view s' = view s" "live s' x = live s x" "bare s' = bare s"
proof -
  note D = cache_okD [OF C]
  have np: "pgcache s j \<noteq> Some p" for j using D(7) p by simp
  have "hdr_ok s' j q" if q: "pgcache s j = Some q" for j q
  proof -
    have "q \<noteq> p" using np q by blast
    then have "hdr_ok s' j q = hdr_ok s j q" by (intro hdr_ok_cong) (simp_all add: s')
    then show ?thesis using D(9) [OF q] by simp
  qed
  then show "cache_ok s'" using C s' unfolding cache_ok_def by auto
  show "view s' = view s"
  proof
    fix b
    show "view s' b = view s b"
    proof (cases "pgcache s (b div 8)")
      case (Some q)
      have "4096 dvd q" "4096 dvd p" "q \<noteq> p" using D(5,6) Some p np by auto
      then have "q + 4096 \<le> p \<or> p + 4096 \<le> q" by (rule pages_apart)
      moreover have "b mod 8 < 8" by simp
      ultimately have "bytes_at (bmem s') (q + 512 * (b mod 8)) 512 = bytes_at (bmem s) (q + 512 * (b mod 8)) 512"
        unfolding s'(7) using s'(8) by (intro bytes_at_put_other) linarith
      then show ?thesis using Some s'(1) by (simp add: view_def)
    qed (use s' in \<open>simp add: view_def\<close>)
  qed
  show "live s' x = live s x"
    using np [of "x div 8"] s'(1,3) by (cases "pgcache s (x div 8)") (auto simp: live_def)
  show "bare s' = bare s"
  proof (rule set_eqI)
    fix j
    show "j \<in> bare s' \<longleftrightarrow> j \<in> bare s" using np [of j] s'(1,3) by (cases "pgcache s j") (auto simp: bare_def)
  qed
qed

lemma get_page:
  assumes C: "cache_ok s" and b: "b < 2 ^ 23"
  obtains r s' where "pgcache_get_page (b * BDEV_BLK_SIZE mod 2 ^ 32) s = Some (r, s')" "cache_ok s'" "view s' = view s"
    "disk s' = disk s" "dlog s' = dlog s" "hdrs s' = hdrs s" "\<And>x. live s' x = live s x" "free_hdrs s' = free_hdrs s"
    "r = pgcache s' (b div 8)" "bare s' \<subseteq> insert (b div 8) (bare s)" "dom (pgcache s') \<subseteq> insert (b div 8) (dom (pgcache s))"
    "r = None \<Longrightarrow> frames s = [] \<or> free_bios s = [] \<or> tree_oom s \<noteq> [] \<and> hd (tree_oom s)"
proof -
  have m: "b * BDEV_BLK_SIZE mod 2 ^ 32 = b * BDEV_BLK_SIZE" using b by simp
  have d: "b * BDEV_BLK_SIZE div 4096 = b div 8"
    by (simp add: mult.commute [of b] flip: div_mult2_eq)
  show thesis
  proof (cases "pgcache s (b div 8)")
    case (Some p)
    then have "pgcache_get_page (b * BDEV_BLK_SIZE mod 2 ^ 32) s = Some (Some p, s)" unfolding m by (simp add: pgcache_get_page_def d)
    then show thesis using C Some by (intro that [of "Some p" s]) auto
  next
    case None
    show thesis
    proof (cases "frames s")
      case Nil
      then have "pgcache_get_page (b * BDEV_BLK_SIZE mod 2 ^ 32) s = Some (None, s)"
        using None unfolding m by (simp add: pgcache_get_page_def d)
      then show thesis using C None Nil by (intro that [of None s]) auto
    next
      case (Cons p ps)
      let ?t = "s\<lparr>frames := ps, page_dirty := (page_dirty s)(p := False), page_hdrs := (page_hdrs s)(p := [])\<rparr>"
      show thesis
      proof (cases "free_bios s")
        case Nil
        let ?s = "?t\<lparr>frames := p # ps\<rparr>"
        have "pgcache_get_page (b * BDEV_BLK_SIZE mod 2 ^ 32) s = Some (None, ?s)"
          using None Cons Nil unfolding m by (simp add: pgcache_get_page_def d bdev_fillpage_def bio_alloc_def)
        moreover have "cache_ok ?s" "view ?s = view s" "live ?s x = live s x" "bare ?s = bare s" for x
          by (rule cache_touch [OF C, of p _ "[]"]; use Cons cache_okD(1,2) [OF C] in \<open>simp\<close>)+
        ultimately show thesis using Nil None by (intro that [of None ?s]) auto
      next
        case q: (Cons q qs)
        let ?r = "\<lparr>bio_blk = 8 * (b div 8), bio_size = 8, bio_buffer = p, bio_op = BIO_READ, bio_status = BIO_PENDING\<rparr>"
        let ?u = "?t\<lparr>free_bios := qs, bios := (bios s)(q := ?r)\<rparr>"
        have ok: "bio_ok (bios ?u q)" using b by (simp add: bio_ok_def)
        obtain v where v: "bdev_make_request q ?u = Some v" "cache_frame ?u v" "ide_status v = IDE_IDLE" "request_queue v = []"
          "free_bios v = qs" "disk v = disk s" "dlog v = dlog s"
          "bmem v = put_bytes (bmem s) p (concat (map (\<lambda>k. disk s (8 * (b div 8) + k)) [0..<8]))"
          by (rule make_request [of ?u q]) (use cache_okD(1-3) [OF C] ok in \<open>simp_all add: wr_log_def dev_data_def\<close>)
        have fill: "bdev_fillpage (b * BDEV_BLK_SIZE) p ?t = Some (True, v\<lparr>free_bios := q # qs\<rparr>)"
        proof -
          have "b * BDEV_BLK_SIZE div 4096 * 4096 div BDEV_BLK_SIZE = 8 * (b div 8)" unfolding d by simp
          then show ?thesis using q v(1,5) by (simp add: bdev_fillpage_def bio_alloc_def upd_bio_def bio_free_def d)
        qed
        have len: "length (concat (map (\<lambda>k. disk s (8 * (b div 8) + k)) [0..<8])) \<le> 4096"
          using length_concat_blocks [of 8 "\<lambda>k. disk s (8 * (b div 8) + k)" 512] cache_okD(3) [OF C] by simp
        have f: "page_hdrs v = (page_hdrs s)(p := [])" "page_dirty v = (page_dirty s)(p := False)" "hdrs v = hdrs s"
          "pgcache v = pgcache s" "frames v = ps" "free_hdrs v = free_hdrs s" "tree_oom v = tree_oom s"
          using v(2) by (simp_all add: cache_frame_def)
        show thesis
        proof (cases "tree_oom s \<noteq> [] \<and> hd (tree_oom s)")
          case True
          let ?s = "v\<lparr>free_bios := q # qs, frames := p # ps, tree_oom := tl (tree_oom s)\<rparr>"
          have "pgcache_get_page (b * BDEV_BLK_SIZE mod 2 ^ 32) s = Some (None, ?s)"
            using None Cons fill True f unfolding m by (simp add: pgcache_get_page_def d)
          moreover have "cache_ok ?s" "view ?s = view s" "live ?s x = live s x" "bare ?s = bare s" for x
            by (rule cache_touch [OF C, of p _ "concat (map (\<lambda>k. disk s (8 * (b div 8) + k)) [0..<8])"];
                use Cons v f len in \<open>simp\<close>)+
          ultimately show thesis using True None f v by (intro that [of None ?s]) auto
        next
          case False
          let ?s = "v\<lparr>free_bios := q # qs, pgcache := (pgcache v)(b div 8 := Some p), tree_oom := tl (tree_oom s)\<rparr>"
          have "pgcache_get_page (b * BDEV_BLK_SIZE mod 2 ^ 32) s = Some (Some p, ?s)"
            using None Cons fill False f unfolding m by (simp add: pgcache_get_page_def d)
          moreover have "cache_ok ?s" "view ?s = view s" "live ?s x = live s x" "bare ?s = insert (b div 8) (bare s)" for x
            by (rule cache_fill [OF C Cons None]; use v f in \<open>simp\<close>)+
          ultimately show thesis using None f v by (intro that [of "Some p" ?s]) auto
        qed
      qed
    qed
  qed
qed



lemma idle_disk_ok: "cache_ok idle_disk" "bare idle_disk = {}" "pgcache idle_disk = Map.empty" "free_hdrs idle_disk = 24"
  by (auto simp: cache_ok_def idle_disk_def bare_def)


end
