(* ===== verification/Jbd_Inv.thy ===== *)
theory Jbd_Inv
  imports Jbd Bcache
begin

section \<open>A commit survives a crash\<close>

text \<open>
  The writes that reach the disk during a commit, and what the disk holds if it stops after any of them.
\<close>

lemma apply_log_other: "x \<notin> fst ` set l \<Longrightarrow> apply_log d l x = d x"
  by (induction l arbitrary: d) (auto simp: apply_log_def)

lemma apply_log_in:
  assumes "distinct (map fst l)" "(x, y) \<in> set l"
  shows "apply_log d l x = y"
  using assms
proof (induction l arbitrary: d)
  case (Cons p l)
  obtain b z where p: "p = (b, z)" by (cases p)
  show ?case
  proof (cases "(x, y) \<in> set l")
    case True
    then show ?thesis using Cons p by simp
  next
    case False
    then have "x = b" "y = z" "x \<notin> fst ` set l" using Cons.prems p by auto
    then show ?thesis using p apply_log_other [of x l "d(b := z)"] by simp
  qed
qed simp

lemma length_le32 [simp]: "length (le32 n) = 4"
  by (simp add: le32_def)

lemma length_le32s [simp]: "length (concat (map le32 bs)) = 4 * length bs"
  by (induction bs) simp_all

subsection \<open>Writing one journal block\<close>

text \<open>What stays as it is while journal blocks are written: the cache is well formed, its supplies are
  there, and the headers in use keep their state.\<close>

definition stays :: "blk \<Rightarrow> bst \<Rightarrow> bst \<Rightarrow> bool" where
  "stays b s s' \<longleftrightarrow> cache_ok s' \<and> supply_ok s' \<and> pgcache s' = pgcache s \<and> free_bios s' = free_bios s \<and>
     keeps b s s'"

lemma acquire_release:
  assumes "\<not> bh_held (hdrs s b)"
  obtains t where "bh_acquire b s = Some t" "bmem t = bmem s" "\<And>x. bh_data (hdrs t x) = bh_data (hdrs s x)"
    "\<And>m. bh_release b (t\<lparr>bmem := m\<rparr>) = Some (s\<lparr>bmem := m\<rparr>)"
proof -
  have h: "(hdrs s b)\<lparr>bh_held := False\<rparr> = hdrs s b" using assms by (cases "hdrs s b") simp
  let ?t = "upd_bh b (bh_held_update (\<lambda>_. True)) s"
  have "upd_bh b (bh_held_update (\<lambda>_. False)) (?t\<lparr>bmem := m\<rparr>) = s\<lparr>bmem := m\<rparr>" for m
    by (rule bst.equality) (simp_all add: upd_bh_def h)
  then have "bh_release b (?t\<lparr>bmem := m\<rparr>) = Some (s\<lparr>bmem := m\<rparr>)" for m
    by (simp add: bh_release_def) (simp add: upd_bh_def)
  moreover have "bh_acquire b s = Some ?t" using assms by (simp add: bh_acquire_def)
  ultimately show thesis by (intro that [of ?t]) (simp_all add: upd_bh_def)
qed

lemma journal_blk:
  assumes C: "cache_ok s" "supply_ok s" "free_bios s \<noteq> []" and p: "pgcache s (pb div 8) \<noteq> None" "pb < 2 ^ 23"
    "live s pb \<longrightarrow> \<not> bh_held (hdrs s pb)" and d: "length d \<le> BDEV_BLK_SIZE" "d' = d @ drop (length d) (view s pb)"
  obtains s1 s2 s' where "bdev_get_blk pb s = Some (True, s1)" "same_data s s1" "keeps pb s s1" "cache_ok s1"
    "bdev_write_blk pb (s1\<lparr>bmem := put_bytes (bmem s1) (bh_data (hdrs s1 pb)) d\<rparr>) = Some (True, s2)"
    "bdev_release_blk pb s2 = Some s'" "stays pb s s'" "live s' pb \<longrightarrow> \<not> bh_held (hdrs s' pb)"
    "view s' = (view s)(pb := d')" "disk s' = (disk s)(pb := d')" "dlog s' = dlog s @ [(pb, d')]"
proof -
  obtain q where q: "pgcache s (pb div 8) = Some q" using p(1) by auto
  obtain s1 where s1: "bdev_get_blk pb s = Some (True, s1)" "cache_ok s1" "supply_ok s1" "same_data s s1" "keeps pb s s1"
    "live s1 pb" "bh_held (hdrs s1 pb)" "0 < bh_ref (hdrs s1 pb)"
    using get_cached [OF C(1,2) q p(2,3)] by blast
  let ?t = "s1\<lparr>bmem := put_bytes (bmem s1) (bh_data (hdrs s1 pb)) d\<rparr>"
  have q1: "pgcache s1 (pb div 8) = Some q" using q s1(4) by (simp add: same_data_def)
  have da: "bh_data (hdrs s1 pb) = q + 512 * (pb mod 8)"
    using s1(6) q1 hdr_okD(3) [OF cache_okD(9) [OF s1(2) q1]] by (auto simp: live_def)
  have vt: "view ?t = (view s)(pb := d')"
    unfolding da using view_put [OF s1(2) q1 d(1)] same_data_view [OF s1(4)] d(2) by simp
  have ct: "cache_ok ?t" "supply_ok ?t" "live ?t = live s1" "free_bios ?t \<noteq> []"
    using s1(2-4) C(3) by (auto simp: cache_ok_def hdr_ok_def bdev_is_blk_valid_def bdev_is_blk_dirty_def supply_ok_def bare_def
        live_def same_data_def)
  have "live ?t pb" "pb < 2 ^ 28" using s1(6) ct(3) p(2) by simp_all
  then obtain s2 where s2: "bdev_write_blk pb ?t = Some (True, s2)" "cache_ok s2" "supply_ok ?t \<Longrightarrow> supply_ok s2"
    "disk s2 = (disk ?t)(pb := view ?t pb)" "dlog s2 = dlog ?t @ [(pb, view ?t pb)]" "bmem s2 = bmem ?t" "pgcache s2 = pgcache ?t"
    "free_bios s2 = free_bios ?t" "live s2 = live ?t"
    "hdrs s2 = (hdrs ?t)(pb := bh_state_update (\<lambda>x. set_state_bit x BLK_HEADER_DIRTY False) (hdrs ?t pb))"
    using write_blk [OF ct(1) _ _ ct(4)] by blast
  have v2: "view s2 = view ?t"
  proof
    fix x
    show "view s2 x = view ?t x"
      using s2(4,6,7) q1 by (cases "pgcache s1 (x div 8)") (auto simp: view_def)
  qed
  have h2: "live s2 pb" "0 < bh_ref (hdrs s2 pb)" "bh_held (hdrs s2 pb)" using s2(9,10) s1(6-8) ct(3) by simp_all
  obtain s' where s': "bdev_release_blk pb s2 = Some s'" "cache_ok s'" "supply_ok s2 \<Longrightarrow> supply_ok s'" "same_data s2 s'"
    "keeps pb s2 s'" "live s' pb \<Longrightarrow> hdrs s' pb = (hdrs s2 pb)\<lparr>bh_ref := bh_ref (hdrs s2 pb) - 1, bh_held := False\<rparr>"
    using release_locked [OF s2(2) h2] by blast
  have "keeps pb s1 s2" by (rule keepsI) (use s2(9,10) ct(3) in simp_all)
  then have "keeps pb s s'" using keeps_trans s1(5) s'(5) by blast
  then have "stays pb s s'"
    using s'(2,3,4) s2(3,7,8) ct(2) s1(4) by (simp add: stays_def same_data_def)
  moreover have "view s' = (view s)(pb := d')" using same_data_view [OF s'(4)] v2 vt by simp
  moreover have "view ?t pb = d'" using vt by simp
  ultimately show thesis
    using s1 s2 s' by (intro that [of s1 s2 s']) (auto simp: same_data_def)
qed

end
