(* ===== verification/Spec2Isabelle.thy ===== *)
theory Spec2Isabelle
  imports KList LibString Synch_Inv Bbq RadixTree Vpmap_Props Vm_Props Jbd_Inv
begin

text \<open>
  \<^bold>\<open>OSV: a verification development of the kernel.\<close>

  OSV is a small operating system kernel for x86-64. This development translates its components into
  executable definitions and proves what makes them correct, from the page allocator at boot to the
  journal of the file system. It also proves where the code does not do what its comments promise.

  \<^bold>\<open>Conventions.\<close> A C function becomes a function on an explicit state, one record per component with the
  fields of the C structures and globals. A function that can panic returns an option, and \<open>None\<close> is
  the panic: a failing \<^verbatim>\<open>kassert\<close>, an explicit \<^verbatim>\<open>panic\<close>, an access outside an array. Error codes are
  integers as in \<^verbatim>\<open>include/lib/errcode.h\<close>. Machine integers are words where they wrap around. Pointers are
  addresses, objects live in maps from addresses. Loops are recursive functions; \<^verbatim>\<open>OSV_Base\<close> has the shared
  types and rules.

  \<^bold>\<open>The parts and their theories.\<close>

  \<^item> \<^verbatim>\<open>KList\<close> (\<^verbatim>\<open>kernel/list.c\<close>): doubly linked lists on a store of links. The interface \<open>kqueue\<close> says that
    appending and removing act as on a list; ordered insertion is \<open>insert_before\<close>.
  \<^item> \<^verbatim>\<open>LibString\<close> (\<^verbatim>\<open>lib/string.c\<close>, \<^verbatim>\<open>lib/bits.c\<close>): memory and string routines on a byte memory.
  \<^item> \<^verbatim>\<open>Synch\<close>, \<^verbatim>\<open>Synch_Inv\<close> (\<^verbatim>\<open>kernel/synch.c\<close>, \<^verbatim>\<open>kernel/sched.c\<close>): spinlocks, sleeplocks, condition variables and
    the scheduler. Reachable states of any number of processors are described by step relations; the
    lemmas show mutual exclusion, that no thread is lost or run twice, and that no wakeup is lost.
  \<^item> \<^verbatim>\<open>Bbq\<close> (\<^verbatim>\<open>kernel/bbq.c\<close>, \<^verbatim>\<open>kernel/pipe.c\<close>): the bounded buffer as a byte queue (interface \<open>byte_queue\<close>) and the
    pipes that use it.
  \<^item> \<^verbatim>\<open>RadixTree\<close> (\<^verbatim>\<open>kernel/radix_tree.c\<close>): radix trees on a heap of nodes, shown to refine finite maps (interface
    \<open>index_map\<close>).
  \<^item> \<^verbatim>\<open>Pmem\<close>, \<^verbatim>\<open>Pmem_Inv\<close>, \<^verbatim>\<open>Pmem_Init\<close> (\<^verbatim>\<open>kernel/mm/pmem.c\<close>, \<^verbatim>\<open>arch/x86_64/kernel/mm/pmem.c\<close>): the boot bitmap, the
    buddy allocator and the hand-over between them. The invariant is a tiling of memory by aligned blocks.
  \<^item> \<^verbatim>\<open>Kmalloc\<close>, \<^verbatim>\<open>Kmalloc_Inv\<close>, \<^verbatim>\<open>Kmalloc_Init\<close> (\<^verbatim>\<open>kernel/mm/kmalloc.c\<close>): slabs and \<^verbatim>\<open>kmalloc\<close> on top of the page
    allocator.
  \<^item> \<^verbatim>\<open>Allocator\<close>: the interface of an allocator and, once for both of them, that live blocks never overlap
    whatever the requests.
  \<^item> \<^verbatim>\<open>Vpmap\<close>, \<^verbatim>\<open>Vpmap_Inv\<close>, \<^verbatim>\<open>Vpmap_Props\<close> (\<^verbatim>\<open>arch/x86_64/kernel/mm/vpmap.c\<close>): four-level page tables. The
    invariant says that the tables form a tree of distinct pages; mapping is proved against lookup.
  \<^item> \<^verbatim>\<open>Vm\<close>, \<^verbatim>\<open>Vm_Props\<close> (\<^verbatim>\<open>kernel/mm/vm.c\<close>): address spaces and memory regions.
  \<^item> \<^verbatim>\<open>Bdev\<close>, \<^verbatim>\<open>Bdev_Inv\<close>, \<^verbatim>\<open>Bcache\<close> (\<^verbatim>\<open>kernel/bdev.c\<close>, \<^verbatim>\<open>kernel/bdevms.c\<close>, \<^verbatim>\<open>kernel/mm/pgcache.c\<close>,
    \<^verbatim>\<open>kernel/drivers/ide.c\<close>): the disk driver with its request queue and interrupts, and the block cache.
  \<^item> \<^verbatim>\<open>Jbd\<close> (\<^verbatim>\<open>kernel/fs/jbd.c\<close>): the journal.

  \<^bold>\<open>Bounds and fuel.\<close> \<open>merge_loop\<close> of the buddy allocator has one round per order and one more, which the proofs
  show to be enough. \<open>wait_io\<close> waits for as many interrupts as there are requests in the queue. Loops that
  need not end (\<open>strlen\<close>, \<open>commit_retry\<close>) are partial functions whose \<open>None\<close> is not returning.

  \<^bold>\<open>Not modelled.\<close> Console output and input, the trap table, the multiprocessor start, the local and I/O
  interrupt controllers and the serial and video drivers only exchange values with the hardware. The boot
  code is assembly. User programs and tools run outside the kernel.
\<close>

end
